(* ===== verification/Prelude.thy ===== *)
theory Prelude
  imports Main "HOL-Library.Word" "HOL-Library.Multiset"
begin

text \<open>
  The vocabulary every component of the development shares.

  \<^item> Machine integers: the C types of \<^verbatim>\<open>TCP_C/types.h\<close> as words of their width
    (\<open>unsigned long\<close> is 64 bits, the LP64 model; \<open>char\<close> is signed).
  \<^item> C strings: a list of characters that holds no NUL; the terminator is implicit and is
    what a read one past the end returns (\<open>cat\<close>).
  \<^item> Failures: a memory error the code would run into is a value of \<open>fault\<close>, so that a
    use after free or a NULL dereference is a branch of the model and never a silent
    default value.
  \<^item> The part of the C library the program calls on strings and numbers (\<open>strncmp\<close>,
    \<open>strcasecmp\<close>, \<open>strstr\<close>, \<open>snprintf\<close> with \<open>%s\<close>, \<open>atoi\<close>).
  \<^item> Lemmas on lists and words the components use.
\<close>

section \<open>Machine integers\<close>

type_synonym u8 = "8 word"
type_synonym u16 = "16 word"
type_synonym u32 = "32 word"
type_synonym u64 = "64 word"
type_synonym s32 = "32 word"

unbundle bit_operations_syntax

section \<open>Failures as values\<close>

datatype fault =
    Null_Deref
  | Out_Of_Bounds
  | Use_After_Free
  | Assert_Failed
  | Signed_Overflow

type_synonym 'a res = "fault + 'a"

definition res_bind :: "'a res \<Rightarrow> ('a \<Rightarrow> 'b res) \<Rightarrow> 'b res" where
  "res_bind r f = (case r of Inl e \<Rightarrow> Inl e | Inr x \<Rightarrow> f x)"

lemma res_bind_simps [simp]:
  "res_bind (Inl e) f = Inl e"
  "res_bind (Inr x) f = f x"
  by (simp_all add: res_bind_def)

lemma res_bind_Inr_iff [simp]:
  "res_bind r f = Inr y \<longleftrightarrow> (\<exists>x. r = Inr x \<and> f x = Inr y)"
  by (cases r) simp_all

section \<open>C strings\<close>

text \<open>The byte at an index: the terminator is what follows the last character.\<close>

definition cat :: "string \<Rightarrow> nat \<Rightarrow> char" where
  "cat s i = (if i < length s then s ! i else CHR 0x00)"

definition is_cstr :: "string \<Rightarrow> bool" where
  "is_cstr s \<longleftrightarrow> CHR 0x00 \<notin> set s"

text \<open>The value of a \<open>char\<close>: signed, as the compilers for the target take it.\<close>

definition uchar :: "char \<Rightarrow> nat" where
  "uchar c = of_char c"

definition schar :: "char \<Rightarrow> int" where
  "schar c = (if uchar c < 128 then int (uchar c) else int (uchar c) - 256)"

text \<open>\<open>strlen\<close>-style reading of a byte buffer: everything up to the first NUL.\<close>

definition cstr_of :: "string \<Rightarrow> string" where
  "cstr_of buf = takeWhile (\<lambda>c. c \<noteq> CHR 0x00) buf"

text \<open>\<open>strncmp(a, b, n) == 0\<close> on NUL-free strings.\<close>

definition strneq :: "string \<Rightarrow> string \<Rightarrow> nat \<Rightarrow> bool" where
  "strneq a b n \<longleftrightarrow> take n a = take n b"

text \<open>\<open>tolower\<close> of the C locale and \<open>strcasecmp(a, b) == 0\<close>.\<close>

definition c_tolower :: "char \<Rightarrow> char" where
  "c_tolower c = (if 65 \<le> uchar c \<and> uchar c \<le> 90 then char_of (uchar c + 32) else c)"

definition strcaseeq :: "string \<Rightarrow> string \<Rightarrow> bool" where
  "strcaseeq a b \<longleftrightarrow> map c_tolower a = map c_tolower b"

text \<open>\<open>strstr\<close>: the offset of the first occurrence.\<close>

fun is_prefix :: "string \<Rightarrow> string \<Rightarrow> bool" where
  "is_prefix [] s = True"
| "is_prefix (p # ps) [] = False"
| "is_prefix (p # ps) (c # cs) = (p = c \<and> is_prefix ps cs)"

fun strstr :: "string \<Rightarrow> string \<Rightarrow> nat option" where
  "strstr [] p = (if p = [] then Some 0 else None)"
| "strstr (c # cs) p = (if is_prefix p (c # cs) then Some 0 else map_option Suc (strstr cs p))"

text \<open>\<open>snprintf(buf, n, "%s", s)\<close>: at most \<open>n - 1\<close> bytes are stored, then the terminator.\<close>

definition snprintf_s :: "nat \<Rightarrow> string \<Rightarrow> string" where
  "snprintf_s n s = take (n - 1) s"

text \<open>
  \<open>atoi\<close> is \<open>(int) strtol(s, NULL, 10)\<close> in the C library the program links: leading white
  space, an optional sign, decimal digits, the value clamped to \<open>long\<close> and then cut to 32
  bits.
\<close>

definition is_space_c :: "char \<Rightarrow> bool" where
  "is_space_c c \<longleftrightarrow> uchar c = 32 \<or> (9 \<le> uchar c \<and> uchar c \<le> 13)"

definition is_digit_c :: "char \<Rightarrow> bool" where
  "is_digit_c c \<longleftrightarrow> 48 \<le> uchar c \<and> uchar c \<le> 57"

fun digits_val :: "nat \<Rightarrow> string \<Rightarrow> nat" where
  "digits_val acc [] = acc"
| "digits_val acc (c # cs) =
     (if is_digit_c c then digits_val (acc * 10 + (uchar c - 48)) cs else acc)"

definition strtol10 :: "string \<Rightarrow> int" where
  "strtol10 s =
     (let t = dropWhile is_space_c s;
          v = (case t of [] \<Rightarrow> 0
               | c # cs \<Rightarrow> if c = CHR ''-'' then - int (digits_val 0 cs)
                         else if c = CHR ''+'' then int (digits_val 0 cs)
                         else int (digits_val 0 t))
      in max (- (2 ^ 63)) (min (2 ^ 63 - 1) v))"

definition atoi :: "string \<Rightarrow> s32" where
  "atoi s = word_of_int (strtol10 s)"

section \<open>Shared lemmas\<close>

lemma uchar_less [simp]: "uchar c < 256"
  using nat_of_char_less_256 [of c] by (simp add: uchar_def)

lemma length_snprintf_s: "0 < n \<Longrightarrow> length (snprintf_s n s) < n"
  by (simp add: snprintf_s_def)

lemma is_cstr_snprintf_s [simp]: "is_cstr s \<Longrightarrow> is_cstr (snprintf_s n s)"
  by (auto simp: is_cstr_def snprintf_s_def dest: in_set_takeD)

lemma is_cstr_cstr_of [simp]: "is_cstr (cstr_of b)"
  by (auto simp: is_cstr_def cstr_of_def dest: set_takeWhileD)

lemma cstr_of_id: "is_cstr s \<Longrightarrow> cstr_of s = s"
  by (auto simp: cstr_of_def is_cstr_def takeWhile_eq_all_conv)

lemma is_prefix_iff: "is_prefix p s \<longleftrightarrow> (\<exists>t. s = p @ t)"
  by (induction p s rule: is_prefix.induct) auto

lemma strstr_Some: "strstr s p = Some i \<Longrightarrow> \<exists>u v. s = u @ p @ v \<and> length u = i"
proof (induction s arbitrary: i)
  case Nil
  then show ?case by (auto split: if_splits)
next
  case (Cons c cs)
  show ?case
  proof (cases "is_prefix p (c # cs)")
    case True
    with Cons.prems show ?thesis by (auto simp: is_prefix_iff)
  next
    case False
    with Cons.prems obtain j where j: "strstr cs p = Some j" "i = Suc j" by auto
    from Cons.IH [OF j(1)] obtain u v where "cs = u @ p @ v" "length u = j" by auto
    with j show ?thesis by (intro exI [of _ "c # u"] exI [of _ v]) simp
  qed
qed

lemma strstr_None: "strstr s p = None \<Longrightarrow> s \<noteq> u @ p @ v"
proof (induction s arbitrary: u)
  case Nil
  then show ?case by (auto split: if_splits)
next
  case (Cons c cs)
  then show ?case
    by (cases u) (auto simp: is_prefix_iff split: if_splits)
qed

lemma removeAll_filter: "removeAll x xs = filter (\<lambda>y. y \<noteq> x) xs"
  by (induction xs) auto

lemma distinct_removeAll_eq_remove1: "distinct xs \<Longrightarrow> removeAll x xs = remove1 x xs"
  by (simp add: distinct_remove1_removeAll)

lemma find_Some_in: "List.find P xs = Some x \<Longrightarrow> x \<in> set xs \<and> P x"
  by (auto simp: find_Some_iff)

lemma find_None_all: "List.find P xs = None \<longleftrightarrow> (\<forall>x \<in> set xs. \<not> P x)"
  by (auto simp: find_None_iff)

text \<open>Masking with \<open>2 ^ n - 1\<close> is the remainder, which is how every hash index is cut.\<close>

lemma unat_and_mask: "unat ((w :: 'a :: len word) AND mask n) = unat w mod 2 ^ n"
proof -
  have "unat (w AND mask n) = unat (take_bit n w)" by (simp add: take_bit_eq_mask)
  also have "\<dots> = take_bit n (unat w)" by (rule unsigned_take_bit_eq)
  finally show ?thesis by (simp add: take_bit_eq_mod)
qed

lemma unat_and_255: "unat ((w :: u32) AND 255) = unat w mod 256"
  using unat_and_mask [of w 8] by (simp add: mask_eq_exp_minus_1)

lemma unat_and_255_less [simp]: "unat ((w :: u32) AND 255) < 256"
  by (simp add: unat_and_255)

text \<open>A length of type \<open>int\<close> that becomes a \<open>size_t\<close>.\<close>

lemma unat_scast64:
  assumes "0 \<le> sint (w :: s32)"
  shows "unat (scast w :: u64) = nat (sint w)"
proof -
  have "scast w = (word_of_int (sint w) :: u64)" by simp
  then have "uint (scast w :: u64) = take_bit 64 (sint w)" by (simp only: uint_word_of_int_eq) simp
  also have "\<dots> = sint w" using assms sint_less [of w] by (intro take_bit_int_eq_self) simp_all
  finally show ?thesis by (metis nat_uint_eq)
qed

lemma unat_of_nat32: "m < 2 ^ 32 \<Longrightarrow> unat (of_nat m :: u32) = m"
  by (simp add: unat_of_nat)

lemma unat_of_nat_le32: "m \<le> unat (n :: u32) \<Longrightarrow> unat (of_nat m :: u32) = m"
  using unsigned_less [of n, where ?'a = nat] by (intro unat_of_nat32) simp

lemma unat_minus_of_nat32: "m \<le> unat n \<Longrightarrow> unat (n - of_nat m :: u32) = unat n - m"
  using unat_of_nat_le32 [of m n] by (subst unat_sub) (simp_all add: word_le_nat_alt)

text \<open>The value of an \<open>int\<close> computed from an integer in its range.\<close>

lemma sint_of_nat32: "k < 2 ^ 31 \<Longrightarrow> sint (of_nat k :: s32) = int k"
  by (simp add: signed_of_nat signed_take_bit_int_eq_self)

lemma sint_s32_of_int:
  assumes "- (2 ^ 31) \<le> k" "k < 2 ^ 31"
  shows "sint (word_of_int k :: s32) = k"
proof -
  have "sint (word_of_int k :: s32) = signed_take_bit 31 k" by (simp add: signed_of_int)
  also have "\<dots> = k" using assms by (rule signed_take_bit_int_eq_self)
  finally show ?thesis .
qed

end
