(* ===== verification/Kernel_List.thy ===== *)
theory Kernel_List
  imports Prelude
begin

text \<open>
  The intrusive lists of \<^verbatim>\<open>TCP_C/list.h\<close> at the level of the pointers.

  A \<open>list_head\<close> is a pair of pointers embedded in a larger structure; the model keeps the
  two pointers of every such node in a heap (\<open>list_heap\<close>: one function per field) and each
  operation is the sequence of assignments of the source, in its order, so that the
  aliasing of \<open>head->next == head\<close> in an empty list is really there. An \<open>hlist_node\<close>
  carries a pointer to the pointer that points to it; \<open>hloc\<close> names such a location.

  \<open>dlist h head xs\<close> says that the circular list at \<open>head\<close> holds exactly the nodes \<open>xs\<close>,
  in order and linked in both directions; \<open>hchain h hp xs\<close> says the same of a hash chain.
  The lemmas show that every operation refines the operation on \<open>xs\<close> its name promises and
  leaves every other list alone; the components above use lists of node addresses on the
  strength of them.
\<close>

section \<open>Doubly linked lists\<close>

type_synonym addr = nat

abbreviation (input) NULL_p :: addr where "NULL_p \<equiv> 0"

definition LIST_POISON1 :: addr where "LIST_POISON1 = 0x00100100"
definition LIST_POISON2 :: addr where "LIST_POISON2 = 0x00200200"

record list_heap =
  nxt :: "addr \<Rightarrow> addr"
  prv :: "addr \<Rightarrow> addr"

definition set_next :: "addr \<Rightarrow> addr \<Rightarrow> list_heap \<Rightarrow> list_heap" where
  "set_next p v h = h\<lparr>nxt := (nxt h)(p := v)\<rparr>"

definition set_prev :: "addr \<Rightarrow> addr \<Rightarrow> list_heap \<Rightarrow> list_heap" where
  "set_prev p v h = h\<lparr>prv := (prv h)(p := v)\<rparr>"

definition INIT_LIST_HEAD :: "addr \<Rightarrow> list_heap \<Rightarrow> list_heap" where
  "INIT_LIST_HEAD p h = set_prev p p (set_next p p h)"

text \<open>\<open>list_add_raw\<close> is \<open>__list_add\<close>, \<open>list_del_raw\<close> is \<open>__list_del\<close>.\<close>

definition list_add_raw :: "addr \<Rightarrow> addr \<Rightarrow> addr \<Rightarrow> list_heap \<Rightarrow> list_heap" where
  "list_add_raw new prev next h =
     (let h = set_prev next new h;
          h = set_next new next h;
          h = set_prev new prev h
      in set_next prev new h)"

definition list_add :: "addr \<Rightarrow> addr \<Rightarrow> list_heap \<Rightarrow> list_heap" where
  "list_add new head h = list_add_raw new head (nxt h head) h"

definition list_add_tail :: "addr \<Rightarrow> addr \<Rightarrow> list_heap \<Rightarrow> list_heap" where
  "list_add_tail new head h = list_add_raw new (prv h head) head h"

definition list_del_raw :: "addr \<Rightarrow> addr \<Rightarrow> list_heap \<Rightarrow> list_heap" where
  "list_del_raw prev next h = set_next prev next (set_prev next prev h)"

definition list_del :: "addr \<Rightarrow> list_heap \<Rightarrow> list_heap" where
  "list_del entry h =
     (let h = list_del_raw (prv h entry) (nxt h entry) h;
          h = set_next entry LIST_POISON1 h
      in set_prev entry LIST_POISON2 h)"

definition list_del_init :: "addr \<Rightarrow> list_heap \<Rightarrow> list_heap" where
  "list_del_init entry h =
     INIT_LIST_HEAD entry (list_del_raw (prv h entry) (nxt h entry) h)"

definition list_move :: "addr \<Rightarrow> addr \<Rightarrow> list_heap \<Rightarrow> list_heap" where
  "list_move l head h = list_add l head (list_del_raw (prv h l) (nxt h l) h)"

definition list_move_tail :: "addr \<Rightarrow> addr \<Rightarrow> list_heap \<Rightarrow> list_heap" where
  "list_move_tail l head h = list_add_tail l head (list_del_raw (prv h l) (nxt h l) h)"

definition list_empty :: "list_heap \<Rightarrow> addr \<Rightarrow> bool" where
  "list_empty h head \<longleftrightarrow> nxt h head = head"

definition list_empty_careful :: "list_heap \<Rightarrow> addr \<Rightarrow> bool" where
  "list_empty_careful h head \<longleftrightarrow> nxt h head = head \<and> nxt h head = prv h head"

definition list_splice_raw :: "addr \<Rightarrow> addr \<Rightarrow> list_heap \<Rightarrow> list_heap" where
  "list_splice_raw l head h =
     (let fst_n = nxt h l; lst_n = prv h l; at = nxt h head;
          h = set_prev fst_n head h;
          h = set_next head fst_n h;
          h = set_next lst_n at h
      in set_prev at lst_n h)"

definition list_splice :: "addr \<Rightarrow> addr \<Rightarrow> list_heap \<Rightarrow> list_heap" where
  "list_splice l head h = (if \<not> list_empty h l then list_splice_raw l head h else h)"

definition list_splice_init :: "addr \<Rightarrow> addr \<Rightarrow> list_heap \<Rightarrow> list_heap" where
  "list_splice_init l head h =
     (if \<not> list_empty h l then INIT_LIST_HEAD l (list_splice_raw l head h) else h)"

definition list_replace :: "addr \<Rightarrow> addr \<Rightarrow> list_heap \<Rightarrow> list_heap" where
  "list_replace old new h =
     (let h = set_next new (nxt h old) h;
          h = set_prev (nxt h new) new h;
          h = set_prev new (prv h old) h
      in set_next (prv h new) new h)"

definition list_replace_init :: "addr \<Rightarrow> addr \<Rightarrow> list_heap \<Rightarrow> list_heap" where
  "list_replace_init old new h = INIT_LIST_HEAD old (list_replace old new h)"

text \<open>The abstraction: a segment of doubly linked nodes, and a whole circular list.\<close>

fun lseg :: "list_heap \<Rightarrow> addr \<Rightarrow> addr list \<Rightarrow> addr \<Rightarrow> bool" where
  "lseg h a [] b \<longleftrightarrow> nxt h a = b \<and> prv h b = a"
| "lseg h a (x # xs) b \<longleftrightarrow> nxt h a = x \<and> prv h x = a \<and> lseg h x xs b"

definition dlist :: "list_heap \<Rightarrow> addr \<Rightarrow> addr list \<Rightarrow> bool" where
  "dlist h head xs \<longleftrightarrow> lseg h head xs head \<and> distinct (head # xs)"

section \<open>Hash chains\<close>

datatype hloc = Loc_Null | Loc_Poison | First_of addr | Next_of addr

record hlist_heap =
  first :: "addr \<Rightarrow> addr"
  hnext :: "addr \<Rightarrow> addr"
  pprev :: "addr \<Rightarrow> hloc"

text \<open>\<open>*loc = v\<close>: a write through a NULL or poisoned pointer is a fault.\<close>

fun write_loc :: "hloc \<Rightarrow> addr \<Rightarrow> hlist_heap \<Rightarrow> hlist_heap res" where
  "write_loc Loc_Null v h = Inl Null_Deref"
| "write_loc Loc_Poison v h = Inl Use_After_Free"
| "write_loc (First_of p) v h = Inr (h\<lparr>first := (first h)(p := v)\<rparr>)"
| "write_loc (Next_of p) v h = Inr (h\<lparr>hnext := (hnext h)(p := v)\<rparr>)"

definition INIT_HLIST_HEAD :: "addr \<Rightarrow> hlist_heap \<Rightarrow> hlist_heap" where
  "INIT_HLIST_HEAD p h = h\<lparr>first := (first h)(p := NULL_p)\<rparr>"

definition INIT_HLIST_NODE :: "addr \<Rightarrow> hlist_heap \<Rightarrow> hlist_heap" where
  "INIT_HLIST_NODE p h =
     h\<lparr>hnext := (hnext h)(p := NULL_p), pprev := (pprev h)(p := Loc_Null)\<rparr>"

definition hlist_unhashed :: "hlist_heap \<Rightarrow> addr \<Rightarrow> bool" where
  "hlist_unhashed h p \<longleftrightarrow> pprev h p = Loc_Null"

definition hlist_empty :: "hlist_heap \<Rightarrow> addr \<Rightarrow> bool" where
  "hlist_empty h hp \<longleftrightarrow> first h hp = NULL_p"

definition hlist_del_raw :: "addr \<Rightarrow> hlist_heap \<Rightarrow> hlist_heap res" where
  "hlist_del_raw n h =
     (let next = hnext h n; pp = pprev h n
      in res_bind (write_loc pp next h)
           (\<lambda>h. Inr (if next \<noteq> NULL_p then h\<lparr>pprev := (pprev h)(next := pp)\<rparr> else h)))"

definition hlist_del :: "addr \<Rightarrow> hlist_heap \<Rightarrow> hlist_heap res" where
  "hlist_del n h =
     res_bind (hlist_del_raw n h)
       (\<lambda>h. Inr (h\<lparr>hnext := (hnext h)(n := LIST_POISON1),
                   pprev := (pprev h)(n := Loc_Poison)\<rparr>))"

definition hlist_del_init :: "addr \<Rightarrow> hlist_heap \<Rightarrow> hlist_heap res" where
  "hlist_del_init n h =
     (if pprev h n \<noteq> Loc_Null
      then res_bind (hlist_del_raw n h) (\<lambda>h. Inr (INIT_HLIST_NODE n h))
      else Inr h)"

definition hlist_add_head :: "addr \<Rightarrow> addr \<Rightarrow> hlist_heap \<Rightarrow> hlist_heap" where
  "hlist_add_head n hp h =
     (let f = first h hp;
          h = h\<lparr>hnext := (hnext h)(n := f)\<rparr>;
          h = (if f \<noteq> NULL_p then h\<lparr>pprev := (pprev h)(f := Next_of n)\<rparr> else h);
          h = h\<lparr>first := (first h)(hp := n)\<rparr>
      in h\<lparr>pprev := (pprev h)(n := First_of hp)\<rparr>)"

fun hseg :: "hlist_heap \<Rightarrow> hloc \<Rightarrow> addr \<Rightarrow> addr list \<Rightarrow> bool" where
  "hseg h l p [] \<longleftrightarrow> p = NULL_p"
| "hseg h l p (x # xs) \<longleftrightarrow>
     p = x \<and> x \<noteq> NULL_p \<and> pprev h x = l \<and> hseg h (Next_of x) (hnext h x) xs"

definition hchain :: "hlist_heap \<Rightarrow> addr \<Rightarrow> addr list \<Rightarrow> bool" where
  "hchain h hp xs \<longleftrightarrow> hseg h (First_of hp) (first h hp) xs \<and> distinct xs"

section \<open>Segments\<close>

lemma nxt_set [simp]:
  "nxt (set_next p v h) = (nxt h)(p := v)" "nxt (set_prev p v h) = nxt h"
  by (simp_all add: set_next_def set_prev_def)

lemma prv_set [simp]:
  "prv (set_next p v h) = prv h" "prv (set_prev p v h) = (prv h)(p := v)"
  by (simp_all add: set_next_def set_prev_def)

lemma lseg_append: "lseg h a (xs @ y # ys) b \<longleftrightarrow> lseg h a xs y \<and> lseg h y ys b"
  by (induction xs arbitrary: a) auto

lemma lseg_snoc: "lseg h a (xs @ [y]) b \<longleftrightarrow> lseg h a xs y \<and> nxt h y = b \<and> prv h b = y"
  by (simp add: lseg_append)

lemma lseg_set_next [simp]:
  "p \<notin> insert a (set xs) \<Longrightarrow> lseg (set_next p v h) a xs b = lseg h a xs b"
  by (induction xs arbitrary: a) auto

lemma lseg_set_prev [simp]:
  "p \<notin> insert b (set xs) \<Longrightarrow> lseg (set_prev p v h) a xs b = lseg h a xs b"
  by (induction xs arbitrary: a) auto

lemma lseg_nxt: "lseg h a xs b \<Longrightarrow> nxt h a = (case xs of [] \<Rightarrow> b | x # _ \<Rightarrow> x)"
  by (cases xs) auto

lemma lseg_prv: "lseg h a xs b \<Longrightarrow> prv h b = (if xs = [] then a else last xs)"
  by (induction xs arbitrary: a) auto

lemma dlist_empty_iff: "dlist h head xs \<Longrightarrow> list_empty h head \<longleftrightarrow> xs = []"
  by (cases xs) (auto simp: dlist_def list_empty_def)

lemma dlist_init [simp]: "dlist (INIT_LIST_HEAD p h) p []"
  by (simp add: dlist_def INIT_LIST_HEAD_def)

section \<open>Every operation refines the operation on the list of nodes\<close>

lemma dlist_split:
  "dlist h head (xs @ y # ys) \<longleftrightarrow>
     lseg h head xs y \<and> lseg h y ys head \<and> distinct (head # xs @ y # ys)"
  by (simp add: dlist_def lseg_append)

lemma list_add_dlist:
  assumes "dlist h head xs" "new \<notin> set (head # xs)"
  shows "dlist (list_add new head h) head (new # xs)"
  using assms
  by (cases xs) (auto simp: dlist_def list_add_def list_add_raw_def Let_def)

lemma list_add_tail_dlist:
  assumes "dlist h head xs" "new \<notin> set (head # xs)"
  shows "dlist (list_add_tail new head h) head (xs @ [new])"
proof (cases xs rule: rev_cases)
  case Nil
  with assms show ?thesis
    by (auto simp: dlist_def list_add_tail_def list_add_raw_def Let_def)
next
  case (snoc ys y)
  with assms show ?thesis
    by (auto simp: dlist_def list_add_tail_def list_add_raw_def Let_def lseg_append)
qed

text \<open>Unlinking a node joins the segments on its two sides.\<close>

lemma lseg_join:
  assumes "lseg h a xs y" "lseg h y ys b" "distinct (xs @ y # ys)"
    and "a \<notin> set xs \<union> set ys" "b \<notin> set xs \<union> set ys" "y \<noteq> a" "y \<noteq> b"
  shows "lseg (list_del_raw (prv h y) (nxt h y) h) a (xs @ ys) b"
proof (cases xs rule: rev_cases)
  case Nil
  with assms show ?thesis
    by (cases ys) (auto simp: list_del_raw_def)
next
  case (snoc us u)
  with assms show ?thesis
    by (cases ys) (auto simp: list_del_raw_def lseg_append)
qed

lemma list_del_raw_dlist:
  assumes "dlist h head (xs @ y # ys)"
  shows "dlist (list_del_raw (prv h y) (nxt h y) h) head (xs @ ys)"
  using assms lseg_join [of h head xs y ys head]
  by (auto simp: dlist_def lseg_append)

lemma dlist_set_other [simp]:
  "p \<notin> set (head # xs) \<Longrightarrow> dlist (set_next p v h) head xs = dlist h head xs"
  "p \<notin> set (head # xs) \<Longrightarrow> dlist (set_prev p v h) head xs = dlist h head xs"
  by (auto simp: dlist_def)

lemma dlist_fresh: "dlist h head (xs @ y # ys) \<Longrightarrow> y \<notin> set (head # xs @ ys)"
  by (auto simp: dlist_def)

lemma list_del_dlist:
  assumes "dlist h head (xs @ y # ys)"
  shows "dlist (list_del y h) head (xs @ ys)"
  using list_del_raw_dlist [OF assms] dlist_fresh [OF assms]
  by (simp add: list_del_def Let_def)

lemma list_del_init_dlist:
  assumes "dlist h head (xs @ y # ys)"
  shows "dlist (list_del_init y h) head (xs @ ys)" and "dlist (list_del_init y h) y []"
proof -
  show "dlist (list_del_init y h) head (xs @ ys)"
    using list_del_raw_dlist [OF assms] dlist_fresh [OF assms]
    by (simp add: list_del_init_def INIT_LIST_HEAD_def)
  show "dlist (list_del_init y h) y []"
    by (simp add: list_del_init_def)
qed

text \<open>A list no node of which an operation touches is left as it was.\<close>

lemma list_add_raw_frame:
  "{new, p, n} \<inter> set (k # zs) = {} \<Longrightarrow> dlist (list_add_raw new p n h) k zs = dlist h k zs"
  by (simp add: list_add_raw_def Let_def)

lemma list_del_raw_frame:
  "{p, n} \<inter> set (k # zs) = {} \<Longrightarrow> dlist (list_del_raw p n h) k zs = dlist h k zs"
  by (simp add: list_del_raw_def)

lemma dlist_neighbours:
  assumes "dlist h head (xs @ y # ys)"
  shows "prv h y \<in> set (head # xs)" and "nxt h y \<in> set (head # ys)"
proof -
  have "prv h y = (if xs = [] then head else last xs)"
    using assms by (auto simp: dlist_split dest: lseg_prv)
  then show "prv h y \<in> set (head # xs)" by auto
  have "nxt h y = (case ys of [] \<Rightarrow> head | x # _ \<Rightarrow> x)"
    using assms by (auto simp: dlist_split dest: lseg_nxt)
  then show "nxt h y \<in> set (head # ys)" by (auto split: list.splits)
qed

lemma dlist_ends:
  assumes "dlist h head xs"
  shows "prv h head \<in> set (head # xs)" and "nxt h head \<in> set (head # xs)"
proof -
  have l: "lseg h head xs head" using assms by (simp add: dlist_def)
  show "prv h head \<in> set (head # xs)" using lseg_prv [OF l] by auto
  show "nxt h head \<in> set (head # xs)" using lseg_nxt [OF l] by (auto split: list.splits)
qed

lemma list_add_tail_frame:
  assumes "dlist h head xs" "new \<notin> set (k # zs)" "set (head # xs) \<inter> set (k # zs) = {}"
  shows "dlist (list_add_tail new head h) k zs = dlist h k zs"
  using assms dlist_ends [OF assms(1)] unfolding list_add_tail_def
  by (intro list_add_raw_frame) auto

lemma list_del_frame:
  assumes "dlist h head (xs @ y # ys)" "set (head # xs @ y # ys) \<inter> set (k # zs) = {}"
  shows "dlist (list_del y h) k zs = dlist h k zs"
proof -
  have "{prv h y, nxt h y} \<inter> set (k # zs) = {}"
    using dlist_neighbours [OF assms(1)] assms(2) by auto
  then show ?thesis
    using assms(2) by (simp add: list_del_def Let_def list_del_raw_frame)
qed

text \<open>Moving a node to the tail of another list.\<close>

lemma list_move_tail_dlist:
  assumes "dlist h a (xs @ y # ys)" "dlist h b zs"
    and "set (a # xs @ y # ys) \<inter> set (b # zs) = {}"
  shows "dlist (list_move_tail y b h) a (xs @ ys)"
    and "dlist (list_move_tail y b h) b (zs @ [y])"
proof -
  let ?h = "list_del_raw (prv h y) (nxt h y) h"
  have a: "dlist ?h a (xs @ ys)" by (rule list_del_raw_dlist [OF assms(1)])
  have "{prv h y, nxt h y} \<inter> set (b # zs) = {}"
    using dlist_neighbours [OF assms(1)] assms(3) by auto
  then have b: "dlist ?h b zs" using assms(2) by (simp add: list_del_raw_frame)
  show "dlist (list_move_tail y b h) b (zs @ [y])"
    unfolding list_move_tail_def using b assms(3) by (intro list_add_tail_dlist) auto
  show "dlist (list_move_tail y b h) a (xs @ ys)"
    unfolding list_move_tail_def
    using a b assms(3) dlist_fresh [OF assms(1)]
    by (subst list_add_tail_frame [of _ b zs]) auto
qed

text \<open>
  \<open>list_replace_init\<close> hands a whole list over to a new head, also when the list is empty;
  the timer wheel takes a slot with it.
\<close>

lemma list_replace_init_dlist:
  assumes "dlist h old xs" "new \<notin> set (old # xs)"
  shows "dlist (list_replace_init old new h) new xs"
    and "dlist (list_replace_init old new h) old []"
proof -
  show "dlist (list_replace_init old new h) old []"
    by (simp add: list_replace_init_def)
  show "dlist (list_replace_init old new h) new xs"
  proof (cases xs)
    case Nil
    with assms show ?thesis
      by (simp add: dlist_def list_replace_init_def list_replace_def INIT_LIST_HEAD_def Let_def)
  next
    case (Cons u us)
    show ?thesis
    proof (cases us rule: rev_cases)
      case Nil
      with Cons assms show ?thesis
        by (auto simp: dlist_def list_replace_init_def list_replace_def INIT_LIST_HEAD_def Let_def)
    next
      case (snoc vs v)
      with Cons assms show ?thesis
        by (auto simp: dlist_def list_replace_init_def list_replace_def INIT_LIST_HEAD_def
            lseg_append Let_def)
    qed
  qed
qed

lemma lseg_splice:
  assumes "lseg h l (f # fs) l" "lseg h head ys head" "u = last (f # fs)"
    and "distinct (l # f # fs)" "distinct (head # ys)"
    and "set (l # f # fs) \<inter> set (head # ys) = {}"
  shows "lseg (INIT_LIST_HEAD l (list_splice_raw l head h)) head ((f # fs) @ ys) head"
proof -
  have h: "nxt h l = f" "prv h l = u" "lseg h f fs l"
    using assms(1,3) lseg_prv [OF assms(1)] by auto
  have at: "nxt h head = (case ys of [] \<Rightarrow> head | y # _ \<Rightarrow> y)"
    by (rule lseg_nxt [OF assms(2)])
  show ?thesis
  proof (cases fs rule: rev_cases)
    case Nil
    show ?thesis
    proof (cases ys)
      case ys: Nil
      show ?thesis using h at Nil ys assms(3-6)
        by (simp add: list_splice_raw_def INIT_LIST_HEAD_def Let_def)
    next
      case (Cons y ys')
      show ?thesis using h at Nil Cons assms(2-6)
        by (simp add: list_splice_raw_def INIT_LIST_HEAD_def Let_def)
    qed
  next
    case (snoc us v)
    then have v: "v = u" using assms(3) by simp
    show ?thesis
    proof (cases ys)
      case Nil
      show ?thesis using h at snoc v Nil assms(4,6)
        by (simp add: list_splice_raw_def INIT_LIST_HEAD_def Let_def lseg_append)
    next
      case (Cons y ys')
      have d: "u \<noteq> l" "f \<noteq> l" "f \<noteq> u" "f \<noteq> y" "y \<noteq> l" "u \<noteq> y" "head \<noteq> l" "head \<noteq> u"
          "head \<noteq> f" "l \<notin> set us" "f \<notin> set us" "u \<notin> set us" "y \<notin> set us" "head \<notin> set us"
          "l \<notin> set ys'" "f \<notin> set ys'" "u \<notin> set ys'" "y \<notin> set ys'" "head \<noteq> y" "head \<notin> set ys'"
        using assms(4-6) snoc v Cons by auto
      have "lseg h f us u" "nxt h u = l" "prv h y = head" "lseg h y ys' head" "nxt h head = y"
        using h at snoc v Cons assms(2) by (auto simp: lseg_append)
      then show ?thesis using h d snoc v Cons
        by (simp add: list_splice_raw_def INIT_LIST_HEAD_def Let_def lseg_append)
    qed
  qed
qed

lemma list_splice_init_dlist:
  assumes "dlist h l xs" "dlist h head ys" "set (l # xs) \<inter> set (head # ys) = {}"
  shows "dlist (list_splice_init l head h) head (xs @ ys)"
    and "dlist (list_splice_init l head h) l []"
proof -
  have e: "list_empty h l \<longleftrightarrow> xs = []" by (rule dlist_empty_iff [OF assms(1)])
  show "dlist (list_splice_init l head h) l []"
    using e assms(1) by (auto simp: list_splice_init_def)
  show "dlist (list_splice_init l head h) head (xs @ ys)"
  proof (cases xs)
    case Nil
    with e assms show ?thesis by (simp add: list_splice_init_def)
  next
    case (Cons f fs)
    have "lseg (INIT_LIST_HEAD l (list_splice_raw l head h)) head ((f # fs) @ ys) head"
      using assms Cons by (intro lseg_splice) (auto simp: dlist_def)
    with Cons e assms show ?thesis by (auto simp: dlist_def list_splice_init_def)
  qed
qed

section \<open>Hash chains\<close>

lemma hseg_frame:
  assumes "\<And>x. x \<in> set xs \<Longrightarrow> pprev h' x = pprev h x \<and> hnext h' x = hnext h x"
  shows "hseg h' l p xs = hseg h l p xs"
  using assms by (induction xs arbitrary: l p) auto

lemma hseg_append:
  "hseg h l p (xs @ y # ys) \<Longrightarrow>
     pprev h y = (if xs = [] then l else Next_of (last xs)) \<and> y \<noteq> NULL_p
     \<and> hseg h (Next_of y) (hnext h y) ys"
proof (induction xs arbitrary: l p)
  case Nil
  then show ?case by simp
next
  case (Cons x xs)
  then have "hseg h (Next_of x) (hnext h x) (xs @ y # ys)" by simp
  from Cons.IH [OF this] show ?case by simp
qed

lemma hlist_empty_hchain: "hchain h hp xs \<Longrightarrow> hlist_empty h hp \<longleftrightarrow> xs = []"
  by (cases xs) (auto simp: hchain_def hlist_empty_def)

lemma INIT_HLIST_HEAD_hchain: "hchain (INIT_HLIST_HEAD hp h) hp []"
  by (simp add: hchain_def INIT_HLIST_HEAD_def)

lemma hlist_add_head_hchain:
  assumes "hchain h hp xs" "n \<noteq> NULL_p" "n \<notin> set xs"
  shows "hchain (hlist_add_head n hp h) hp (n # xs)"
proof (cases xs)
  case Nil
  with assms show ?thesis by (simp add: hchain_def hlist_add_head_def Let_def)
next
  case (Cons f fs)
  have fr: "hseg (hlist_add_head n hp h) l p fs = hseg h l p fs" for l p
    using assms Cons
    by (intro hseg_frame) (auto simp: hlist_add_head_def hchain_def Let_def)
  have "hseg (hlist_add_head n hp h) (Next_of n) f (f # fs)"
    using assms Cons fr by (auto simp: hlist_add_head_def hchain_def Let_def)
  with assms Cons show ?thesis
    by (auto simp: hchain_def) (auto simp: hlist_add_head_def Let_def hchain_def)
qed

lemma hseg_unlink:
  assumes "hseg h l p (xs @ y # ys)" "distinct (xs @ y # ys)" "xs \<noteq> []"
    and "hnext h' (last xs) = hnext h y"
    and "\<And>x. x \<in> set (butlast xs) \<union> set ys \<Longrightarrow> hnext h' x = hnext h x"
    and "\<And>x. x \<in> set xs \<union> set (tl ys) \<Longrightarrow> pprev h' x = pprev h x"
    and "ys \<noteq> [] \<Longrightarrow> pprev h' (hnext h y) = Next_of (last xs)"
  shows "hseg h' l p (xs @ ys)"
  using assms
proof (induction xs arbitrary: l p)
  case Nil
  then show ?case by simp
next
  case (Cons x xs)
  show ?case
  proof (cases "xs = []")
    case True
    show ?thesis
    proof (cases ys)
      case Nil
      with Cons.prems True show ?thesis by auto
    next
      case ys: (Cons z zs)
      have "hseg h' (Next_of z) q zs = hseg h (Next_of z) q zs" for q
        using Cons.prems ys by (intro hseg_frame) auto
      with Cons.prems True ys show ?thesis by auto
    qed
  next
    case False
    have "hseg h' (Next_of x) (hnext h x) (xs @ ys)"
      using Cons.prems False by (intro Cons.IH) (auto simp: ball_Un)
    with Cons.prems False show ?thesis by auto
  qed
qed

lemma hlist_del_raw_hchain:
  assumes "hchain h hp (xs @ y # ys)"
  obtains h' where "hlist_del_raw y h = Inr h'" "hchain h' hp (xs @ ys)"
    and "\<And>k. k \<noteq> hp \<Longrightarrow> first h' k = first h k"
    and "\<And>z. z \<notin> set xs \<union> set ys \<Longrightarrow> hnext h' z = hnext h z \<and> pprev h' z = pprev h z"
proof -
  from assms have s: "hseg h (First_of hp) (first h hp) (xs @ y # ys)" "distinct (xs @ y # ys)"
    by (auto simp: hchain_def)
  have y: "pprev h y = (if xs = [] then First_of hp else Next_of (last xs))"
      "hseg h (Next_of y) (hnext h y) ys"
    using hseg_append [OF s(1)] by auto
  let ?n = "hnext h y"
  have n: "?n = (case ys of [] \<Rightarrow> NULL_p | z # _ \<Rightarrow> z)" "?n \<noteq> NULL_p \<longleftrightarrow> ys \<noteq> []"
    using y(2) by (cases ys; simp)+
  show thesis
  proof (cases "xs = []")
    case True
    let ?h = "(h\<lparr>first := (first h)(hp := ?n)\<rparr>)
                \<lparr>pprev := (if ?n \<noteq> NULL_p then (pprev h)(?n := First_of hp) else pprev h)\<rparr>"
    have e: "hlist_del_raw y h = Inr ?h"
      using y(1) True by (simp add: hlist_del_raw_def Let_def)
    have "hseg ?h (First_of hp) ?n ys"
    proof (cases ys)
      case (Cons z zs)
      have "hseg ?h (Next_of z) (hnext h z) zs = hseg h (Next_of z) (hnext h z) zs"
        using s(2) Cons n by (intro hseg_frame) auto
      with y(2) Cons n show ?thesis by auto
    qed (use n in simp)
    then have "hchain ?h hp (xs @ ys)" using True s(2) by (simp add: hchain_def)
    from that [OF e this] show thesis using n by (auto split: list.splits)
  next
    case False
    let ?h = "(h\<lparr>hnext := (hnext h)(last xs := ?n)\<rparr>)
                \<lparr>pprev := (if ?n \<noteq> NULL_p then (pprev h)(?n := Next_of (last xs)) else pprev h)\<rparr>"
    have e: "hlist_del_raw y h = Inr ?h"
      using y(1) False by (simp add: hlist_del_raw_def Let_def)
    from False obtain us u where xs: "xs = us @ [u]" by (cases xs rule: rev_cases) auto
    have d: "u \<notin> set us" "u \<notin> set ys" "?n \<notin> set (tl ys)" "ys \<noteq> [] \<Longrightarrow> ?n \<notin> set xs"
      using s(2) xs n by (auto split: list.splits)
    have "hseg ?h (First_of hp) (first h hp) (xs @ ys)"
      using s(2) xs d n by (intro hseg_unlink [OF s(1)]) auto
    then have "hchain ?h hp (xs @ ys)" using s(2) by (auto simp: hchain_def)
    then show thesis
      by (rule that [OF e]) (use n xs in \<open>auto split: list.splits\<close>)
  qed
qed

lemma hseg_first_irrelevant [simp]: "hseg (h\<lparr>first := f\<rparr>) l p xs = hseg h l p xs"
  by (rule hseg_frame) simp

lemma hlist_del_hchain:
  assumes "hchain h hp (xs @ y # ys)"
  obtains h' where "hlist_del y h = Inr h'" "hchain h' hp (xs @ ys)"
    and "\<And>k zs. k \<noteq> hp \<Longrightarrow> set zs \<inter> set (xs @ y # ys) = {} \<Longrightarrow> hchain h' k zs = hchain h k zs"
proof -
  obtain h1 where h1: "hlist_del_raw y h = Inr h1" "hchain h1 hp (xs @ ys)"
      "\<And>k. k \<noteq> hp \<Longrightarrow> first h1 k = first h k"
      "\<And>z. z \<notin> set xs \<union> set ys \<Longrightarrow> hnext h1 z = hnext h z \<and> pprev h1 z = pprev h z"
    using hlist_del_raw_hchain [OF assms] by blast
  let ?h = "h1\<lparr>hnext := (hnext h1)(y := LIST_POISON1), pprev := (pprev h1)(y := Loc_Poison)\<rparr>"
  have y: "y \<notin> set (xs @ ys)" using assms by (auto simp: hchain_def)
  have "hlist_del y h = Inr ?h" using h1(1) by (simp add: hlist_del_def)
  moreover have "hchain ?h hp (xs @ ys)"
  proof -
    have "hseg ?h l p (xs @ ys) = hseg h1 l p (xs @ ys)" for l p
      using y by (intro hseg_frame) auto
    then show ?thesis using h1(2) by (simp add: hchain_def)
  qed
  moreover have "hchain ?h k zs = hchain h k zs"
    if "k \<noteq> hp" "set zs \<inter> set (xs @ y # ys) = {}" for k zs
  proof -
    have "hseg ?h l p zs = hseg h l p zs" for l p
      using that(2) h1(4) by (intro hseg_frame) auto
    then show ?thesis using that(1) h1(3) by (simp add: hchain_def)
  qed
  ultimately show thesis by (rule that) 
qed

lemma hlist_del_init_unhashed: "hlist_unhashed h n \<Longrightarrow> hlist_del_init n h = Inr h"
  by (simp add: hlist_unhashed_def hlist_del_init_def)

lemma hlist_del_unhashed_faults: "hlist_unhashed h n \<Longrightarrow> hlist_del n h = Inl Null_Deref"
  by (simp add: hlist_unhashed_def hlist_del_def hlist_del_raw_def Let_def)

section \<open>What clients of the lists rely on\<close>

text \<open>
  The contract of an intrusive list as the components see it: some representation of a
  sequence of nodes from which a node can be unlinked. Every \<open>..._clear\<close>, \<open>..._del_all\<close>
  and \<open>..._del_group\<close> function is the same loop, that unlinks the nodes one after the other
  after having read the next pointer; \<open>unlink_all\<close> is that loop.
\<close>

locale unlinkable =
  fixes repr :: "'h \<Rightarrow> addr \<Rightarrow> addr list \<Rightarrow> bool"
    and unlink :: "addr \<Rightarrow> 'h \<Rightarrow> 'h"
  assumes unlink_mid: "repr h hp (xs @ y # ys) \<Longrightarrow> repr (unlink y h) hp (xs @ ys)"
begin

lemma unlink_first: "repr h hp (y # ys) \<Longrightarrow> repr (unlink y h) hp ys"
  using unlink_mid [of h hp "[]" y ys] by simp

lemma unlink_all: "repr h hp xs \<Longrightarrow> repr (fold unlink xs h) hp []"
  by (induction xs arbitrary: h) (auto dest: unlink_first)

lemma unlink_suffix: "repr h hp (xs @ ys) \<Longrightarrow> repr (fold unlink ys h) hp xs"
proof (induction ys arbitrary: h)
  case (Cons y ys)
  from unlink_mid [OF Cons.prems] have "repr (fold unlink ys (unlink y h)) hp xs"
    by (rule Cons.IH)
  then show ?case by simp
qed simp

end

interpretation kl: unlinkable dlist list_del
  by unfold_locales (rule list_del_dlist)

interpretation kli: unlinkable dlist list_del_init
  by unfold_locales (rule list_del_init_dlist(1))

section \<open>Properties\<close>

definition empty_heap :: list_heap where
  "empty_heap = \<lparr>nxt = (\<lambda>_. NULL_p), prv = (\<lambda>_. NULL_p)\<rparr>"

definition empty_hheap :: hlist_heap where
  "empty_hheap = \<lparr>first = (\<lambda>_. NULL_p), hnext = (\<lambda>_. NULL_p), pprev = (\<lambda>_. Loc_Null)\<rparr>"

text \<open>
  Inserting a node that is in no list keeps a circular list well linked in both
  directions: \<open>list_add\<close> puts it in front, \<open>list_add_tail\<close> behind, and neither disturbs
  any list that shares no node with it.
\<close>

lemma list_insert_refines:
  assumes "dlist h head xs" "new \<notin> set (head # xs)"
  shows "dlist (list_add new head h) head (new # xs)
    \<and> dlist (list_add_tail new head h) head (xs @ [new])
    \<and> (\<forall>k zs. new \<notin> set (k # zs) \<and> set (head # xs) \<inter> set (k # zs) = {} \<and> dlist h k zs
           \<longrightarrow> dlist (list_add_tail new head h) k zs)"
  using list_add_dlist [OF assms] list_add_tail_dlist [OF assms] list_add_tail_frame [OF assms(1)]
  by blast

lemma list_insert_refines_witness:
  "dlist (INIT_LIST_HEAD 1 empty_heap) 1 [] \<and> (2 :: addr) \<notin> set [1]
   \<and> dlist (list_add 2 1 (INIT_LIST_HEAD 1 empty_heap)) 1 [2]
   \<and> dlist (list_add_tail 2 1 (INIT_LIST_HEAD 1 empty_heap)) 1 [2]"
  using list_insert_refines [of "INIT_LIST_HEAD 1 empty_heap" 1 "[]" 2] by simp

text \<open>
  C18: unlinking a node with \<open>list_del\<close> leaves exactly the other nodes, in their order;
  \<open>list_del_init\<close> does the same and makes the node an empty list of its own, so that it
  can be unlinked again without harm; \<open>list_move_tail\<close> takes it to the end of another list.
\<close>

theorem list_unlink_refines:
  assumes "dlist h a (xs @ y # ys)"
  shows "dlist (list_del y h) a (xs @ ys)
    \<and> dlist (list_del_init y h) a (xs @ ys) \<and> dlist (list_del_init y h) y []
    \<and> (\<forall>b zs. dlist h b zs \<and> set (a # xs @ y # ys) \<inter> set (b # zs) = {} \<longrightarrow>
           dlist (list_move_tail y b h) a (xs @ ys) \<and> dlist (list_move_tail y b h) b (zs @ [y])
           \<and> dlist (list_del y h) b zs)"
  using list_del_dlist [OF assms] list_del_init_dlist [OF assms] list_del_frame [OF assms]
    list_move_tail_dlist [OF assms]
  by blast

lemma dlist_example: "dlist (list_add_tail 3 1 (list_add_tail 2 1 (INIT_LIST_HEAD 1 empty_heap))) 1 [2, 3]"
proof -
  have "dlist (list_add_tail 2 1 (INIT_LIST_HEAD 1 empty_heap)) 1 ([] @ [2])"
    by (rule list_add_tail_dlist) simp_all
  then have "dlist (list_add_tail 3 1 (list_add_tail 2 1 (INIT_LIST_HEAD 1 empty_heap))) 1 (([] @ [2]) @ [3])"
    by (rule list_add_tail_dlist) simp
  then show ?thesis by simp
qed

theorem list_unlink_refines_witness:
  "dlist (list_del 2 (list_add_tail 3 1 (list_add_tail 2 1 (INIT_LIST_HEAD 1 empty_heap)))) 1 [3]"
  using list_unlink_refines [of _ 1 "[]" 2 "[3]"] dlist_example by simp

text \<open>
  C3: \<open>list_replace_init\<close> hands all nodes of a list to a new head and empties the old one,
  whether the list was empty or not, and \<open>list_splice_init\<close> puts a whole list in front of
  another one.
\<close>

lemma list_handover_refines:
  assumes "dlist h old xs" "new \<notin> set (old # xs)"
  shows "dlist (list_replace_init old new h) new xs
    \<and> dlist (list_replace_init old new h) old []
    \<and> (\<forall>hp ys. dlist h hp ys \<and> set (old # xs) \<inter> set (hp # ys) = {} \<longrightarrow>
           dlist (list_splice_init old hp h) hp (xs @ ys) \<and> dlist (list_splice_init old hp h) old [])"
  using list_replace_init_dlist [OF assms] list_splice_init_dlist [OF assms(1)] by blast

lemma list_handover_refines_witness:
  "dlist (list_replace_init 1 9 (list_add_tail 3 1 (list_add_tail 2 1 (INIT_LIST_HEAD 1 empty_heap)))) 9 [2, 3]"
  using list_handover_refines [OF dlist_example, of 9] by simp

text \<open>
  C27: a hash chain: \<open>hlist_add_head\<close> puts a node in front; \<open>hlist_del\<close> of any node of the
  chain succeeds, leaves the other nodes in their order and does not touch chains with
  other heads and nodes; \<open>hlist_del\<close> of a node that was only initialised writes through a
  NULL pointer, where \<open>hlist_del_init\<close> does nothing.
\<close>

theorem hlist_refines:
  assumes "hchain h hp (xs @ y # ys)"
  shows "(\<exists>h'. hlist_del y h = Inr h' \<and> hchain h' hp (xs @ ys)
      \<and> (\<forall>k zs. k \<noteq> hp \<and> set zs \<inter> set (xs @ y # ys) = {} \<and> hchain h k zs \<longrightarrow> hchain h' k zs))
    \<and> (\<forall>n. n \<noteq> NULL_p \<and> n \<notin> set (xs @ y # ys) \<longrightarrow>
         hchain (hlist_add_head n hp h) hp (n # xs @ y # ys))
    \<and> (\<forall>n. hlist_unhashed h n \<longrightarrow> hlist_del n h = Inl Null_Deref \<and> hlist_del_init n h = Inr h)"
  using hlist_del_hchain [OF assms] hlist_add_head_hchain [OF assms]
  by (metis hlist_del_unhashed_faults hlist_del_init_unhashed)

theorem hlist_refines_witness:
  "\<exists>h'. hlist_del 5 (hlist_add_head 6 1 (hlist_add_head 5 1 empty_hheap)) = Inr h' \<and> hchain h' 1 [6]"
proof -
  have "hchain (hlist_add_head 5 1 empty_hheap) 1 [5]"
    by (intro hlist_add_head_hchain) (simp_all add: hchain_def empty_hheap_def)
  then have "hchain (hlist_add_head 6 1 (hlist_add_head 5 1 empty_hheap)) 1 ([6] @ 5 # [])"
    using hlist_add_head_hchain [of _ 1 "[5]" 6] by simp
  from hlist_refines [OF this] show ?thesis by auto
qed

end
