(* ===== verification/Hash_Table.thy ===== *)
theory Hash_Table
  imports Kernel_List
begin

text \<open>
  The shape all tables of \<^verbatim>\<open>TCP_C/hash.c\<close> share: nodes allocated with \<open>wys_malloc\<close> and
  linked at the same time into a chain of a hash table of \<open>HASH_SIZE\<close> heads, into one list
  of all nodes and, for most tables, into the list of a user group.

  The heads are lists of node addresses here (theory \<open>Kernel_List\<close> shows that the pointer
  operations implement them); the nodes are in a store, in which an address that is not
  allocated reads as \<open>None\<close>, so that following a pointer to a freed node is the fault
  \<open>Use_After_Free\<close> and not a value.

  \<open>ht_ok\<close> is the invariant that makes such a table consistent: every node is in the list of
  all nodes exactly once, in the chain of its hash value and no other, and in the list of
  its group and no other. The lemmas show that linking a fresh node and unlinking a node
  keep it, and that a scan of a chain finds what a scan of all nodes would.
\<close>

abbreviation (input) HASH_SIZE :: nat where "HASH_SIZE \<equiv> 256"
abbreviation (input) GROUP_ID_MAX :: nat where "GROUP_ID_MAX \<equiv> 256"

record 'n htab =
  ht_store :: "addr \<Rightarrow> 'n option"
  ht_bucket :: "nat \<Rightarrow> addr list"
  ht_list :: "addr list"
  ht_group :: "nat \<Rightarrow> addr list"

definition ht_empty :: "'n htab" where
  "ht_empty = \<lparr>ht_store = (\<lambda>_. None), ht_bucket = (\<lambda>_. []), ht_list = [], ht_group = (\<lambda>_. [])\<rparr>"

text \<open>
  \<open>ht_link\<close>: \<open>hlist_add_head\<close> into the chain \<open>b\<close>, \<open>list_add_tail\<close> into the list of all nodes
  and into the list of group \<open>g\<close>. \<open>ht_unlink\<close>: \<open>hlist_del\<close>, \<open>list_del\<close> twice, \<open>wys_free\<close>.
\<close>

definition ht_link :: "nat \<Rightarrow> nat \<Rightarrow> addr \<Rightarrow> 'n \<Rightarrow> 'n htab \<Rightarrow> 'n htab" where
  "ht_link b g a n t =
     t\<lparr>ht_store := (ht_store t)(a \<mapsto> n),
       ht_bucket := (ht_bucket t)(b := a # ht_bucket t b),
       ht_list := ht_list t @ [a],
       ht_group := (ht_group t)(g := ht_group t g @ [a])\<rparr>"

definition ht_unlink :: "addr \<Rightarrow> 'n htab \<Rightarrow> 'n htab" where
  "ht_unlink a t =
     t\<lparr>ht_store := (ht_store t)(a := None),
       ht_bucket := (\<lambda>b. removeAll a (ht_bucket t b)),
       ht_list := removeAll a (ht_list t),
       ht_group := (\<lambda>g. removeAll a (ht_group t g))\<rparr>"

text \<open>\<open>hlist_for_each\<close> / \<open>list_for_each\<close> with a test and an early return.\<close>

fun ht_scan :: "('n \<Rightarrow> bool) \<Rightarrow> (addr \<Rightarrow> 'n option) \<Rightarrow> addr list \<Rightarrow> addr option res" where
  "ht_scan P st [] = Inr None"
| "ht_scan P st (a # as) =
     (case st a of
        None \<Rightarrow> Inl Use_After_Free
      | Some n \<Rightarrow> if P n then Inr (Some a) else ht_scan P st as)"

text \<open>
  The loop of every \<open>..._del_all\<close>, \<open>..._clear\<close> and \<open>..._del_group\<close>: the next pointer is read
  before the node is unlinked and freed.
\<close>

fun ht_clear :: "addr list \<Rightarrow> 'n htab \<Rightarrow> 'n htab res" where
  "ht_clear [] t = Inr t"
| "ht_clear (a # as) t =
     (case ht_store t a of
        None \<Rightarrow> Inl Use_After_Free
      | Some _ \<Rightarrow> ht_clear as (ht_unlink a t))"

text \<open>The index of a group's list head; \<open>gid\<close> is a signed 32 bit value.\<close>

definition grp_index :: "s32 \<Rightarrow> nat res" where
  "grp_index gid =
     (if 0 \<le> sint gid \<and> sint gid < int GROUP_ID_MAX then Inr (nat (sint gid)) else Inl Out_Of_Bounds)"

definition ht_vals :: "'n htab \<Rightarrow> 'n list" where
  "ht_vals t = map (\<lambda>a. the (ht_store t a)) (ht_list t)"

definition ht_ok :: "('n \<Rightarrow> nat) \<Rightarrow> ('n \<Rightarrow> nat) \<Rightarrow> 'n htab \<Rightarrow> bool" where
  "ht_ok hi gi t \<longleftrightarrow>
     distinct (ht_list t) \<and> NULL_p \<notin> set (ht_list t)
     \<and> (\<forall>a \<in> set (ht_list t). ht_store t a \<noteq> None)
     \<and> (\<forall>b. distinct (ht_bucket t b)
            \<and> set (ht_bucket t b) = {a \<in> set (ht_list t). hi (the (ht_store t a)) = b})
     \<and> (\<forall>g. distinct (ht_group t g)
            \<and> set (ht_group t g) = {a \<in> set (ht_list t). gi (the (ht_store t a)) = g})"

section \<open>The invariant\<close>

lemma ht_ok_empty [simp]: "ht_ok hi gi ht_empty"
  by (simp add: ht_ok_def ht_empty_def)

lemma ht_empty_sel [simp]:
  "ht_store ht_empty a = None" "ht_bucket ht_empty b = []" "ht_list ht_empty = []" "ht_group ht_empty b = []"
  "ht_vals ht_empty = []"
  by (simp_all add: ht_empty_def ht_vals_def)

lemma ht_ok_store: "ht_ok hi gi t \<Longrightarrow> a \<in> set (ht_list t) \<Longrightarrow> \<exists>n. ht_store t a = Some n"
  by (auto simp: ht_ok_def)

lemma ht_ok_bucket:
  "ht_ok hi gi t \<Longrightarrow> a \<in> set (ht_bucket t b) \<longleftrightarrow> a \<in> set (ht_list t) \<and> hi (the (ht_store t a)) = b"
  by (auto simp: ht_ok_def)

lemma ht_ok_group:
  "ht_ok hi gi t \<Longrightarrow> a \<in> set (ht_group t g) \<longleftrightarrow> a \<in> set (ht_list t) \<and> gi (the (ht_store t a)) = g"
  by (auto simp: ht_ok_def)

lemma ht_ok_link:
  assumes ok: "ht_ok hi gi t" and a: "a \<noteq> NULL_p" "ht_store t a = None"
    and bg: "b = hi n" "g = gi n"
  shows "ht_ok hi gi (ht_link b g a n t)"
proof -
  have fresh: "a \<notin> set (ht_list t)" using ok a by (auto simp: ht_ok_def)
  have fb: "a \<notin> set (ht_bucket t c)" "a \<notin> set (ht_group t c)" for c
    using ok fresh by (auto simp: ht_ok_bucket ht_ok_group)
  have s: "the (((ht_store t)(a \<mapsto> n)) c) = the (ht_store t c)" if "c \<in> set (ht_list t)" for c
    using that fresh by auto
  show ?thesis
    using ok a fresh fb bg unfolding ht_ok_def ht_link_def
    by (auto split: if_splits)
qed

lemma ht_ok_unlink: "ht_ok hi gi t \<Longrightarrow> ht_ok hi gi (ht_unlink a t)"
  unfolding ht_ok_def ht_unlink_def by (auto simp: distinct_removeAll)

lemma ht_vals_link:
  "ht_ok hi gi t \<Longrightarrow> ht_store t a = None \<Longrightarrow> ht_vals (ht_link b g a n t) = ht_vals t @ [n]"
  unfolding ht_vals_def ht_link_def ht_ok_def by auto

lemma set_ht_vals: "set (ht_vals t) = (\<lambda>a. the (ht_store t a)) ` set (ht_list t)"
  by (auto simp: ht_vals_def)

lemma ht_vals_unlink:
  "ht_vals (ht_unlink a t) = map (\<lambda>c. the (ht_store t c)) (filter (\<lambda>c. c \<noteq> a) (ht_list t))"
  unfolding ht_vals_def ht_unlink_def by (simp add: removeAll_filter)

lemma ht_unlink_sel [simp]:
  "ht_store (ht_unlink a t) = (ht_store t)(a := None)"
  "ht_bucket (ht_unlink a t) b = removeAll a (ht_bucket t b)"
  "ht_list (ht_unlink a t) = removeAll a (ht_list t)"
  "ht_group (ht_unlink a t) b = removeAll a (ht_group t b)"
  by (simp_all add: ht_unlink_def)

lemma ht_link_sel [simp]:
  "ht_store (ht_link b g a n t) = (ht_store t)(a \<mapsto> n)"
  "ht_bucket (ht_link b g a n t) = (ht_bucket t)(b := a # ht_bucket t b)"
  "ht_list (ht_link b g a n t) = ht_list t @ [a]"
  "ht_group (ht_link b g a n t) = (ht_group t)(g := ht_group t g @ [a])"
  by (simp_all add: ht_link_def)

section \<open>Scans\<close>

lemma ht_scan_find:
  assumes "\<forall>a \<in> set as. st a \<noteq> None"
  shows "ht_scan P st as = Inr (List.find (\<lambda>a. P (the (st a))) as)"
  using assms by (induction as) auto

lemma ht_scan_bucket:
  assumes "ht_ok hi gi t"
  shows "ht_scan P (ht_store t) (ht_bucket t b) = Inr (List.find (\<lambda>a. P (the (ht_store t a))) (ht_bucket t b))"
    and "ht_scan P (ht_store t) (ht_list t) = Inr (List.find (\<lambda>a. P (the (ht_store t a))) (ht_list t))"
    and "ht_scan P (ht_store t) (ht_group t g) = Inr (List.find (\<lambda>a. P (the (ht_store t a))) (ht_group t g))"
  using assms by (intro ht_scan_find; auto simp: ht_ok_def)+

text \<open>
  A chain is enough: when the tested predicate only accepts nodes of that hash value, the
  scan of the chain fails only if no node of the table passes.
\<close>

lemma ht_scan_bucket_complete:
  assumes "ht_ok hi gi t" "\<And>n. P n \<Longrightarrow> hi n = b"
    and "ht_scan P (ht_store t) (ht_bucket t b) = Inr r"
  shows "case r of None \<Rightarrow> (\<forall>n \<in> set (ht_vals t). \<not> P n)
                 | Some a \<Rightarrow> a \<in> set (ht_bucket t b) \<and> a \<in> set (ht_list t) \<and> P (the (ht_store t a))"
proof -
  have r: "r = List.find (\<lambda>a. P (the (ht_store t a))) (ht_bucket t b)"
    using assms(3) ht_scan_bucket(1) [OF assms(1)] by simp
  show ?thesis
  proof (cases r)
    case None
    then have "\<forall>a \<in> set (ht_bucket t b). \<not> P (the (ht_store t a))"
      using r by (simp add: find_None_all)
    then show ?thesis using None assms(1,2) by (fastforce simp: ht_ok_bucket set_ht_vals)
  next
    case (Some a)
    then show ?thesis using find_Some_in [OF r [symmetric, unfolded Some]] assms(1)
      by (auto simp: ht_ok_bucket)
  qed
qed

section \<open>Clearing\<close>

lemma ht_clear_ok:
  assumes "ht_ok hi gi t" "set as \<subseteq> set (ht_list t)" "distinct as"
  shows "ht_clear as t = Inr (fold ht_unlink as t)" and "ht_ok hi gi (fold ht_unlink as t)"
    and "ht_list (fold ht_unlink as t) = filter (\<lambda>a. a \<notin> set as) (ht_list t)"
    and "\<And>a. a \<notin> set as \<Longrightarrow> ht_store (fold ht_unlink as t) a = ht_store t a"
proof -
  have "ht_clear as t = Inr (fold ht_unlink as t) \<and> ht_ok hi gi (fold ht_unlink as t)
     \<and> ht_list (fold ht_unlink as t) = filter (\<lambda>a. a \<notin> set as) (ht_list t)
     \<and> (\<forall>a. a \<notin> set as \<longrightarrow> ht_store (fold ht_unlink as t) a = ht_store t a)"
    using assms
  proof (induction as arbitrary: t)
    case Nil
    then show ?case by simp
  next
    case (Cons a as)
    obtain n where n: "ht_store t a = Some n" using ht_ok_store [OF Cons.prems(1)] Cons.prems(2) by auto
    have "ht_ok hi gi (ht_unlink a t)" using Cons.prems(1) by (rule ht_ok_unlink)
    moreover have "set as \<subseteq> set (ht_list (ht_unlink a t))" using Cons.prems(2,3) by auto
    moreover have "distinct as" using Cons.prems(3) by simp
    ultimately have ih: "ht_clear as (ht_unlink a t) = Inr (fold ht_unlink as (ht_unlink a t))
       \<and> ht_ok hi gi (fold ht_unlink as (ht_unlink a t))
       \<and> ht_list (fold ht_unlink as (ht_unlink a t)) = filter (\<lambda>a. a \<notin> set as) (ht_list (ht_unlink a t))
       \<and> (\<forall>c. c \<notin> set as \<longrightarrow> ht_store (fold ht_unlink as (ht_unlink a t)) c = ht_store (ht_unlink a t) c)"
      by (rule Cons.IH)
    with n show ?case by (auto simp: removeAll_filter conj_commute)
  qed
  then show "ht_clear as t = Inr (fold ht_unlink as t)" "ht_ok hi gi (fold ht_unlink as t)"
    "ht_list (fold ht_unlink as t) = filter (\<lambda>a. a \<notin> set as) (ht_list t)"
    "\<And>a. a \<notin> set as \<Longrightarrow> ht_store (fold ht_unlink as t) a = ht_store t a"
    by auto
qed

lemma ht_clear_all:
  assumes "ht_ok hi gi t"
  shows "\<exists>t'. ht_clear (ht_list t) t = Inr t' \<and> ht_ok hi gi t' \<and> ht_list t' = [] \<and> ht_vals t' = []"
proof -
  have d: "distinct (ht_list t)" using assms by (simp add: ht_ok_def)
  note c = ht_clear_ok [OF assms order.refl d]
  have l: "ht_list (fold ht_unlink (ht_list t) t) = []" using c(3) by simp
  with c(1,2) show ?thesis by (auto simp: ht_vals_def)
qed

lemma ht_clear_group:
  assumes "ht_ok hi gi t"
  shows "\<exists>t'. ht_clear (ht_group t g) t = Inr t' \<and> ht_ok hi gi t'
           \<and> ht_vals t' = filter (\<lambda>n. gi n \<noteq> g) (ht_vals t)"
proof -
  have d: "distinct (ht_group t g)" "set (ht_group t g) \<subseteq> set (ht_list t)"
    using assms by (auto simp: ht_ok_def)
  note c = ht_clear_ok [OF assms d(2,1)]
  let ?t = "fold ht_unlink (ht_group t g) t"
  have f: "filter (\<lambda>a. a \<notin> set (ht_group t g)) (ht_list t)
         = filter (\<lambda>a. gi (the (ht_store t a)) \<noteq> g) (ht_list t)"
    using assms by (intro filter_cong) (auto simp: ht_ok_group)
  have "ht_vals ?t = map (\<lambda>a. the (ht_store ?t a)) (filter (\<lambda>a. gi (the (ht_store t a)) \<noteq> g) (ht_list t))"
    using c(3) f by (simp add: ht_vals_def)
  also have "\<dots> = map (\<lambda>a. the (ht_store t a)) (filter (\<lambda>a. gi (the (ht_store t a)) \<noteq> g) (ht_list t))"
    using c(4) assms by (intro map_cong) (auto simp: ht_ok_group)
  also have "\<dots> = filter (\<lambda>n. gi n \<noteq> g) (ht_vals t)"
    by (simp add: ht_vals_def filter_map comp_def)
  finally show ?thesis using c(1,2) by auto
qed

section \<open>Keyed tables\<close>

text \<open>
  Most tables hold at most one node per key, and the chain is chosen by the key. \<open>ht_get\<close> is
  the abstract map such a table implements.
\<close>

definition ht_uniq :: "('n \<Rightarrow> 'k) \<Rightarrow> 'n htab \<Rightarrow> bool" where
  "ht_uniq key t \<longleftrightarrow> distinct (map key (ht_vals t))"

definition ht_get :: "('n \<Rightarrow> 'k) \<Rightarrow> 'n htab \<Rightarrow> 'k \<Rightarrow> 'n option" where
  "ht_get key t k = List.find (\<lambda>n. key n = k) (ht_vals t)"

lemma ht_get_Some: "ht_get key t k = Some n \<Longrightarrow> n \<in> set (ht_vals t) \<and> key n = k"
  unfolding ht_get_def by (rule find_Some_in)

lemma ht_get_None: "ht_get key t k = None \<longleftrightarrow> (\<forall>n \<in> set (ht_vals t). key n \<noteq> k)"
  unfolding ht_get_def by (rule find_None_all)

lemma ht_get_uniq:
  assumes "ht_uniq key t" "n \<in> set (ht_vals t)"
  shows "ht_get key t (key n) = Some n"
proof -
  have "ht_get key t (key n) \<noteq> None" using assms(2) by (auto simp: ht_get_None)
  then obtain m where m: "ht_get key t (key n) = Some m" by auto
  with ht_get_Some [OF m] assms have "m = n"
    unfolding ht_uniq_def distinct_map by (auto dest: inj_onD)
  with m show ?thesis by simp
qed

lemma ht_get_empty [simp]: "ht_get key ht_empty k = None"
  by (simp add: ht_get_None)

lemma ht_uniq_addr:
  assumes "ht_ok hi gi t" "ht_uniq key t" "a \<in> set (ht_list t)" "c \<in> set (ht_list t)"
    and "key (the (ht_store t a)) = key (the (ht_store t c))"
  shows "a = c"
proof -
  have "distinct (map (\<lambda>a. key (the (ht_store t a))) (ht_list t))"
    using assms(2) by (simp add: ht_uniq_def ht_vals_def comp_def)
  then show ?thesis using assms(3-5) by (auto simp: distinct_map dest: inj_onD)
qed

lemma ht_uniq_link:
  "ht_ok hi gi t \<Longrightarrow> ht_store t a = None \<Longrightarrow> ht_uniq key t \<Longrightarrow> ht_get key t (key n) = None
   \<Longrightarrow> ht_uniq key (ht_link b g a n t)"
  by (auto simp: ht_uniq_def ht_vals_link ht_get_None)

lemma ht_get_link:
  assumes "ht_ok hi gi t" "ht_store t a = None" "ht_get key t (key n) = None"
  shows "ht_get key (ht_link b g a n t) = (ht_get key t)(key n \<mapsto> n)"
proof
  fix k
  have "List.find P (xs @ [y]) = (case List.find P xs of None \<Rightarrow> if P y then Some y else None | r \<Rightarrow> r)"
    for P and xs and y :: 'a
    by (induction xs) auto
  with assms show "ht_get key (ht_link b g a n t) k = ((ht_get key t)(key n \<mapsto> n)) k"
    by (auto simp: ht_get_def ht_vals_link split: option.splits)
qed

lemma ht_uniq_unlink: "ht_uniq key t \<Longrightarrow> ht_uniq key (ht_unlink a t)"
proof -
  assume "ht_uniq key t"
  then have "distinct (map (\<lambda>a. key (the (ht_store t a))) (ht_list t))"
    by (simp add: ht_uniq_def ht_vals_def comp_def)
  then show ?thesis by (simp add: ht_uniq_def ht_vals_unlink comp_def distinct_map_filter)
qed

lemma ht_get_unlink:
  assumes "ht_ok hi gi t" "ht_uniq key t" "a \<in> set (ht_list t)"
  shows "ht_get key (ht_unlink a t) = (ht_get key t)(key (the (ht_store t a)) := None)"
proof
  fix k
  let ?u = "ht_unlink a t" and ?ka = "key (the (ht_store t a))"
  have v: "set (ht_vals ?u) = {the (ht_store t c) |c. c \<in> set (ht_list t) \<and> c \<noteq> a}"
    by (auto simp: ht_vals_unlink)
  show "ht_get key ?u k = ((ht_get key t)(?ka := None)) k"
  proof (cases "k = ?ka")
    case True
    then have "\<forall>n \<in> set (ht_vals ?u). key n \<noteq> k"
      using ht_uniq_addr [OF assms] by (auto simp: v) metis
    then have "ht_get key ?u k = None" by (simp add: ht_get_None)
    then show ?thesis using True by simp
  next
    case False
    show ?thesis
    proof (cases "ht_get key t k")
      case None
      then have "\<forall>n \<in> set (ht_vals t). key n \<noteq> k" by (simp add: ht_get_None)
      moreover have "set (ht_vals ?u) \<subseteq> set (ht_vals t)" unfolding v by (auto simp: set_ht_vals)
      ultimately have "\<forall>n \<in> set (ht_vals ?u). key n \<noteq> k" by blast
      then have "ht_get key ?u k = None" by (simp add: ht_get_None)
      with None False show ?thesis by simp
    next
      case (Some n)
      from ht_get_Some [OF this] have n: "n \<in> set (ht_vals t)" "key n = k" by simp_all
      from n(1) obtain c where c: "c \<in> set (ht_list t)" "n = the (ht_store t c)"
        unfolding set_ht_vals by blast
      with n(2) False have "c \<noteq> a" by blast
      with c have "n \<in> set (ht_vals ?u)" unfolding v by blast
      from ht_get_uniq [OF ht_uniq_unlink [OF assms(2)] this] n Some False show ?thesis by simp
    qed
  qed
qed

text \<open>Looking a key up in its chain, the first half of every operation on a keyed table.\<close>

lemma ht_scan_key:
  assumes ok: "ht_ok hi gi t" and u: "ht_uniq key t"
    and P: "\<And>n. P n \<longleftrightarrow> key n = k" and b: "\<And>n. key n = k \<Longrightarrow> hi n = b"
  obtains (absent) "ht_scan P (ht_store t) (ht_bucket t b) = Inr None" "ht_get key t k = None"
  | (present) a where "ht_scan P (ht_store t) (ht_bucket t b) = Inr (Some a)"
      "a \<in> set (ht_list t)" "ht_get key t k = Some (the (ht_store t a))"
      "ht_get key (ht_unlink a t) = (ht_get key t)(k := None)"
proof -
  obtain r where r: "ht_scan P (ht_store t) (ht_bucket t b) = Inr r"
    using ht_scan_bucket(1) [OF ok] by blast
  have c: "case r of None \<Rightarrow> (\<forall>n \<in> set (ht_vals t). \<not> P n)
     | Some a \<Rightarrow> a \<in> set (ht_bucket t b) \<and> a \<in> set (ht_list t) \<and> P (the (ht_store t a))"
    by (rule ht_scan_bucket_complete [OF ok _ r]) (simp add: P b)
  show thesis
  proof (cases r)
    case None
    with r c show thesis by (intro absent) (auto simp: ht_get_None P)
  next
    case (Some a)
    then have a: "a \<in> set (ht_list t)" "key (the (ht_store t a)) = k" using c P by auto
    then have "the (ht_store t a) \<in> set (ht_vals t)" by (simp add: set_ht_vals)
    from ht_get_uniq [OF u this] a(2) have "ht_get key t k = Some (the (ht_store t a))" by simp
    with ht_get_unlink [OF ok u a(1)] a r Some show thesis by (intro present) auto
  qed
qed

text \<open>
  What a client of such a table relies on, as a contract: a deletion by key removes that
  key and nothing else. The lemmas are the ones a caller needs to reason about sequences of
  deletions; each table of \<^verbatim>\<open>hash.c\<close> with a deletion by key is an interpretation.
\<close>

locale keyed_table =
  fixes inv :: "'t \<Rightarrow> bool"
    and look :: "'t \<Rightarrow> 'k \<Rightarrow> 'v option"
    and del :: "'k \<Rightarrow> 't \<Rightarrow> 't res"
  assumes del_ok: "inv t \<Longrightarrow> \<exists>t'. del k t = Inr t' \<and> inv t' \<and> look t' = (look t)(k := None)"
begin

fun del_list :: "'k list \<Rightarrow> 't \<Rightarrow> 't res" where
  "del_list [] t = Inr t"
| "del_list (k # ks) t = res_bind (del k t) (del_list ks)"

lemma del_list_ok:
  "inv t \<Longrightarrow> \<exists>t'. del_list ks t = Inr t' \<and> inv t' \<and> look t' = look t |` (- set ks)"
proof (induction ks arbitrary: t)
  case Nil
  then show ?case by (simp add: restrict_map_def)
next
  case (Cons k ks)
  from del_ok [OF Cons.prems, of k] obtain t1
    where t1: "del k t = Inr t1" "inv t1" "look t1 = (look t)(k := None)" by blast
  from Cons.IH [OF t1(2)] obtain t2
    where t2: "del_list ks t1 = Inr t2" "inv t2" "look t2 = look t1 |` (- set ks)" by blast
  have "look t2 = look t |` (- set (k # ks))"
    using t1(3) t2(3) by (auto simp: restrict_map_def fun_eq_iff)
  with t1(1) t2(1,2) show ?case by simp
qed

lemma del_twice: "inv t \<Longrightarrow> del k t = Inr t1 \<Longrightarrow> del k t1 = Inr t2 \<Longrightarrow> look t2 = look t1"
  using del_ok [of t k] del_ok [of t1 k] by (auto simp: fun_eq_iff)

lemma del_other: "inv t \<Longrightarrow> del k t = Inr t1 \<Longrightarrow> j \<noteq> k \<Longrightarrow> look t1 j = look t j"
  using del_ok [of t k] by auto

end

end
