(* ===== verification/Hash_Ids.thy ===== *)
theory Hash_Ids
  imports Hash_Table
begin

text \<open>
  The tables of \<^verbatim>\<open>TCP_C/hash.c\<close> keyed by an integer: user groups
  (\<open>ww_group_base_info_st_*\<close>), sockets (\<open>an_socket_t_*\<close>) and the caches of the pages an
  administrator looks at (\<open>an_web_cache_t_*\<close>). The chain is chosen by the sum of the bytes of
  the key, a function the source repeats for every table.

  Tables that consist of chains only are \<open>hset\<close>s: a store of nodes and the chains.
  Shown: the chains hold every node once, under the hash of its key, each key at most once;
  the operations keep that and implement a finite map; the counter of groups is the length
  of the list of groups until all groups are deleted at once.
\<close>

section \<open>The hash value of an integer\<close>

definition byte_of :: "u32 \<Rightarrow> nat \<Rightarrow> u32" where
  "byte_of w i = drop_bit (8 * i) w AND 255"

definition byte_sum_hash :: "u32 \<Rightarrow> nat" where
  "byte_sum_hash w = unat ((byte_of w 0 + byte_of w 1 + byte_of w 2 + byte_of w 3) AND 255)"

definition ww_group_base_info_st_get_hash :: "s32 \<Rightarrow> nat" where
  "ww_group_base_info_st_get_hash gid = byte_sum_hash gid"

definition an_socket_t_get_hash :: "s32 \<Rightarrow> nat" where
  "an_socket_t_get_hash index = byte_sum_hash index"

definition an_web_cache_t_get_hash :: "s32 \<Rightarrow> nat" where
  "an_web_cache_t_get_hash token = byte_sum_hash token"

lemma byte_sum_hash_less [simp]: "byte_sum_hash w < HASH_SIZE"
  by (simp add: byte_sum_hash_def)

lemma unat_byte_of: "unat (byte_of w i) = unat w div 256 ^ i mod 256"
proof -
  have "unat (byte_of w i) = unat (drop_bit (8 * i) w) mod 256"
    by (simp add: byte_of_def unat_and_255)
  also have "\<dots> = unat w div 2 ^ (8 * i) mod 256"
    by (simp only: unsigned_drop_bit_eq take_bit_word_eq_self order.refl drop_bit_eq_div [where ?'a = nat]
        take_bit_nat_eq_self unsigned_less)
  finally show ?thesis by (simp add: power_mult)
qed

lemma byte_sum_hash_digits:
  "byte_sum_hash w = (unat w mod 256 + unat w div 256 mod 256 + unat w div 256 ^ 2 mod 256
                      + unat w div 256 ^ 3 mod 256) mod 256"
proof -
  have lt: "unat (byte_of w i) < 256" for i by (simp add: unat_byte_of)
  let ?s = "byte_of w 0 + byte_of w 1 + byte_of w 2 + byte_of w 3"
  have a: "unat (byte_of w 0 + byte_of w 1) = unat (byte_of w 0) + unat (byte_of w 1)"
    using lt [of 0] lt [of 1] by (intro unat_add_lem [THEN iffD1]) simp
  have b: "unat (byte_of w 0 + byte_of w 1 + byte_of w 2) = unat (byte_of w 0) + unat (byte_of w 1) + unat (byte_of w 2)"
    using a lt [of 0] lt [of 1] lt [of 2] by (subst unat_add_lem [THEN iffD1]) simp_all
  have "unat ?s = unat (byte_of w 0) + unat (byte_of w 1) + unat (byte_of w 2) + unat (byte_of w 3)"
    using b lt [of 0] lt [of 1] lt [of 2] lt [of 3] by (subst unat_add_lem [THEN iffD1]) simp_all
  then show ?thesis
    unfolding byte_sum_hash_def unat_and_255 by (simp add: unat_byte_of)
qed

section \<open>Tables that are chains only\<close>

record 'n hset =
  hs_store :: "addr \<Rightarrow> 'n option"
  hs_bucket :: "nat \<Rightarrow> addr list"

definition hs_empty :: "'n hset" where
  "hs_empty = \<lparr>hs_store = (\<lambda>_. None), hs_bucket = (\<lambda>_. [])\<rparr>"

text \<open>\<open>hlist_add_head\<close> of an allocated node; \<open>hlist_del\<close> and \<open>wys_free\<close>.\<close>

definition hs_link :: "nat \<Rightarrow> addr \<Rightarrow> 'n \<Rightarrow> 'n hset \<Rightarrow> 'n hset" where
  "hs_link b a n t =
     t\<lparr>hs_store := (hs_store t)(a \<mapsto> n), hs_bucket := (hs_bucket t)(b := a # hs_bucket t b)\<rparr>"

definition hs_unlink :: "addr \<Rightarrow> 'n hset \<Rightarrow> 'n hset" where
  "hs_unlink a t =
     t\<lparr>hs_store := (hs_store t)(a := None), hs_bucket := (\<lambda>b. removeAll a (hs_bucket t b))\<rparr>"

definition chain_ok :: "('k \<Rightarrow> nat) \<Rightarrow> ('n \<Rightarrow> 'k) \<Rightarrow> (addr \<Rightarrow> 'n option) \<Rightarrow> nat \<Rightarrow> addr list \<Rightarrow> bool" where
  "chain_ok h key st b as \<longleftrightarrow>
     NULL_p \<notin> set as \<and> (\<forall>a \<in> set as. st a \<noteq> None \<and> h (key (the (st a))) = b)
     \<and> distinct (map (\<lambda>a. key (the (st a))) as)"

definition hs_ok :: "('k \<Rightarrow> nat) \<Rightarrow> ('n \<Rightarrow> 'k) \<Rightarrow> 'n hset \<Rightarrow> bool" where
  "hs_ok h key t \<longleftrightarrow> (\<forall>b. chain_ok h key (hs_store t) b (hs_bucket t b))"

definition hs_get :: "('k \<Rightarrow> nat) \<Rightarrow> ('n \<Rightarrow> 'k) \<Rightarrow> 'n hset \<Rightarrow> 'k \<Rightarrow> 'n option" where
  "hs_get h key t k =
     map_option (\<lambda>a. the (hs_store t a))
       (List.find (\<lambda>a. key (the (hs_store t a)) = k) (hs_bucket t (h k)))"

lemma hs_sel [simp]:
  "hs_store (hs_link b a n t) = (hs_store t)(a \<mapsto> n)"
  "hs_bucket (hs_link b a n t) = (hs_bucket t)(b := a # hs_bucket t b)"
  "hs_store (hs_unlink a t) = (hs_store t)(a := None)"
  "hs_bucket (hs_unlink a t) c = removeAll a (hs_bucket t c)"
  "hs_store hs_empty a = None" "hs_bucket hs_empty b = []"
  by (simp_all add: hs_link_def hs_unlink_def hs_empty_def)

lemma chain_ok_cong:
  "\<forall>a \<in> set as. st a = st' a \<Longrightarrow> chain_ok h key st b as = chain_ok h key st' b as"
proof -
  assume e: "\<forall>a \<in> set as. st a = st' a"
  then have m: "map (\<lambda>a. key (the (st a))) as = map (\<lambda>a. key (the (st' a))) as" by simp
  show ?thesis unfolding chain_ok_def m using e by simp
qed

lemma hs_okD: "hs_ok h key t \<Longrightarrow> chain_ok h key (hs_store t) b (hs_bucket t b)"
  by (simp add: hs_ok_def)

lemma hs_ok_empty [simp]: "hs_ok h key hs_empty"
  by (simp add: hs_ok_def chain_ok_def)

lemma hs_get_empty [simp]: "hs_get h key hs_empty k = None"
  by (simp add: hs_get_def)

lemma hs_ok_fresh: "hs_ok h key t \<Longrightarrow> hs_store t a = None \<Longrightarrow> a \<notin> set (hs_bucket t b)"
  using hs_okD [of h key t b] by (auto simp: chain_ok_def)

lemma hs_get_None: "hs_get h key t k = None \<longleftrightarrow> (\<forall>a \<in> set (hs_bucket t (h k)). key (the (hs_store t a)) \<noteq> k)"
  by (simp add: hs_get_def find_None_all)

lemma hs_get_in:
  assumes "hs_ok h key t" "a \<in> set (hs_bucket t b)"
  shows "hs_get h key t (key (the (hs_store t a))) = Some (the (hs_store t a))"
proof -
  let ?k = "key (the (hs_store t a))"
  have b: "b = h ?k" and d: "distinct (map (\<lambda>a. key (the (hs_store t a))) (hs_bucket t b))"
    using hs_okD [OF assms(1), of b] assms(2) by (auto simp: chain_ok_def)
  have "List.find (\<lambda>c. key (the (hs_store t c)) = ?k) (hs_bucket t b) \<noteq> None"
    using assms(2) by (auto simp: find_None_all)
  then obtain c where c: "List.find (\<lambda>c. key (the (hs_store t c)) = ?k) (hs_bucket t b) = Some c" by auto
  with find_Some_in [OF c] d assms(2) have "c = a"
    by (auto simp: distinct_map dest: inj_onD)
  with c b show ?thesis by (simp add: hs_get_def)
qed

lemma hs_scan_key:
  assumes ok: "hs_ok h key t"
  obtains (absent) "ht_scan (\<lambda>n. key n = k) (hs_store t) (hs_bucket t (h k)) = Inr None" "hs_get h key t k = None"
  | (present) a where "ht_scan (\<lambda>n. key n = k) (hs_store t) (hs_bucket t (h k)) = Inr (Some a)"
      "a \<in> set (hs_bucket t (h k))" "hs_get h key t k = Some (the (hs_store t a))" "key (the (hs_store t a)) = k"
proof -
  have s: "ht_scan (\<lambda>n. key n = k) (hs_store t) (hs_bucket t (h k))
      = Inr (List.find (\<lambda>a. key (the (hs_store t a)) = k) (hs_bucket t (h k)))"
    using hs_okD [OF ok, of "h k"] by (intro ht_scan_find) (simp add: chain_ok_def)
  show thesis
  proof (cases "List.find (\<lambda>a. key (the (hs_store t a)) = k) (hs_bucket t (h k))")
    case None
    with s show thesis by (intro absent) (simp_all add: hs_get_def)
  next
    case (Some a)
    with s find_Some_in [OF Some] show thesis by (intro present [of a]) (simp_all add: hs_get_def)
  qed
qed

lemma hs_scan_ok:
  assumes "hs_ok h key t"
  shows "\<exists>r. ht_scan (\<lambda>n. key n = k) (hs_store t) (hs_bucket t (h k)) = Inr r
           \<and> map_option (\<lambda>a. the (hs_store t a)) r = hs_get h key t k"
  by (rule hs_scan_key [OF assms, of k]) auto

lemma hs_ok_link:
  assumes "hs_ok h key t" "a \<noteq> NULL_p" "hs_store t a = None" "hs_get h key t (key n) = None"
  shows "hs_ok h key (hs_link (h (key n)) a n t)"
proof -
  have f: "a \<notin> set (hs_bucket t b)" for b using hs_ok_fresh [OF assms(1,3)] .
  have c: "chain_ok h key ((hs_store t)(a \<mapsto> n)) b (hs_bucket t b)" for b
    using hs_okD [OF assms(1), of b] chain_ok_cong [of "hs_bucket t b" "(hs_store t)(a \<mapsto> n)" "hs_store t"] f
    by (metis fun_upd_other)
  have m: "map (\<lambda>c. key (the (((hs_store t)(a \<mapsto> n)) c))) (hs_bucket t b)
         = map (\<lambda>c. key (the (hs_store t c))) (hs_bucket t b)" for b
    using f by (intro map_cong) auto
  have k: "key n \<notin> set (map (\<lambda>c. key (the (((hs_store t)(a \<mapsto> n)) c))) (hs_bucket t (h (key n))))"
    unfolding m using assms(4) by (auto simp: hs_get_None)
  have "chain_ok h key ((hs_store t)(a \<mapsto> n)) (h (key n)) (a # hs_bucket t (h (key n)))"
    using c [of "h (key n)"] assms(2) k unfolding chain_ok_def by simp
  with c show ?thesis by (simp add: hs_ok_def)
qed

lemma hs_find_cong:
  "\<forall>a \<in> set xs. P a \<longleftrightarrow> Q a \<Longrightarrow> List.find P xs = List.find Q xs"
  by (induction xs) auto

lemma hs_get_link:
  assumes "hs_ok h key t" "hs_store t a = None"
  shows "hs_get h key (hs_link (h (key n)) a n t) = (hs_get h key t)(key n \<mapsto> n)"
proof
  fix k
  have f: "a \<notin> set (hs_bucket t (h k))" using hs_ok_fresh [OF assms] .
  then have p: "List.find (\<lambda>c. key (the (((hs_store t)(a \<mapsto> n)) c)) = k) (hs_bucket t (h k))
      = List.find (\<lambda>c. key (the (hs_store t c)) = k) (hs_bucket t (h k))"
    by (intro hs_find_cong) auto
  have q: "map_option (\<lambda>c. the (((hs_store t)(a \<mapsto> n)) c)) r = map_option (\<lambda>c. the (hs_store t c)) r"
    if r: "r = List.find (\<lambda>c. key (the (hs_store t c)) = k) (hs_bucket t (h k))" for r
  proof (cases r)
    case (Some c)
    from find_Some_in [OF r [unfolded Some, symmetric]] f have "c \<noteq> a" by auto
    with Some show ?thesis by simp
  qed simp
  show "hs_get h key (hs_link (h (key n)) a n t) k = ((hs_get h key t)(key n \<mapsto> n)) k"
  proof (cases "h k = h (key n) \<and> k = key n")
    case True
    then show ?thesis by (simp add: hs_get_def)
  next
    case False
    then have b: "hs_bucket (hs_link (h (key n)) a n t) (h k) = (if h k = h (key n) then [a] else []) @ hs_bucket t (h k)"
      and k: "key n \<noteq> k" by auto
    have "List.find (\<lambda>c. key (the (((hs_store t)(a \<mapsto> n)) c)) = k) ((if h k = h (key n) then [a] else []) @ hs_bucket t (h k))
        = List.find (\<lambda>c. key (the (hs_store t c)) = k) (hs_bucket t (h k))"
      unfolding p [symmetric] using k by simp
    then show ?thesis unfolding hs_get_def b hs_sel(1) using q [OF refl] k by simp
  qed
qed

lemma hs_ok_unlink: "hs_ok h key t \<Longrightarrow> hs_ok h key (hs_unlink a t)"
proof -
  assume ok: "hs_ok h key t"
  have m: "map (\<lambda>c. key (the (((hs_store t)(a := None)) c))) (removeAll a (hs_bucket t b))
         = map (\<lambda>c. key (the (hs_store t c))) (removeAll a (hs_bucket t b))" for b
    by (intro map_cong) auto
  show ?thesis
    unfolding hs_ok_def chain_ok_def hs_sel m using ok
    by (auto simp: hs_ok_def chain_ok_def removeAll_filter distinct_map_filter)
qed

lemma hs_get_unlink:
  assumes ok: "hs_ok h key t" and a: "a \<in> set (hs_bucket t b)"
  shows "hs_get h key (hs_unlink a t) = (hs_get h key t)(key (the (hs_store t a)) := None)"
proof
  fix k
  have ok': "hs_ok h key (hs_unlink a t)" using hs_ok_unlink [OF ok] .
  have b: "b = h (key (the (hs_store t a)))" using hs_okD [OF ok, of b] a by (auto simp: chain_ok_def)
  show "hs_get h key (hs_unlink a t) k = ((hs_get h key t)(key (the (hs_store t a)) := None)) k"
  proof (cases "k = key (the (hs_store t a))")
    case True
    have "c = a" if "c \<in> set (hs_bucket t b)" "key (the (hs_store t c)) = k" for c
    proof -
      have "distinct (map (\<lambda>c. key (the (hs_store t c))) (hs_bucket t b))" using hs_okD [OF ok, of b] by (simp add: chain_ok_def)
      then show ?thesis using that a True by (auto simp: distinct_map dest: inj_onD)
    qed
    with True b have "hs_get h key (hs_unlink a t) k = None" by (auto simp: hs_get_None)
    with True show ?thesis by simp
  next
    case False
    show ?thesis
    proof (cases "hs_get h key t k")
      case None
      with False have "hs_get h key (hs_unlink a t) k = None" by (auto simp: hs_get_None)
      with None False show ?thesis by simp
    next
      case (Some n)
      then obtain c where c: "List.find (\<lambda>c. key (the (hs_store t c)) = k) (hs_bucket t (h k)) = Some c"
        "n = the (hs_store t c)" by (auto simp: hs_get_def)
      from find_Some_in [OF c(1)] have c': "c \<in> set (hs_bucket t (h k))" "key (the (hs_store t c)) = k" by auto
      with False have "c \<noteq> a" by auto
      with c' hs_get_in [OF ok', of c "h k"] c(2) Some False show ?thesis by simp
    qed
  qed
qed

section \<open>User groups\<close>

record ww_group_base_info =
  gb_gid :: s32
  gb_name :: string
  gb_cd_auth :: u32
  gb_usb_auth :: u32
  gb_monitor :: u32
  gb_fileauth :: u32
  gb_user_num :: u32

definition group_zero :: ww_group_base_info where
  "group_zero = \<lparr>gb_gid = 0, gb_name = [], gb_cd_auth = 0, gb_usb_auth = 0, gb_monitor = 0,
     gb_fileauth = 0, gb_user_num = 0\<rparr>"

text \<open>\<open>an_group_hash\<close>, \<open>an_group_list\<close> and \<open>an_group_num\<close>.\<close>

record group_state =
  gs_tab :: "ww_group_base_info hset"
  gs_list :: "addr list"
  gs_num :: s32

text \<open>A created node is allocated and zeroed but in no list yet.\<close>

definition ww_group_base_info_st_create :: "addr option \<Rightarrow> group_state \<Rightarrow> group_state \<times> addr option" where
  "ww_group_base_info_st_create mem g =
     (case mem of
        None \<Rightarrow> (g, None)
      | Some a \<Rightarrow> (g\<lparr>gs_tab := (gs_tab g)\<lparr>hs_store := (hs_store (gs_tab g))(a \<mapsto> group_zero)\<rparr>\<rparr>, Some a))"

definition ww_group_base_info_st_find_by_id :: "s32 \<Rightarrow> group_state \<Rightarrow> addr option res" where
  "ww_group_base_info_st_find_by_id gid g =
     (if sint gid > int GROUP_ID_MAX then Inr None
      else ht_scan (\<lambda>n. gb_gid n = gid) (hs_store (gs_tab g))
             (hs_bucket (gs_tab g) (ww_group_base_info_st_get_hash gid)))"

definition group_unlink :: "addr \<Rightarrow> group_state \<Rightarrow> group_state" where
  "group_unlink a g = g\<lparr>gs_tab := hs_unlink a (gs_tab g), gs_list := removeAll a (gs_list g)\<rparr>"

definition ww_group_base_info_st_del :: "s32 \<Rightarrow> group_state \<Rightarrow> group_state res" where
  "ww_group_base_info_st_del gid g =
     res_bind (ww_group_base_info_st_find_by_id gid g) (\<lambda>r.
       case r of
         None \<Rightarrow> Inr g
       | Some a \<Rightarrow> Inr ((group_unlink a g)\<lparr>gs_num := gs_num g - 1\<rparr>))"

text \<open>\<open>list_for_each_safe\<close>: the next pointer is read before the node is freed.\<close>

fun group_del_loop :: "addr list \<Rightarrow> group_state \<Rightarrow> group_state res" where
  "group_del_loop [] g = Inr g"
| "group_del_loop (a # as) g =
     (case hs_store (gs_tab g) a of
        None \<Rightarrow> Inl Use_After_Free
      | Some _ \<Rightarrow> group_del_loop as (group_unlink a g))"

definition ww_group_base_info_st_del_all :: "group_state \<Rightarrow> group_state res" where
  "ww_group_base_info_st_del_all g = group_del_loop (gs_list g) g"

definition group_linked :: "group_state \<Rightarrow> addr set" where
  "group_linked g = (\<Union>b. set (hs_bucket (gs_tab g) b))"

definition group_inv :: "group_state \<Rightarrow> bool" where
  "group_inv g \<longleftrightarrow> hs_ok byte_sum_hash gb_gid (gs_tab g) \<and> distinct (gs_list g)
     \<and> set (gs_list g) = group_linked g"

definition group_counted :: "group_state \<Rightarrow> bool" where
  "group_counted g \<longleftrightarrow> gs_num g = of_nat (length (gs_list g))"

abbreviation group_get :: "group_state \<Rightarrow> s32 \<Rightarrow> ww_group_base_info option" where
  "group_get g \<equiv> hs_get byte_sum_hash gb_gid (gs_tab g)"

lemma group_unlink_sel [simp]:
  "gs_tab (group_unlink a g) = hs_unlink a (gs_tab g)" "gs_list (group_unlink a g) = removeAll a (gs_list g)"
  "gs_num (group_unlink a g) = gs_num g"
  by (simp_all add: group_unlink_def)

lemma group_inv_unlink: "group_inv g \<Longrightarrow> group_inv (group_unlink a g)"
  by (auto simp: group_inv_def group_linked_def hs_ok_unlink distinct_removeAll)

lemma group_inv_num [simp]: "group_inv (g\<lparr>gs_num := k\<rparr>) = group_inv g"
  by (simp add: group_inv_def group_linked_def)

lemma group_del_ok:
  assumes inv: "group_inv g" and cnt: "group_counted g" and gid: "sint gid \<le> 256"
  shows "\<exists>g'. ww_group_base_info_st_del gid g = Inr g' \<and> group_inv g' \<and> group_counted g'
           \<and> group_get g' = (group_get g)(gid := None)"
proof -
  have ok: "hs_ok byte_sum_hash gb_gid (gs_tab g)" using inv by (simp add: group_inv_def)
  have f: "ww_group_base_info_st_find_by_id gid g
      = ht_scan (\<lambda>n. gb_gid n = gid) (hs_store (gs_tab g)) (hs_bucket (gs_tab g) (byte_sum_hash gid))"
    using gid by (simp add: ww_group_base_info_st_find_by_id_def ww_group_base_info_st_get_hash_def)
  show ?thesis
  proof (rule hs_scan_key [OF ok, of gid])
    assume "ht_scan (\<lambda>n. gb_gid n = gid) (hs_store (gs_tab g)) (hs_bucket (gs_tab g) (byte_sum_hash gid)) = Inr None"
      "group_get g gid = None"
    with inv cnt show ?thesis by (simp add: ww_group_base_info_st_del_def f fun_upd_idem)
  next
    fix a
    assume a: "ht_scan (\<lambda>n. gb_gid n = gid) (hs_store (gs_tab g)) (hs_bucket (gs_tab g) (byte_sum_hash gid)) = Inr (Some a)"
      "a \<in> set (hs_bucket (gs_tab g) (byte_sum_hash gid))" "gb_gid (the (hs_store (gs_tab g) a)) = gid"
    let ?g = "(group_unlink a g)\<lparr>gs_num := gs_num g - 1\<rparr>"
    have l: "a \<in> set (gs_list g)" "distinct (gs_list g)" using a(2) inv by (auto simp: group_inv_def group_linked_def)
    then obtain n where n: "length (gs_list g) = Suc n" by (cases "gs_list g") auto
    then have "length (removeAll a (gs_list g)) = n"
      using l by (simp add: distinct_removeAll_eq_remove1 length_remove1)
    then have "group_counted ?g" using cnt n by (simp add: group_counted_def)
    moreover have "group_get ?g = (group_get g)(gid := None)"
      using hs_get_unlink [OF ok a(2)] a(3) by simp
    ultimately show ?thesis
      using a(1) group_inv_unlink [OF inv] by (simp add: ww_group_base_info_st_del_def f)
  qed
qed

lemma group_del_loop_ok:
  "group_inv g \<Longrightarrow> distinct as \<Longrightarrow> set as \<subseteq> set (gs_list g)
   \<Longrightarrow> \<exists>g'. group_del_loop as g = Inr g' \<and> group_inv g' \<and> set (gs_list g') = set (gs_list g) - set as
        \<and> gs_num g' = gs_num g"
proof (induction as arbitrary: g)
  case Nil
  then show ?case by simp
next
  case (Cons a as)
  then have "a \<in> group_linked g" by (auto simp: group_inv_def)
  then have "hs_store (gs_tab g) a \<noteq> None"
    using Cons.prems(1) hs_ok_fresh unfolding group_inv_def group_linked_def by fastforce
  moreover have "set as \<subseteq> set (gs_list (group_unlink a g))" using Cons.prems by auto
  ultimately show ?case
    using Cons.IH [of "group_unlink a g"] group_inv_unlink [OF Cons.prems(1)] Cons.prems(2) by fastforce
qed

section \<open>Sockets\<close>

text \<open>The buffers belong to the socket: \<open>None\<close> is NULL, \<open>Some\<close> the bytes.\<close>

record an_socket =
  so_index :: s32
  so_org_send_buf :: "string option"
  so_send_buf :: "string option"
  so_send_len :: s32
  so_send_buflen :: s32
  so_rcv_buf :: "string option"
  so_rcv_len :: s32
  so_rcv_buflen :: s32

abbreviation (input) AN_POLL_MAX :: nat where "AN_POLL_MAX \<equiv> 1024"

definition socket_zero :: an_socket where
  "socket_zero = \<lparr>so_index = 0, so_org_send_buf = None, so_send_buf = None, so_send_len = 0,
     so_send_buflen = 0, so_rcv_buf = None, so_rcv_len = 0, so_rcv_buflen = 0\<rparr>"

definition an_socket_t_create :: "addr option \<Rightarrow> an_socket hset \<Rightarrow> an_socket hset \<times> addr option" where
  "an_socket_t_create mem t =
     (case mem of
        None \<Rightarrow> (t, None)
      | Some a \<Rightarrow> (t\<lparr>hs_store := (hs_store t)(a \<mapsto> socket_zero)\<rparr>, Some a))"

definition an_socket_t_find_by_index :: "s32 \<Rightarrow> an_socket hset \<Rightarrow> addr option res" where
  "an_socket_t_find_by_index index t =
     (if sint index \<ge> int AN_POLL_MAX then Inr None
      else ht_scan (\<lambda>n. so_index n = index) (hs_store t) (hs_bucket t (an_socket_t_get_hash index)))"

definition an_socket_t_del :: "s32 \<Rightarrow> an_socket hset \<Rightarrow> an_socket hset res" where
  "an_socket_t_del index t =
     res_bind (an_socket_t_find_by_index index t) (\<lambda>r.
       case r of None \<Rightarrow> Inr t | Some a \<Rightarrow> Inr (hs_unlink a t))"

abbreviation sock_ok :: "an_socket hset \<Rightarrow> bool" where
  "sock_ok \<equiv> hs_ok byte_sum_hash so_index"

abbreviation sock_get :: "an_socket hset \<Rightarrow> s32 \<Rightarrow> an_socket option" where
  "sock_get \<equiv> hs_get byte_sum_hash so_index"

lemma sock_find_ok:
  assumes "sock_ok t" "sint index < 1024"
  obtains (absent) "an_socket_t_find_by_index index t = Inr None" "sock_get t index = None"
  | (present) a where "an_socket_t_find_by_index index t = Inr (Some a)"
      "a \<in> set (hs_bucket t (byte_sum_hash index))" "sock_get t index = Some (the (hs_store t a))"
      "so_index (the (hs_store t a)) = index"
proof -
  have "an_socket_t_find_by_index index t
      = ht_scan (\<lambda>n. so_index n = index) (hs_store t) (hs_bucket t (byte_sum_hash index))"
    using assms(2) by (simp add: an_socket_t_find_by_index_def an_socket_t_get_hash_def)
  then show thesis using hs_scan_key [OF assms(1), of index] that by metis
qed

lemma sock_del_ok:
  assumes "sock_ok t" "sint index < 1024"
  shows "\<exists>t'. an_socket_t_del index t = Inr t' \<and> sock_ok t' \<and> sock_get t' = (sock_get t)(index := None)"
proof (rule sock_find_ok [OF assms])
  assume "an_socket_t_find_by_index index t = Inr None" "sock_get t index = None"
  with assms show ?thesis by (simp add: an_socket_t_del_def fun_upd_idem)
next
  fix a
  assume "an_socket_t_find_by_index index t = Inr (Some a)" "a \<in> set (hs_bucket t (byte_sum_hash index))"
    "so_index (the (hs_store t a)) = index"
  with hs_ok_unlink [OF assms(1)] hs_get_unlink [OF assms(1)] show ?thesis
    by (auto simp: an_socket_t_del_def)
qed

section \<open>The deletion contract\<close>

text \<open>Only keys the lookup admits are in the tables, so that a deletion by key is total.\<close>

definition sock_inv :: "an_socket hset \<Rightarrow> bool" where
  "sock_inv t \<longleftrightarrow> sock_ok t \<and> (\<forall>k. 1024 \<le> sint k \<longrightarrow> sock_get t k = None)"

definition groups_inv :: "group_state \<Rightarrow> bool" where
  "groups_inv g \<longleftrightarrow> group_inv g \<and> group_counted g \<and> (\<forall>k. 256 < sint k \<longrightarrow> group_get g k = None)"

lemma sock_del_total:
  assumes "sock_inv t"
  shows "\<exists>t'. an_socket_t_del k t = Inr t' \<and> sock_inv t' \<and> sock_get t' = (sock_get t)(k := None)"
proof (cases "sint k < 1024")
  case True
  with sock_del_ok [of t k] assms show ?thesis by (auto simp: sock_inv_def)
next
  case False
  then have "sock_get t k = None" "an_socket_t_find_by_index k t = Inr None"
    using assms by (auto simp: sock_inv_def an_socket_t_find_by_index_def)
  with assms show ?thesis by (simp add: an_socket_t_del_def fun_upd_idem)
qed

lemma group_del_total:
  assumes "groups_inv g"
  shows "\<exists>g'. ww_group_base_info_st_del k g = Inr g' \<and> groups_inv g' \<and> group_get g' = (group_get g)(k := None)"
proof (cases "sint k \<le> 256")
  case True
  with group_del_ok [of g k] assms show ?thesis by (auto simp: groups_inv_def)
next
  case False
  then have "group_get g k = None" "ww_group_base_info_st_find_by_id k g = Inr None"
    using assms by (auto simp: groups_inv_def ww_group_base_info_st_find_by_id_def)
  with assms show ?thesis by (simp add: ww_group_base_info_st_del_def fun_upd_idem)
qed

interpretation sk: keyed_table sock_inv sock_get an_socket_t_del
  by unfold_locales (rule sock_del_total)

interpretation gk: keyed_table groups_inv group_get ww_group_base_info_st_del
  by unfold_locales (rule group_del_total)

text \<open>What a caller does with a created group: fill it in, link it and count it.\<close>

definition group_link :: "addr \<Rightarrow> ww_group_base_info \<Rightarrow> group_state \<Rightarrow> group_state" where
  "group_link a n g =
     g\<lparr>gs_tab := hs_link (ww_group_base_info_st_get_hash (gb_gid n)) a n (gs_tab g),
       gs_list := gs_list g @ [a], gs_num := gs_num g + 1\<rparr>"

definition no_groups :: group_state where
  "no_groups = \<lparr>gs_tab = hs_empty, gs_list = [], gs_num = 0\<rparr>"

lemma groups_inv_no_groups [simp]: "groups_inv no_groups"
  by (simp add: groups_inv_def group_inv_def group_counted_def group_linked_def no_groups_def)

lemma no_groups_sel [simp]: "gs_tab no_groups = hs_empty" "gs_list no_groups = []"
  by (simp_all add: no_groups_def)

lemma groups_inv_link:
  assumes "groups_inv g" "a \<noteq> NULL_p" "hs_store (gs_tab g) a = None" "group_get g (gb_gid n) = None"
    and "sint (gb_gid n) \<le> 256"
  shows "groups_inv (group_link a n g) \<and> group_get (group_link a n g) = (group_get g)(gb_gid n \<mapsto> n)"
proof -
  have ok: "hs_ok byte_sum_hash gb_gid (gs_tab g)" and inv: "group_inv g"
    using assms(1) by (simp_all add: groups_inv_def group_inv_def)
  have f: "a \<notin> group_linked g" using hs_ok_fresh [OF ok assms(3)] by (auto simp: group_linked_def)
  have L: "group_linked (group_link a n g) = insert a (group_linked g)"
    by (auto simp: group_linked_def group_link_def split: if_splits)
  have ok': "hs_ok byte_sum_hash gb_gid (hs_link (byte_sum_hash (gb_gid n)) a n (gs_tab g))"
    using hs_ok_link [OF ok assms(2-4)] .
  have get: "group_get (group_link a n g) = (group_get g)(gb_gid n \<mapsto> n)"
    using hs_get_link [OF ok assms(3), of n]
    by (simp add: group_link_def ww_group_base_info_st_get_hash_def)
  have "group_inv (group_link a n g)"
    unfolding group_inv_def L using ok' f inv
    by (auto simp: group_link_def ww_group_base_info_st_get_hash_def group_inv_def)
  moreover have "group_counted (group_link a n g)"
    using assms(1) by (simp add: groups_inv_def group_counted_def group_link_def)
  moreover have "\<forall>k. 256 < sint k \<longrightarrow> group_get (group_link a n g) k = None"
    unfolding get using assms(1,5) by (auto simp: groups_inv_def)
  ultimately show ?thesis using get by (simp add: groups_inv_def)
qed

section \<open>Properties of the integer-keyed tables\<close>

text \<open>
  The table of user groups. On a consistent table \<open>ww_group_base_info_st_find_by_id\<close> finds
  exactly the group with that id, \<open>ww_group_base_info_st_del\<close> removes exactly that group and keeps
  \<open>an_group_num\<close> equal to the number of groups, and deleting a group twice is deleting it once.
\<close>

lemma group_table_correct:
  assumes "groups_inv g"
  shows "(\<exists>r. ww_group_base_info_st_find_by_id gid g = Inr r
            \<and> map_option (\<lambda>a. the (hs_store (gs_tab g) a)) r = group_get g gid)
       \<and> (\<exists>g' g''. ww_group_base_info_st_del gid g = Inr g' \<and> groups_inv g'
            \<and> group_get g' = (group_get g)(gid := None)
            \<and> ww_group_base_info_st_del gid g' = Inr g'' \<and> group_get g'' = group_get g')"
proof
  have ok: "hs_ok byte_sum_hash gb_gid (gs_tab g)" using assms by (simp add: groups_inv_def group_inv_def)
  show "\<exists>r. ww_group_base_info_st_find_by_id gid g = Inr r
            \<and> map_option (\<lambda>a. the (hs_store (gs_tab g) a)) r = group_get g gid"
  proof (cases "sint gid > 256")
    case True
    with assms show ?thesis by (simp add: ww_group_base_info_st_find_by_id_def groups_inv_def)
  next
    case False
    with hs_scan_ok [OF ok, of gid] show ?thesis
      by (simp add: ww_group_base_info_st_find_by_id_def ww_group_base_info_st_get_hash_def)
  qed
  from gk.del_ok [OF assms] obtain g' where g': "ww_group_base_info_st_del gid g = Inr g'" "groups_inv g'"
    "group_get g' = (group_get g)(gid := None)" by blast
  from gk.del_ok [OF g'(2)] obtain g'' where "ww_group_base_info_st_del gid g' = Inr g''" by blast
  with g' gk.del_twice [OF assms g'(1)]
  show "\<exists>g' g''. ww_group_base_info_st_del gid g = Inr g' \<and> groups_inv g'
            \<and> group_get g' = (group_get g)(gid := None)
            \<and> ww_group_base_info_st_del gid g' = Inr g'' \<and> group_get g'' = group_get g'" by blast
qed

lemma one_group: "groups_inv (group_link 9 (group_zero\<lparr>gb_gid := 4\<rparr>) no_groups)"
  using groups_inv_link [of no_groups 9 "group_zero\<lparr>gb_gid := 4\<rparr>"] by simp

lemma group_table_correct_witness:
  "\<exists>g'. ww_group_base_info_st_del 4 (group_link 9 (group_zero\<lparr>gb_gid := 4\<rparr>) no_groups) = Inr g'
     \<and> groups_inv g' \<and> group_get g' 4 = None"
proof -
  from group_table_correct [OF one_group, of 4] show ?thesis by auto
qed

text \<open>
  deleting all groups. \<open>ww_group_base_info_st_del_all\<close> frees every group and empties the
  table but does not reset \<open>an_group_num\<close>: it no longer is the number of groups whenever there
  was a group.
\<close>

lemma group_del_all_counter:
  assumes "groups_inv g" "gs_list g \<noteq> []" "length (gs_list g) < 2 ^ 32"
  shows "\<exists>g'. ww_group_base_info_st_del_all g = Inr g' \<and> group_inv g' \<and> gs_list g' = []
           \<and> gs_num g' = gs_num g \<and> \<not> group_counted g'"
proof -
  have inv: "group_inv g" "distinct (gs_list g)" using assms(1) by (auto simp: groups_inv_def group_inv_def)
  obtain g' where g': "group_del_loop (gs_list g) g = Inr g'" "group_inv g'" "gs_list g' = []" "gs_num g' = gs_num g"
    using group_del_loop_ok [OF inv order.refl] by auto
  have "gs_num g = of_nat (length (gs_list g))" using assms(1) by (simp add: groups_inv_def group_counted_def)
  moreover have "(of_nat (length (gs_list g)) :: s32) \<noteq> 0"
    using assms(2,3) by (simp add: word_of_nat_eq_0_iff) (metis length_greater_0_conv nat_dvd_not_less)
  ultimately show ?thesis using g' by (simp add: ww_group_base_info_st_del_all_def group_counted_def)
qed

lemma group_del_all_counter_witness:
  "\<exists>g'. ww_group_base_info_st_del_all (group_link 9 (group_zero\<lparr>gb_gid := 4\<rparr>) no_groups) = Inr g' \<and> \<not> group_counted g'"
proof -
  have "gs_list (group_link 9 (group_zero\<lparr>gb_gid := 4\<rparr>) no_groups) = [9]"
    by (simp add: group_link_def no_groups_def)
  with group_del_all_counter [OF one_group] show ?thesis by auto
qed

end
