(* ===== verification/Public_Util.thy ===== *)
theory Public_Util
  imports Prelude
begin

text \<open>
  The helpers of \<^verbatim>\<open>TCP_C/public.c\<close>: the character classes, splitting a string in place, the
  escaping routines in front of the page and the socket, byte order, numbers, and the
  truncation of reversed time stamps.

  Shown: splitting and joining, escaping and unescaping, both byte order conversions and
  printing and reading a number are inverse to each other; the bounded escaping routine
  stays within its buffer and truncates, its HTML variant does not, and the escaping of the
  send buffer can write one byte too many.
\<close>

section \<open>Character classes\<close>

abbreviation (input) CT_U :: nat where "CT_U \<equiv> 0x01"
abbreviation (input) CT_L :: nat where "CT_L \<equiv> 0x02"
abbreviation (input) CT_D :: nat where "CT_D \<equiv> 0x04"
abbreviation (input) CT_C :: nat where "CT_C \<equiv> 0x08"
abbreviation (input) CT_P :: nat where "CT_P \<equiv> 0x10"
abbreviation (input) CT_S :: nat where "CT_S \<equiv> 0x20"
abbreviation (input) CT_X :: nat where "CT_X \<equiv> 0x40"
abbreviation (input) CT_SP :: nat where "CT_SP \<equiv> 0x80"

text \<open>The table \<open>_ctype\<close>, run by run.\<close>

definition ctype_tab :: "nat list" where
  "ctype_tab =
     replicate 9 CT_C @ replicate 5 (CT_C + CT_S) @ replicate 18 CT_C
     @ [CT_S + CT_SP] @ replicate 15 CT_P @ replicate 10 CT_D @ replicate 7 CT_P
     @ replicate 6 (CT_U + CT_X) @ replicate 20 CT_U @ replicate 6 CT_P
     @ replicate 6 (CT_L + CT_X) @ replicate 20 CT_L @ replicate 4 CT_P @ [CT_C]
     @ replicate 32 0
     @ [CT_S + CT_SP] @ replicate 31 CT_P @ replicate 23 CT_U @ [CT_P] @ replicate 7 CT_U
     @ replicate 24 CT_L @ [CT_P] @ replicate 8 CT_L"

definition ct_has :: "nat \<Rightarrow> char \<Rightarrow> bool" where
  "ct_has m c \<longleftrightarrow> (ctype_tab ! uchar c) AND m \<noteq> 0"

definition J_isdigit :: "char \<Rightarrow> bool" where "J_isdigit c = ct_has CT_D c"
definition J_isxdigit :: "char \<Rightarrow> bool" where "J_isxdigit c = ct_has (CT_D + CT_X) c"
definition J_iscntrl :: "char \<Rightarrow> bool" where "J_iscntrl c = ct_has CT_C c"
definition J_islower :: "char \<Rightarrow> bool" where "J_islower c = ct_has CT_L c"
definition J_isupper :: "char \<Rightarrow> bool" where "J_isupper c = ct_has CT_U c"

text \<open>\<open>c -= 'a' - 'A'\<close> and \<open>c -= 'A' - 'a'\<close> on an unsigned byte.\<close>

definition J_toupper :: "char \<Rightarrow> char" where
  "J_toupper c = (if J_islower c then char_of (uchar c + 224) else c)"

definition J_tolower :: "char \<Rightarrow> char" where
  "J_tolower c = (if J_isupper c then char_of (uchar c + 32) else c)"

section \<open>Splitting\<close>

text \<open>
  \<open>split_string\<close> overwrites the separators with NUL; the pieces are what the array entries then
  point to. \<open>k\<close> is the room left in the array, \<open>is_ge\<close> whether the last piece ended at a
  separator.
\<close>

function split_loop :: "char \<Rightarrow> nat \<Rightarrow> bool \<Rightarrow> string \<Rightarrow> string list" where
  "split_loop ge 0 is_ge cp = []"
| "split_loop ge (Suc k) is_ge [] = (if is_ge then [[]] else [])"
| "split_loop ge (Suc k) is_ge (c # cs) =
     takeWhile (\<lambda>x. x \<noteq> ge) (c # cs) #
     (case dropWhile (\<lambda>x. x \<noteq> ge) (c # cs) of
        [] \<Rightarrow> split_loop ge k False []
      | _ # rest \<Rightarrow> split_loop ge k True rest)"
  by pat_completeness auto
termination by (relation "measure (\<lambda>(ge, k, is_ge, cp). k)") auto

definition split_string :: "string \<Rightarrow> char \<Rightarrow> nat \<Rightarrow> string list" where
  "split_string rule_str ge n = split_loop ge n False rule_str"

fun join_with :: "char \<Rightarrow> string list \<Rightarrow> string" where
  "join_with g [] = []"
| "join_with g [x] = x"
| "join_with g (x # y # ys) = x @ g # join_with g (y # ys)"

text \<open>All pieces of a string, as many as there are.\<close>

function str_fields :: "char \<Rightarrow> string \<Rightarrow> string list" where
  "str_fields ge s = takeWhile (\<lambda>c. c \<noteq> ge) s # (case dropWhile (\<lambda>c. c \<noteq> ge) s of [] \<Rightarrow> [] | _ # rest \<Rightarrow> str_fields ge rest)"
  by pat_completeness auto
termination
proof (relation "measure (\<lambda>(ge, s). length s)")
  fix ge and s rest :: string and c
  assume "dropWhile (\<lambda>c. c \<noteq> ge) s = c # rest"
  then have "length (c # rest) \<le> length s" by (metis length_dropWhile_le)
  then show "((ge, rest), ge, s) \<in> measure (\<lambda>(ge, s). length s)" by simp
qed simp

declare str_fields.simps [simp del]

lemma split_loop_fields: "split_loop ge k b s = (if s = [] \<and> \<not> b then [] else take k (str_fields ge s))"
proof (induction ge k b s rule: split_loop.induct)
  case (2 ge k b)
  then show ?case by (simp add: str_fields.simps [of ge "[]"])
next
  case (3 ge k b c cs)
  show ?case
  proof (cases "dropWhile (\<lambda>c. c \<noteq> ge) (c # cs)")
    case Nil
    then have "split_loop ge k False [] = []" by (cases k) auto
    with Nil show ?thesis unfolding str_fields.simps [of ge "c # cs"] split_loop.simps Nil by simp
  next
    case (Cons d rest)
    with 3 show ?thesis unfolding str_fields.simps [of ge "c # cs"] split_loop.simps Cons by simp
  qed
qed simp

lemma str_fields_spec:
  "join_with ge (str_fields ge s) = s \<and> length (str_fields ge s) = count_list s ge + 1 \<and> (\<forall>p \<in> set (str_fields ge s). ge \<notin> set p)"
proof (induction ge s rule: str_fields.induct)
  case (1 ge s)
  have tw: "ge \<notin> set (takeWhile (\<lambda>c. c \<noteq> ge) s)" by (auto dest: set_takeWhileD)
  show ?case
  proof (cases "dropWhile (\<lambda>c. c \<noteq> ge) s")
    case Nil
    then have "takeWhile (\<lambda>c. c \<noteq> ge) s = s" by (metis append.right_neutral takeWhile_dropWhile_id)
    with tw show ?thesis unfolding str_fields.simps [of ge s] Nil by (auto simp: count_list_0_iff dest: set_takeWhileD)
  next
    case (Cons c rest)
    then have c: "c = ge" using hd_dropWhile [of "\<lambda>c. c \<noteq> ge" s] by simp
    have s: "s = takeWhile (\<lambda>c. c \<noteq> ge) s @ ge # rest" using takeWhile_dropWhile_id [of "\<lambda>c. c \<noteq> ge" s] Cons c by simp
    obtain y ys where y: "str_fields ge rest = y # ys" by (simp add: str_fields.simps [of ge rest])
    have "count_list s ge = count_list rest ge + 1"
      using tw by (subst s) (simp add: count_list_0_iff)
    moreover have "join_with ge (str_fields ge s) = takeWhile (\<lambda>c. c \<noteq> ge) s @ ge # rest"
      using "1.IH" [OF Cons] y unfolding str_fields.simps [of ge s] Cons by simp
    moreover have "str_fields ge s = takeWhile (\<lambda>c. c \<noteq> ge) s # str_fields ge rest" unfolding str_fields.simps [of ge s] Cons by simp
    ultimately show ?thesis using "1.IH" [OF Cons] tw s by simp
  qed
qed

section \<open>Chinese characters\<close>

definition is_cn_char :: "char \<Rightarrow> bool" where
  "is_cn_char p \<longleftrightarrow> 161 \<le> uchar p"

definition check_string_have_cn_char :: "string \<Rightarrow> s32 \<Rightarrow> bool" where
  "check_string_have_cn_char str len \<longleftrightarrow>
     0 < sint len \<and> (\<exists>i \<in> set [0 ..< nat (sint len - 1)]. is_cn_char (cat str i))"

section \<open>Escaping\<close>

text \<open>The cases of the \<open>switch\<close> in \<open>get_json_data_safe\<close>: the byte written after the backslash.\<close>

definition web_escapes :: "(char \<times> char) list" where
  "web_escapes =
     [(CHR 0x27, CHR 0x27), (CHR 0x0A, CHR ''n''), (CHR 0x0D, CHR ''r''), (CHR 0x22, CHR 0x22),
      (CHR ''['', CHR ''[''), (CHR '']'', CHR '']''), (CHR ''{'', CHR ''{''), (CHR ''}'', CHR ''}''),
      (CHR '':'', CHR '':''), (CHR '';'', CHR '';''), (CHR ''|'', CHR ''|''), (CHR 0x5C, CHR 0x5C),
      (CHR '','', CHR '',''), (CHR ''.'', CHR ''.''), (CHR ''/'', CHR ''/''), (CHR ''('', CHR ''(''),
      (CHR '')'', CHR '')''), (CHR 0x09, CHR ''t'')]"

definition web_esc :: "char \<Rightarrow> string" where
  "web_esc c = (case map_of web_escapes c of None \<Rightarrow> [c] | Some e \<Rightarrow> [CHR 0x5C, e])"

text \<open>Always writes \<open>buf\<close>; returns it only when a byte was escaped.\<close>

definition get_json_data_safe :: "string \<Rightarrow> string" where
  "get_json_data_safe org =
     (if \<exists>c \<in> set org. map_of web_escapes c \<noteq> None then concat (map web_esc org) else org)"

definition an_change_json_data_symbo :: "string \<Rightarrow> string" where
  "an_change_json_data_symbo buf = map (\<lambda>c. if c = CHR 0x22 then CHR 0x27 else c) buf"

text \<open>The bytes one character becomes, for the two routines that write into a bounded buffer.\<close>

definition json_esc :: "char \<Rightarrow> string" where
  "json_esc c =
     (if c = CHR 0x22 then [CHR 0x5C, CHR 0x22]
      else if c = CHR 0x5C then [CHR 0x5C, CHR 0x5C]
      else if c = CHR 0x0A then [CHR 0x5C, CHR ''n'']
      else if c = CHR 0x0D then [CHR 0x5C, CHR ''r'']
      else if c = CHR 0x09 then [CHR 0x5C, CHR ''t'']
      else if c = CHR 0x08 then [CHR 0x5C, CHR ''b'']
      else if J_iscntrl c then [] else [c])"

definition html_esc :: "char \<Rightarrow> string" where
  "html_esc c =
     (if c = CHR 0x5C then [CHR 0x5C, CHR 0x5C]
      else if c = CHR 0x0A then [CHR 0x5C, CHR ''n'']
      else if c = CHR 0x0D then [CHR 0x5C, CHR ''r'']
      else if c = CHR 0x09 then [CHR 0x5C, CHR ''t'']
      else if c = CHR 0x08 then [CHR 0x5C, CHR ''b'']
      else if c = CHR ''<'' then ''&lt;''
      else if J_iscntrl c then [] else [c])"

text \<open>
  \<open>len += snprintf(dst + len, dst_len - len, ...)\<close>: the size is an unsigned difference that
  wraps, the result is the length the text would have had. A write that starts behind the
  buffer is a fault.
\<close>

definition put_at :: "u32 \<Rightarrow> u32 \<Rightarrow> string \<Rightarrow> string \<Rightarrow> (u32 \<times> string) res" where
  "put_at dst_len len dst e =
     (let size = unat (dst_len - len) in
      if size = 0 then Inr (len + of_nat (length e), dst)
      else if unat dst_len \<le> unat len then Inl Out_Of_Bounds
      else Inr (len + of_nat (length e), dst @ take (size - 1) e))"

fun esc_loop :: "(char \<Rightarrow> string) \<Rightarrow> u32 \<Rightarrow> u32 \<Rightarrow> string \<Rightarrow> string \<Rightarrow> string res" where
  "esc_loop f dst_len len dst [] = Inr dst"
| "esc_loop f dst_len len dst (c # cs) =
     res_bind (if f c = [] then Inr (len, dst) else put_at dst_len len dst (f c)) (\<lambda>(len, dst).
       if unat (dst_len - len) \<le> 1 then Inr dst else esc_loop f dst_len len dst cs)"

definition an_change_html_lt_to_dst :: "string \<Rightarrow> u32 \<Rightarrow> string res" where
  "an_change_html_lt_to_dst src dst_len = esc_loop html_esc dst_len 0 [] src"

definition an_change_json_data_symbo_to_dst :: "string \<Rightarrow> u32 \<Rightarrow> string res" where
  "an_change_json_data_symbo_to_dst src dst_len = esc_loop json_esc dst_len 0 [] src"

text \<open>
  \<open>an_get_json_data_safe\<close> writes the escaped \<open>org_send_buf\<close> to \<open>send_buf\<close>, a block of \<open>cap\<close>
  bytes; \<open>limit\<close> is \<open>sock_t->send_len\<close>. \<open>sprintf\<close> of two characters stores a third byte, the
  terminator. When \<open>send_len\<close> reaches \<open>limit + 1023\<close> the block becomes \<open>send_len + 1024\<close> bytes,
  provided \<open>wys_realloc\<close> succeeds (\<open>alloc\<close>, by the size it is asked for); the test for its failure
  looks at a pointer that is never NULL.
\<close>

definition sock_esc :: "char \<Rightarrow> string" where
  "sock_esc c =
     (if c = CHR 0x5C then [CHR 0x5C, CHR 0x5C]
      else if c = CHR 0x0A then [CHR 0x5C, CHR ''n'']
      else if c = CHR 0x0D then [CHR 0x5C, CHR ''r'']
      else if c = CHR 0x09 then [CHR 0x5C, CHR ''t'']
      else if c = CHR 0x08 then [CHR 0x5C, CHR ''b'']
      else if J_iscntrl c then [] else [c])"

definition sock_write :: "nat \<Rightarrow> string \<Rightarrow> string \<Rightarrow> string res" where
  "sock_write cap b e =
     (if (if length e = 2 then cap < length b + 3 else cap < length b + length e)
      then Inl Out_Of_Bounds else Inr (b @ e))"

fun sock_esc_loop :: "(nat \<Rightarrow> bool) \<Rightarrow> nat \<Rightarrow> u32 \<Rightarrow> string \<Rightarrow> u32 \<Rightarrow> string \<Rightarrow> (string \<times> u32) res" where
  "sock_esc_loop alloc cap limit b send_len [] =
     (if cap < length b + 1 then Inl Out_Of_Bounds else Inr (b, send_len))"
| "sock_esc_loop alloc cap limit b send_len (c # cs) =
     res_bind (sock_write cap b (sock_esc c)) (\<lambda>b.
       let send_len = send_len + of_nat (length (sock_esc c)) in
       if limit + 1024 - 1 \<le> send_len then
         (if alloc (unat (send_len + 1024))
          then sock_esc_loop alloc (unat (send_len + 1024)) send_len b send_len cs
          else Inl Null_Deref)
       else sock_esc_loop alloc cap limit b send_len cs)"

definition an_get_json_data_safe :: "(nat \<Rightarrow> bool) \<Rightarrow> nat \<Rightarrow> u32 \<Rightarrow> string \<Rightarrow> (string \<times> u32) res" where
  "an_get_json_data_safe alloc cap limit org = sock_esc_loop alloc cap limit [] 0 org"

section \<open>Times\<close>

text \<open>
  \<open>mktime\<close> and \<open>localtime\<close> depend on the time zone of the machine; they are arguments.
\<close>

record tm =
  tm_sec :: int
  tm_min :: int
  tm_hour :: int
  tm_mday :: int
  tm_mon :: int
  tm_year :: int
  tm_yday :: int

definition an_time_to_gmt ::
  "(tm \<Rightarrow> int) \<Rightarrow> u32 \<Rightarrow> u32 \<Rightarrow> u32 \<Rightarrow> u32 \<Rightarrow> u32 \<Rightarrow> u32 \<Rightarrow> u64" where
  "an_time_to_gmt mktime year mon day hour mi sec =
     word_of_int (mktime \<lparr>tm_sec = sint sec, tm_min = sint mi, tm_hour = sint hour, tm_mday = sint day,
                          tm_mon = sint (mon - 1), tm_year = sint (year - 1900), tm_yday = 0\<rparr>)"

definition an_gmt_to_time :: "(int \<Rightarrow> tm) \<Rightarrow> int \<Rightarrow> u32 \<times> u32 \<times> u32 \<times> u32 \<times> u32 \<times> u32" where
  "an_gmt_to_time localtime gmt =
     (let t = localtime gmt in
      (word_of_int (tm_year t + 1900), word_of_int (tm_mon t + 1), word_of_int (tm_mday t),
       word_of_int (tm_hour t), word_of_int (tm_min t), word_of_int (tm_sec t)))"

definition an_gmt_to_yday :: "(int \<Rightarrow> tm) \<Rightarrow> int \<Rightarrow> u32" where
  "an_gmt_to_yday localtime gmt = word_of_int (tm_yday (localtime gmt) + 1)"

text \<open>\<open>GMT_REVERS_MASK\<close> is an unsigned 64 bit constant; the results go back to \<open>time_t\<close>.\<close>

definition GMT_REVERS_MASK :: u64 where
  "GMT_REVERS_MASK = 0xffffffff"

definition an_gmt_format_to_hour_inver :: "(int \<Rightarrow> tm) \<Rightarrow> u64 \<Rightarrow> u64" where
  "an_gmt_format_to_hour_inver localtime gmt =
     (let gmt = GMT_REVERS_MASK - gmt;
          (year, mon, day, hour, mi, sec) = an_gmt_to_time localtime (sint gmt);
          gmt = gmt - ucast (mi * 60 + sec)
      in GMT_REVERS_MASK - gmt)"

definition an_gmt_format_to_day_inver :: "(int \<Rightarrow> tm) \<Rightarrow> u64 \<Rightarrow> u64" where
  "an_gmt_format_to_day_inver localtime gmt =
     (let gmt = GMT_REVERS_MASK - gmt;
          (year, mon, day, hour, mi, sec) = an_gmt_to_time localtime (sint gmt);
          gmt = gmt - ucast (hour * 3600 + mi * 60 + sec)
      in GMT_REVERS_MASK - gmt)"

section \<open>Numbers\<close>

definition xvalue :: "char \<Rightarrow> u64" where
  "xvalue c = (if J_isdigit c then of_nat (uchar c) - 48
               else of_nat (uchar (if J_islower c then J_toupper c else c)) - 65 + 10)"

fun strtoul_loop :: "u64 \<Rightarrow> u64 \<Rightarrow> string \<Rightarrow> u64 \<times> string" where
  "strtoul_loop base result [] = (result, [])"
| "strtoul_loop base result (c # cs) =
     (if J_isxdigit c \<and> xvalue c < base
      then strtoul_loop base (result * base + xvalue c) cs else (result, c # cs))"

text \<open>The prefixes: \<open>0x\<close> always means base 16; a leading 0 means octal only when no base is given.\<close>

definition simple_strtoul_ull :: "string \<Rightarrow> u32 \<Rightarrow> u64 \<times> string" where
  "simple_strtoul_ull cp base =
     (let (cp, base) =
        (if cat cp 0 = CHR ''0'' then
           (let cp = tl cp;
                (cp, base) = (if (cat cp 0 = CHR ''x'' \<or> cat cp 0 = CHR ''X'') \<and> J_isxdigit (cat cp 1)
                              then (tl cp, 16) else (cp, base));
                base = (if base = 0 then 8 else base)
            in (cp, base))
         else (cp, base));
        base = (if base = 0 then 10 else base)
      in strtoul_loop (ucast base) 0 cp)"

definition atoull :: "string \<Rightarrow> u64" where
  "atoull buf = (if buf = [] then 0 else fst (simple_strtoul_ull buf 0))"

section \<open>Byte order\<close>

text \<open>\<open>ntohl\<close> and \<open>htonl\<close> reverse the bytes: the machines the program is built for are little endian.\<close>

definition bswap32 :: "u32 \<Rightarrow> u32" where
  "bswap32 w = push_bit 24 w OR push_bit 8 (w AND 0xff00) OR (drop_bit 8 w AND 0xff00) OR drop_bit 24 w"

definition ntohll :: "u64 \<Rightarrow> u64" where
  "ntohll net_var =
     (let tmp0 = (ucast net_var :: u32); tmp1 = (ucast (drop_bit 32 net_var) :: u32)
      in push_bit 32 (ucast (bswap32 tmp0)) OR ucast (bswap32 tmp1))"

definition htonll :: "u64 \<Rightarrow> u64" where
  "htonll host_var =
     (let tmp0 = bswap32 (ucast (drop_bit 32 host_var)); tmp1 = bswap32 (ucast (host_var AND 0xFFFFFFFF))
      in ucast tmp0 OR push_bit 32 (ucast tmp1))"

lemma bit_bswap32:
  "bit (bswap32 w) n \<longleftrightarrow>
     n < 32 \<and> bit w (if n < 8 then n + 24 else if n < 16 then n + 8 else if n < 24 then n - 8 else n - 24)"
proof (cases "n < 32")
  case True
  have ff00: "(0xff00 :: u32) = push_bit 8 (mask 8)" by (simp add: mask_eq_exp_minus_1 push_bit_eq_mult)
  consider "n < 8" | "8 \<le> n" "n < 16" | "16 \<le> n" "n < 24" | "24 \<le> n" using True by linarith
  then show ?thesis
    unfolding bswap32_def ff00
    using True by cases (auto simp: bit_simps add.commute dest: bit_imp_le_length)
next
  case False
  then show ?thesis by (auto dest: bit_imp_le_length)
qed

lemma bswap32_inv: "bswap32 (bswap32 w) = w"
proof (rule bit_word_eqI)
  fix n assume n: "n < LENGTH(32)"
  consider "n < 8" | "8 \<le> n" "n < 16" | "16 \<le> n" "n < 24" | "24 \<le> n" by linarith
  then show "bit (bswap32 (bswap32 w)) n = bit w n"
    using n by cases (auto simp: bit_bswap32)
qed

definition glue64 :: "u32 \<Rightarrow> u32 \<Rightarrow> u64" where
  "glue64 a b = push_bit 32 (ucast a) OR ucast b"

lemma glue64_lo: "ucast (glue64 a b) = b"
  unfolding glue64_def by (rule bit_word_eqI) (auto simp: bit_simps)

lemma glue64_hi: "ucast (drop_bit 32 (glue64 a b)) = a"
  unfolding glue64_def by (rule bit_word_eqI) (auto simp: bit_simps dest: bit_imp_le_length)

lemma glue64_split: "glue64 (ucast (drop_bit 32 w)) (ucast w) = w"
  unfolding glue64_def by (rule bit_word_eqI) (auto simp: bit_simps)

lemma lo_mask: "(ucast (w AND 0xFFFFFFFF) :: u32) = ucast (w :: u64)"
proof -
  have m: "(0xFFFFFFFF :: u64) = mask 32" by (simp add: mask_eq_exp_minus_1)
  show ?thesis unfolding m by (rule bit_word_eqI) (auto simp: bit_simps)
qed

lemma ntohll_glue: "ntohll x = glue64 (bswap32 (ucast x)) (bswap32 (ucast (drop_bit 32 x)))"
  by (simp add: ntohll_def glue64_def Let_def)

lemma htonll_glue: "htonll x = glue64 (bswap32 (ucast x)) (bswap32 (ucast (drop_bit 32 x)))"
  unfolding htonll_def glue64_def Let_def lo_mask by (rule or.commute)

section \<open>The bounded escaping loop\<close>

lemma put_at_ok:
  assumes "length dst < unat n"
  shows "put_at n (of_nat (length dst)) dst e
    = Inr (of_nat (length dst + length e), dst @ take (unat n - length dst - 1) e)"
  using assms unat_of_nat_le32 [of "length dst" n] unat_minus_of_nat32 [of "length dst" n]
  by (simp add: put_at_def Let_def)

lemma esc_loop_bounded:
  assumes "\<forall>c. length (f c) \<le> 2" "length dst + 2 \<le> unat n"
  shows "esc_loop f n (of_nat (length dst)) dst src = Inr (take (unat n - 1) (dst @ concat (map f src)))"
  using assms(2)
proof (induction src arbitrary: dst)
  case Nil
  then show ?case by simp
next
  case (Cons c cs)
  show ?case
  proof (cases "f c = []")
    case True
    with Cons unat_minus_of_nat32 [of "length dst" n] show ?thesis by simp
  next
    case False
    let ?r = "unat n - length dst"
    have p: "put_at n (of_nat (length dst)) dst (f c) = Inr (of_nat (length dst + length (f c)), dst @ take (?r - 1) (f c))"
      using put_at_ok [of dst n "f c"] Cons.prems by simp
    have fc: "0 < length (f c)" "length (f c) \<le> 2" using False assms(1) by auto
    have rl: "unat (n - of_nat (length dst + length (f c))) = ?r - length (f c)"
      using unat_minus_of_nat32 [of "length dst + length (f c)" n] fc Cons.prems by simp
    show ?thesis
    proof (cases "?r - length (f c) \<le> 1")
      case True
      then have "take (unat n - 1) (dst @ f c @ concat (map f cs)) = dst @ take (?r - 1) (f c)"
        using Cons.prems fc by simp
      with p rl True False show ?thesis by simp
    next
      case t: False
      then have tk: "take (?r - 1) (f c) = f c" by simp
      have "length (dst @ f c) + 2 \<le> unat n" using t by simp
      from Cons.IH [OF this] p rl t tk False show ?thesis by simp
    qed
  qed
qed

lemma json_esc_length: "length (json_esc c) \<le> 2"
  by (simp add: json_esc_def)

lemma esc_loop_plain:
  assumes "f c = [c]" "length dst + k + 2 \<le> unat n"
  shows "esc_loop f n (of_nat (length dst)) dst (replicate k c @ rest)
       = esc_loop f n (of_nat (length dst + k)) (dst @ replicate k c) rest"
  using assms(2)
proof (induction k arbitrary: dst)
  case 0
  then show ?case by simp
next
  case (Suc k)
  have p: "put_at n (of_nat (length dst)) dst [c] = Inr (of_nat (length dst + 1), dst @ [c])"
    using put_at_ok [of dst n "[c]"] Suc.prems by simp
  have "unat (n - of_nat (length dst + 1)) = unat n - (length dst + 1)"
    using unat_minus_of_nat32 [of "length dst + 1" n] Suc.prems by simp
  moreover have "length (dst @ [c]) + k + 2 \<le> unat n" using Suc.prems by simp
  moreover have "\<not> unat n - (length dst + 1) \<le> 1" using Suc.prems by simp
  ultimately show ?case
    using Suc.IH [of "dst @ [c]"] p assms(1) by (simp add: add.assoc)
qed

lemma html_overflow_step:
  assumes "2 \<le> unat n" "unat n < 2 ^ 31" and that: "length dst = unat n - 2"
  shows "esc_loop html_esc n (of_nat (unat n - 2)) dst ''<a'' = Inl Out_Of_Bounds"
proof -
  have p: "put_at n (of_nat (unat n - 2)) dst ''&lt;'' = Inr (of_nat (unat n + 2), dst @ [CHR ''&''])"
  proof -
    have e: "unat n - length dst - 1 = 1" "length dst + length ''&lt;'' = unat n + 2" "length dst < unat n"
      using that assms(1) by simp_all
    from put_at_ok [OF e(3), of "''&lt;''", unfolded e(1,2)] show ?thesis
      unfolding that by (simp add: numeral_eq_Suc)
  qed
  have big: "unat (n - of_nat (unat n + 2)) = 2 ^ 32 - 2"
  proof -
    have "n - of_nat (unat n + 2) = (- 2 :: u32)" by simp
    then show ?thesis by simp
  qed
  have l: "unat (of_nat (unat n + 2) :: u32) = unat n + 2" using assms(2) by (intro unat_of_nat32) simp
  have q: "put_at n (of_nat (unat n + 2)) (dst @ [CHR ''&'']) [CHR ''a''] = Inl Out_Of_Bounds"
    unfolding put_at_def Let_def big l by simp
  have h: "html_esc CHR ''<'' = ''&lt;''" "html_esc CHR ''a'' = [CHR ''a'']" by code_simp+
  show ?thesis using p q big by (simp add: h)
qed

section \<open>Escaping and unescaping\<close>

fun web_unesc :: "string \<Rightarrow> string" where
  "web_unesc [] = []"
| "web_unesc (c # cs) =
     (if c = CHR 0x5C then
        (case cs of
           [] \<Rightarrow> [c]
         | e # es \<Rightarrow> (if e = CHR ''n'' then CHR 0x0A else if e = CHR ''r'' then CHR 0x0D
                     else if e = CHR ''t'' then CHR 0x09 else e) # web_unesc es)
      else c # web_unesc cs)"

lemma web_unesc_esc: "web_unesc (web_esc c @ s) = c # web_unesc s"
  by (auto simp: web_esc_def web_escapes_def)

lemma web_unesc_concat: "web_unesc (concat (map web_esc s)) = s"
  by (induction s) (simp_all add: web_unesc_esc)

lemma web_unesc_plain: "\<forall>c \<in> set s. map_of web_escapes c = None \<Longrightarrow> web_unesc s = s"
  by (induction s) (auto simp: web_escapes_def split: if_splits)

section \<open>The send buffer\<close>

lemma sock_esc_length: "length (sock_esc c) \<le> 2"
  by (simp add: sock_esc_def)

lemma limit_room: "unat limit < 2 ^ 31 \<Longrightarrow> unat (limit + 1024 - 1 :: u32) = unat limit + 1023"
proof -
  assume a: "unat limit < 2 ^ 31"
  have "limit + 1024 - 1 = of_nat (unat limit + 1023)" by simp
  then show ?thesis using a by (simp only: unat_of_nat) simp
qed

lemma sock_esc_loop_ok:
  assumes "unat limit < 2 ^ 31" "cap = unat limit + 1024"
    and "length b + length (concat (map sock_esc cs)) < unat limit + 1022"
  shows "sock_esc_loop alloc cap limit b (of_nat (length b)) cs
       = Inr (b @ concat (map sock_esc cs), of_nat (length b + length (concat (map sock_esc cs))))"
  using assms(3)
proof (induction cs arbitrary: b)
  case Nil
  with assms(2) show ?case by simp
next
  case (Cons c cs)
  let ?m = "length b + length (sock_esc c)"
  have m: "?m < unat limit + 1022" using Cons.prems by simp
  have w: "sock_write cap b (sock_esc c) = Inr (b @ sock_esc c)"
    using m assms(2) sock_esc_length [of c] by (auto simp: sock_write_def)
  note l = limit_room [OF assms(1)]
  have "unat (of_nat ?m :: u32) = ?m" using m assms(1) by (intro unat_of_nat32) simp
  then have nl: "\<not> limit + 1024 - 1 \<le> (of_nat ?m :: u32)" using m l by (simp add: word_le_nat_alt)
  have "sock_esc_loop alloc cap limit (b @ sock_esc c) (of_nat (length (b @ sock_esc c))) cs
     = Inr ((b @ sock_esc c) @ concat (map sock_esc cs), of_nat (length (b @ sock_esc c) + length (concat (map sock_esc cs))))"
    using Cons.prems by (intro Cons.IH) simp
  with w nl show ?case by (simp add: Let_def add.assoc)
qed

lemma sock_esc_loop_app:
  assumes "unat limit < 2 ^ 31" "cap = unat limit + 1024"
    and "length b + length (concat (map sock_esc cs)) < unat limit + 1023" "\<forall>c \<in> set cs. sock_esc c = [c]"
  shows "sock_esc_loop alloc cap limit b (of_nat (length b)) (cs @ ds)
       = sock_esc_loop alloc cap limit (b @ cs) (of_nat (length (b @ cs))) ds"
  using assms(3,4)
proof (induction cs arbitrary: b)
  case Nil
  then show ?case by simp
next
  case (Cons c cs)
  have m: "Suc (length b) < unat limit + 1023" using Cons.prems by simp
  have w: "sock_write cap b [c] = Inr (b @ [c])" using m assms(2) by (simp add: sock_write_def)
  note l = limit_room [OF assms(1)]
  have "unat (of_nat (Suc (length b)) :: u32) = Suc (length b)" using m assms(1) by (intro unat_of_nat32) simp
  then have nl: "\<not> limit + 1024 - 1 \<le> (of_nat (Suc (length b)) :: u32)" using m l by (simp only: word_le_nat_alt)
  have "sock_esc_loop alloc cap limit (b @ [c]) (of_nat (length (b @ [c]))) (cs @ ds)
     = sock_esc_loop alloc cap limit ((b @ [c]) @ cs) (of_nat (length ((b @ [c]) @ cs))) ds"
    using Cons.prems by (intro Cons.IH) auto
  with w nl Cons.prems(2) show ?case by (simp add: Let_def add.commute)
qed

section \<open>Printing and reading numbers\<close>

function dec_string :: "nat \<Rightarrow> string" where
  "dec_string n = (if n < 10 then [char_of (48 + n)] else dec_string (n div 10) @ [char_of (48 + n mod 10)])"
  by auto
termination by (relation "measure id") auto

declare dec_string.simps [simp del]

definition dec_digit :: "nat \<Rightarrow> char" where
  "dec_digit d = char_of (48 + d)"

lemma ctype_digit: "48 \<le> n \<Longrightarrow> n < 58 \<Longrightarrow> ctype_tab ! n = CT_D"
  by (simp add: ctype_tab_def nth_append) linarith

lemma uchar_dec_digit: "d < 10 \<Longrightarrow> uchar (dec_digit d) = 48 + d"
  by (simp add: uchar_def dec_digit_def)

lemma dec_digit_ok:
  assumes "d < 10"
  shows "J_isxdigit (dec_digit d)" "xvalue (dec_digit d) = of_nat d" "(of_nat d :: u64) < 10"
  using assms ctype_digit [of "48 + d"] unat_of_nat [of d, where ?'a = 64]
  by (simp_all add: J_isxdigit_def xvalue_def J_isdigit_def ct_has_def uchar_dec_digit word_less_nat_alt)

lemma dec_digit_zero: "d < 10 \<Longrightarrow> dec_digit d = CHR ''0'' \<longleftrightarrow> d = 0"
proof -
  assume d: "d < 10"
  have z: "uchar CHR ''0'' = 48" by (simp add: uchar_def)
  have i: "a = b" if "uchar a = uchar b" for a b using that by (metis uchar_def of_char_eq_iff)
  show ?thesis using uchar_dec_digit [OF d] z i by (metis add_cancel_left_right)
qed

lemma dec_string_digits: "c \<in> set (dec_string n) \<Longrightarrow> \<exists>d < 10. c = dec_digit d"
proof (induction n rule: dec_string.induct)
  case (1 n)
  show ?case
  proof (cases "n < 10")
    case True
    with 1 show ?thesis by (auto simp: dec_string.simps [of n] dec_digit_def)
  next
    case False
    with 1 show ?thesis
      by (auto simp: dec_string.simps [of n] dec_digit_def intro: exI [of _ "n mod 10"])
  qed
qed

lemma is_digit_dec_digit: "d < 10 \<Longrightarrow> is_digit_c (dec_digit d)"
  by (simp add: is_digit_c_def uchar_dec_digit)

lemma dec_string_all_digits: "list_all is_digit_c (dec_string n)"
  using dec_string_digits is_digit_dec_digit by (fastforce simp: list_all_iff)

lemma digits_val_append:
  "list_all is_digit_c ds \<Longrightarrow> digits_val acc (ds @ r) = digits_val (digits_val acc ds) r"
  by (induction ds arbitrary: acc) auto

lemma digits_val_dec_string: "digits_val 0 (dec_string n) = n"
proof (induction n rule: dec_string.induct)
  case (1 n)
  have d: "uchar (char_of (48 + k)) = 48 + k" "is_digit_c (char_of (48 + k))" if "k < 10" for k
    using uchar_dec_digit [OF that] is_digit_dec_digit [OF that] by (simp_all add: dec_digit_def)
  show ?case
  proof (cases "n < 10")
    case True
    then show ?thesis using d [of n] by (simp add: dec_string.simps [of n])
  next
    case False
    then show ?thesis
      using d [of "n mod 10"] 1 [OF False] dec_string_all_digits [of "n div 10"]
      by (simp add: dec_string.simps [of n] digits_val_append)
  qed
qed

lemma length_dec_string: "n < 10 ^ Suc k \<Longrightarrow> length (dec_string n) \<le> Suc k"
proof (induction k arbitrary: n)
  case 0
  then show ?case by (simp add: dec_string.simps [of n])
next
  case (Suc k)
  show ?case
  proof (cases "n < 10")
    case True
    then show ?thesis by (simp add: dec_string.simps [of n])
  next
    case False
    have "n div 10 < 10 ^ Suc k" using Suc.prems by (simp add: less_mult_imp_div_less)
    with Suc.IH [of "n div 10"] False show ?thesis by (simp add: dec_string.simps [of n])
  qed
qed

lemma dec_string_inj: "dec_string m = dec_string n \<Longrightarrow> m = n"
  by (metis digits_val_dec_string)

lemma dec_string_ne: "dec_string n \<noteq> []"
  by (subst dec_string.simps) simp

text \<open>\<open>atoi\<close> of a number that is followed by something that is no digit.\<close>

lemma atoi_dec_rest:
  assumes n: "n < 2 ^ 31" and r: "\<not> is_digit_c (cat r 0)"
  shows "sint (atoi (dec_string n @ r)) = int n"
proof -
  obtain c cs where c: "dec_string n = c # cs" using dec_string_ne [of n] by (cases "dec_string n") auto
  then have d: "is_digit_c c" using dec_string_all_digits [of n] by simp
  then have sp: "\<not> is_space_c c" "c \<noteq> CHR ''-''" "c \<noteq> CHR ''+''" by (auto simp: is_digit_c_def is_space_c_def uchar_def)
  have "digits_val a r = a" for a using r by (cases r) (simp_all add: cat_def)
  then have v: "digits_val 0 (dec_string n @ r) = n"
    by (simp add: digits_val_append dec_string_all_digits digits_val_dec_string)
  have "strtol10 (dec_string n @ r) = int n" using sp v n by (simp add: strtol10_def c Let_def)
  then show ?thesis unfolding atoi_def using n by (simp only:) (rule sint_s32_of_int, simp_all)
qed

lemma strtoul_loop_digits:
  "\<forall>c \<in> set s. \<exists>d < 10. c = dec_digit d \<Longrightarrow> strtoul_loop 10 r s = (foldl (\<lambda>a c. a * 10 + xvalue c) r s, [])"
  by (induction s arbitrary: r) (auto simp: dec_digit_ok)

lemma foldl_dec_string: "foldl (\<lambda>a c. a * 10 + xvalue c) 0 (dec_string n) = (of_nat n :: u64)"
proof (induction n rule: dec_string.induct)
  case (1 n)
  show ?case
  proof (cases "n < 10")
    case True
    then show ?thesis by (simp add: dec_string.simps [of n] dec_digit_def [symmetric] dec_digit_ok)
  next
    case False
    have "(of_nat (n div 10) * 10 + of_nat (n mod 10) :: u64) = of_nat (n div 10 * 10 + n mod 10)"
      by (simp only: of_nat_add of_nat_mult of_nat_numeral)
    then have "(of_nat (n div 10) * 10 + of_nat (n mod 10) :: u64) = of_nat n" by (simp only: div_mult_mod_eq)
    with 1 [OF False] False show ?thesis
      by (simp add: dec_string.simps [of n] dec_digit_def [symmetric] dec_digit_ok)
  qed
qed

lemma dec_string_first: "0 < n \<Longrightarrow> \<exists>d cs. dec_string n = dec_digit d # cs \<and> 0 < d \<and> d < 10"
proof (induction n rule: dec_string.induct)
  case (1 n)
  show ?case
  proof (cases "n < 10")
    case True
    then have "dec_string n = dec_digit n # []" by (simp add: dec_string.simps [of n] dec_digit_def)
    with True 1(2) show ?thesis by blast
  next
    case False
    then have "0 < n div 10" by simp
    from 1(1) [OF False this] obtain d cs where "dec_string (n div 10) = dec_digit d # cs" "0 < d" "d < 10" by blast
    with False show ?thesis by (auto simp: dec_string.simps [of n])
  qed
qed

lemma atoull_dec: "atoull (dec_string n) = of_nat n"
proof (cases "n = 0")
  case True
  have "dec_string 0 = [dec_digit 0]" by (simp add: dec_string.simps [of 0] dec_digit_def)
  then have "dec_string 0 = ''0''" using dec_digit_zero [of 0] by simp
  with True show ?thesis by (simp add: atoull_def simple_strtoul_ull_def cat_def)
next
  case False
  then obtain d cs where d: "dec_string n = dec_digit d # cs" "0 < d" "d < 10" using dec_string_first by blast
  then have nz: "cat (dec_string n) 0 \<noteq> CHR ''0''" using dec_digit_zero [of d] by (simp add: cat_def)
  have "simple_strtoul_ull (dec_string n) 0 = strtoul_loop 10 0 (dec_string n)"
    using nz by (simp add: simple_strtoul_ull_def Let_def)
  also have "\<dots> = (of_nat n, [])"
    using strtoul_loop_digits [of "dec_string n" 0] dec_string_digits foldl_dec_string by simp
  finally show ?thesis using d(1) by (simp add: atoull_def)
qed

section \<open>Truncating times\<close>

text \<open>
  What the C library documents of \<open>localtime\<close> for a zone with a fixed offset: the fields of the
  clock are those of the shifted time.
\<close>

definition clock_of :: "(int \<Rightarrow> tm) \<Rightarrow> int \<Rightarrow> bool" where
  "clock_of localtime off \<longleftrightarrow> (\<forall>g. let t = localtime g in
     tm_sec t = (g + off) mod 60 \<and> tm_min t = (g + off) div 60 mod 60 \<and> tm_hour t = (g + off) div 3600 mod 24)"

lemma clock_fields:
  assumes "clock_of lt off"
  shows "tm_min (lt g) * 60 + tm_sec (lt g) = (g + off) mod 3600"
    and "tm_hour (lt g) * 3600 + tm_min (lt g) * 60 + tm_sec (lt g) = (g + off) mod 86400"
proof -
  have f: "tm_sec (lt g) = (g + off) mod 60" "tm_min (lt g) = (g + off) div 60 mod 60"
    "tm_hour (lt g) = (g + off) div 3600 mod 24"
    using assms by (auto simp: clock_of_def Let_def)
  have "(g + off) mod (60 * 60) = 60 * ((g + off) div 60 mod 60) + (g + off) mod 60"
    by (rule zmod_zmult2_eq) simp
  then have a: "(g + off) mod 3600 = tm_min (lt g) * 60 + tm_sec (lt g)"
    unfolding f by (simp only: mult.commute [of 60] mult_numeral_left numeral_times_numeral semiring_norm)
  have "(g + off) mod (3600 * 24) = 3600 * ((g + off) div 3600 mod 24) + (g + off) mod 3600"
    by (rule zmod_zmult2_eq) simp
  then have "(g + off) mod 86400 = tm_hour (lt g) * 3600 + (tm_min (lt g) * 60 + tm_sec (lt g))"
    unfolding a unfolding f(3) by (simp only: mult.commute [of 3600] numeral_times_numeral semiring_norm)
  with a show "tm_min (lt g) * 60 + tm_sec (lt g) = (g + off) mod 3600"
    "tm_hour (lt g) * 3600 + tm_min (lt g) * 60 + tm_sec (lt g) = (g + off) mod 86400"
    by (simp_all only: add.assoc)
qed

lemma word_clock:
  fixes a b :: int
  shows "(word_of_int a * 60 + word_of_int b :: u32) = word_of_int (a * 60 + b)"
    and "(word_of_int h * 3600 + word_of_int a * 60 + word_of_int b :: u32) = word_of_int (h * 3600 + a * 60 + b)"
  by simp_all

lemma ucast_small: "0 \<le> k \<Longrightarrow> k < 2 ^ 32 \<Longrightarrow> (ucast (word_of_int k :: u32) :: u64) = word_of_int k"
  by (simp add: unsigned_of_int take_bit_int_eq_self)

lemma sint_of_u64: "0 \<le> k \<Longrightarrow> k < 2 ^ 63 \<Longrightarrow> sint (word_of_int k :: u64) = k"
  by (simp add: signed_of_int signed_take_bit_int_eq_self)

text \<open>\<open>g\<close> is the time the reversed stamp stands for.\<close>

lemma inver_eq:
  assumes "clock_of lt off" "0 \<le> g" "g < 2 ^ 32"
  shows "an_gmt_format_to_hour_inver lt (GMT_REVERS_MASK - word_of_int g)
           = GMT_REVERS_MASK - word_of_int (g - (g + off) mod 3600)"
    and "an_gmt_format_to_day_inver lt (GMT_REVERS_MASK - word_of_int g)
           = GMT_REVERS_MASK - word_of_int (g - (g + off) mod 86400)"
proof -
  have s: "sint (word_of_int g :: u64) = g" using assms by (intro sint_of_u64) simp_all
  note c = clock_fields [OF assms(1), of g]
  have b: "(ucast (word_of_int ((g + off) mod 3600) :: u32) :: u64) = word_of_int ((g + off) mod 3600)"
    "(ucast (word_of_int ((g + off) mod 86400) :: u32) :: u64) = word_of_int ((g + off) mod 86400)"
    using pos_mod_bound [of 3600 "g + off"] pos_mod_bound [of 86400 "g + off"]
    by (intro ucast_small, simp_all)+
  show "an_gmt_format_to_hour_inver lt (GMT_REVERS_MASK - word_of_int g)
           = GMT_REVERS_MASK - word_of_int (g - (g + off) mod 3600)"
    using c(1) b(1) by (simp add: an_gmt_format_to_hour_inver_def an_gmt_to_time_def Let_def s word_clock del: of_int_add of_int_mult)
  show "an_gmt_format_to_day_inver lt (GMT_REVERS_MASK - word_of_int g)
           = GMT_REVERS_MASK - word_of_int (g - (g + off) mod 86400)"
    using c(2) b(2) by (simp add: an_gmt_format_to_day_inver_def an_gmt_to_time_def Let_def s word_clock del: of_int_add of_int_mult)
qed

section \<open>Properties\<close>

text \<open>
  C32: splitting. \<open>split_string\<close> fills the array with the first \<open>n\<close> pieces of the string, all of them if there are no more, and
  with none for the empty string; it never fills more entries than the array has. The pieces of a string are one more than
  its separators, contain none, and joined by the separator they give the string back.
\<close>

theorem split_string_roundtrip:
  "split_string s ge n = (if s = [] then [] else take n (str_fields ge s))
     \<and> length (split_string s ge n) = (if s = [] then 0 else min n (count_list s ge + 1))
     \<and> join_with ge (str_fields ge s) = s \<and> (\<forall>p \<in> set (str_fields ge s). ge \<notin> set p)"
  using split_loop_fields [of ge n False s] str_fields_spec [of ge s] by (auto simp: split_string_def)

theorem split_string_roundtrip_witness:
  "split_string ''a::b:'' CHR '':'' 2 = [''a'', []] \<and> length (split_string ''a::b:'' CHR '':'' 2) = 2"
  using split_string_roundtrip [of "''a::b:''" "CHR '':''" 2] by (simp add: str_fields.simps)

text \<open>
  Escaping for the old page framework. What \<open>get_json_data_safe\<close> returns can be turned back
  into the text it was given.
\<close>

lemma web_escape_roundtrip:
  "web_unesc (get_json_data_safe s) = s"
proof (cases "\<exists>c \<in> set s. map_of web_escapes c \<noteq> None")
  case True
  then show ?thesis unfolding get_json_data_safe_def by (simp only: if_True web_unesc_concat)
next
  case False
  then have "\<forall>c \<in> set s. map_of web_escapes c = None" by auto
  with False show ?thesis unfolding get_json_data_safe_def by (simp only: if_False web_unesc_plain)
qed

text \<open>
  The bounded escaping routines. With a buffer of at least two bytes
  \<open>an_change_json_data_symbo_to_dst\<close> stays inside it and leaves the escaped text, cut to fit (also in
  the middle of an escape). \<open>an_change_html_lt_to_dst\<close> has the same loop but an escape of four bytes:
  the unsigned room left wraps around and the character after a \<open><\<close> near the end of the buffer is
  written behind it, for every size of the buffer.
\<close>

lemma bounded_escape:
  assumes "2 \<le> unat n"
  shows "an_change_json_data_symbo_to_dst s n = Inr (take (unat n - 1) (concat (map json_esc s)))
       \<and> (unat n < 2 ^ 31 \<longrightarrow>
            an_change_html_lt_to_dst (replicate (unat n - 2) CHR ''a'' @ ''<a'') n = Inl Out_Of_Bounds)"
proof (intro conjI impI)
  show "an_change_json_data_symbo_to_dst s n = Inr (take (unat n - 1) (concat (map json_esc s)))"
    using esc_loop_bounded [of json_esc "[]" n s] json_esc_length assms
    by (simp add: an_change_json_data_symbo_to_dst_def)
  assume n: "unat n < 2 ^ 31"
  have a: "html_esc CHR ''a'' = [CHR ''a'']" by code_simp
  have "esc_loop html_esc n (of_nat (length ([] :: string))) [] (replicate (unat n - 2) CHR ''a'' @ ''<a'')
      = esc_loop html_esc n (of_nat (length ([] :: string) + (unat n - 2))) ([] @ replicate (unat n - 2) CHR ''a'') ''<a''"
    using assms by (intro esc_loop_plain [where f = html_esc and c = "CHR ''a''", OF a]) simp
  with html_overflow_step [OF assms n, of "replicate (unat n - 2) CHR ''a''"]
  show "an_change_html_lt_to_dst (replicate (unat n - 2) CHR ''a'' @ ''<a'') n = Inl Out_Of_Bounds"
    by (simp add: an_change_html_lt_to_dst_def del: of_nat_diff)
qed

lemma bounded_escape_witness:
  "an_change_html_lt_to_dst ''aa<a'' 4 = Inl Out_Of_Bounds"
proof -
  have r: "replicate 2 CHR ''a'' = ''aa''" by (simp add: numeral_2_eq_2)
  have u: "unat (4 :: u32) = 4" "4 - 2 = (2 :: nat)" by simp_all
  from bounded_escape [of 4 "[]"] show ?thesis unfolding u r by simp
qed

text \<open>
  Escaping the send buffer. With a block of \<open>send_len + 1024\<close> bytes, the size the routine
  itself keeps up, \<open>an_get_json_data_safe\<close> produces the escaped text and its length as long as that
  stays below \<open>send_len + 1022\<close> bytes. An escape that starts two bytes before the end of the block
  stores its terminator behind it.
\<close>

lemma send_buffer_escape:
  assumes "unat limit < 2 ^ 31"
  shows "(length (concat (map sock_esc org)) < unat limit + 1022 \<longrightarrow>
            an_get_json_data_safe alloc (unat limit + 1024) limit org
            = Inr (concat (map sock_esc org), of_nat (length (concat (map sock_esc org)))))
       \<and> an_get_json_data_safe alloc (unat limit + 1024) limit
           (replicate (unat limit + 1022) CHR ''a'' @ [CHR 0x0A]) = Inl Out_Of_Bounds"
proof (intro conjI impI)
  assume "length (concat (map sock_esc org)) < unat limit + 1022"
  then show "an_get_json_data_safe alloc (unat limit + 1024) limit org
            = Inr (concat (map sock_esc org), of_nat (length (concat (map sock_esc org))))"
    using sock_esc_loop_ok [OF assms refl, of "[]" org alloc] by (simp add: an_get_json_data_safe_def)
next
  let ?as = "replicate (unat limit + 1022) CHR ''a''"
  have a: "sock_esc CHR ''a'' = [CHR ''a'']" and nl: "sock_esc CHR 0x0A = [CHR 0x5C, CHR ''n'']" by code_simp+
  have "length (concat (map sock_esc ?as)) = unat limit + 1022"
    by (simp add: a map_replicate_const length_concat sum_list_replicate)
  then have "sock_esc_loop alloc (unat limit + 1024) limit [] (of_nat (length ([] :: string))) (?as @ [CHR 0x0A])
    = sock_esc_loop alloc (unat limit + 1024) limit ([] @ ?as) (of_nat (length ([] @ ?as))) [CHR 0x0A]"
    by (intro sock_esc_loop_app [OF assms refl]) (simp_all add: a)
  then show "an_get_json_data_safe alloc (unat limit + 1024) limit (?as @ [CHR 0x0A]) = Inl Out_Of_Bounds"
    by (simp add: an_get_json_data_safe_def nl sock_write_def)
qed

lemma send_buffer_escape_witness:
  "an_get_json_data_safe (\<lambda>_. True) 1024 0 (replicate 1022 CHR ''a'' @ [CHR 0x0A]) = Inl Out_Of_Bounds
   \<and> an_get_json_data_safe (\<lambda>_. True) 1024 0 [] = Inr ([], 0)"
  using send_buffer_escape [of 0 "[]" "\<lambda>_. True"] by simp

text \<open>
  byte order and numbers. \<open>ntohll\<close> and \<open>htonll\<close> undo each other, and \<open>atoull\<close> reads back the
  decimal digits of every number, modulo 2 to the 64.
\<close>

lemma byte_order_and_numbers:
  "ntohll (htonll x) = x \<and> htonll (ntohll x) = x \<and> atoull (dec_string k) = of_nat k"
  unfolding ntohll_glue htonll_glue glue64_lo glue64_hi bswap32_inv
  using glue64_split [of x] atoull_dec by simp

text \<open>
  truncating reversed times. For a machine in a zone with a fixed offset and a time that is not
  before the first full hour (day) of 1970, \<open>an_gmt_format_to_hour_inver\<close> and
  \<open>an_gmt_format_to_day_inver\<close> give the reversed stamp of the start of the hour (day) the time lies in,
  and applying them again changes nothing.
\<close>

lemma reversed_time_truncation:
  assumes "clock_of localtime off" "86400 \<le> g" "g < 2 ^ 32"
  shows "let h = an_gmt_format_to_hour_inver localtime (GMT_REVERS_MASK - word_of_int g);
             d = an_gmt_format_to_day_inver localtime (GMT_REVERS_MASK - word_of_int g)
         in h = GMT_REVERS_MASK - word_of_int (g - (g + off) mod 3600)
          \<and> d = GMT_REVERS_MASK - word_of_int (g - (g + off) mod 86400)
          \<and> an_gmt_format_to_hour_inver localtime h = h \<and> an_gmt_format_to_day_inver localtime d = d
          \<and> an_gmt_format_to_hour_inver localtime d = d"
proof -
  let ?h = "g - (g + off) mod 3600" and ?d = "g - (g + off) mod 86400"
  have b: "0 \<le> (g + off) mod 3600" "(g + off) mod 3600 < 3600" "0 \<le> (g + off) mod 86400" "(g + off) mod 86400 < 86400"
    by (simp_all only: pos_mod_sign pos_mod_bound zero_less_numeral)
  have r: "0 \<le> ?h" "?h < 2 ^ 32" "0 \<le> ?d" "?d < 2 ^ 32" "0 \<le> g" using b assms(2,3) by linarith+
  have m: "(g - (g + off) mod k + off) mod k = 0" for k
  proof -
    have "g - (g + off) mod k + off = (g + off) - (g + off) mod k" by simp
    then show ?thesis by (simp only: minus_mod_eq_div_mult) simp
  qed
  have md: "(?d + off) mod 3600 = 0"
  proof -
    have "(?d + off) mod 86400 mod 3600 = (?d + off) mod 3600" by (rule mod_mod_cancel) simp
    then show ?thesis using m [of 86400] by simp
  qed
  show ?thesis
    unfolding Let_def inver_eq [OF assms(1) r(5) assms(3)] inver_eq [OF assms(1) r(1,2)] inver_eq [OF assms(1) r(3,4)]
      m md by simp
qed

definition utc_clock :: "int \<Rightarrow> tm" where
  "utc_clock g = \<lparr>tm_sec = g mod 60, tm_min = g div 60 mod 60, tm_hour = g div 3600 mod 24,
     tm_mday = 1, tm_mon = 0, tm_year = 70, tm_yday = 0\<rparr>"

lemma reversed_time_truncation_witness:
  "an_gmt_format_to_hour_inver utc_clock (GMT_REVERS_MASK - word_of_int 1478570000)
     = GMT_REVERS_MASK - word_of_int 1478566800"
proof -
  have "clock_of utc_clock 0" by (simp only: clock_of_def utc_clock_def Let_def tm.simps) simp
  from reversed_time_truncation [OF this, of 1478570000] show ?thesis by (simp add: Let_def)
qed

end
