(* ===== verification/Hash_Work.thy ===== *)
theory Hash_Work
  imports Hash_Table Public_Util
begin

text \<open>
  Work rules and the classification of user actions in \<^verbatim>\<open>TCP_C/hash.c\<close>: the table of work
  rules (\<open>an_work_rule_t_*\<close>), the category of a statistics entry
  (\<open>ww_get_category_by_ww_action_list_st\<close>) and the detail record made from a reported action
  (\<open>an_detail_act_t_create_to_list\<close>).

  Rules are linked by the part of the program that receives them, under the hash of the
  process for a program rule and of the work name for a page rule; \<open>wr_hidx\<close> states that.
  The lists of chat and video programs (\<open>ww_chat_list\<close>, \<open>ww_move_list\<close>) are only declared in
  the sources; they are arguments.

  Shown: the lookups find a rule exactly if one matches, although they hash at most eight
  characters and compare at most 32 or 48; violations take precedence over work rules and
  these over everything else.
\<close>

section \<open>The hash of a name\<close>

fun name_sum :: "nat \<Rightarrow> u32 \<Rightarrow> string \<Rightarrow> u32" where
  "name_sum 0 index cs = index"
| "name_sum (Suc k) index [] = index"
| "name_sum (Suc k) index (c # cs) = name_sum k (index + word_of_int (schar c)) cs"

definition ww_action_name_hash :: "string \<Rightarrow> nat" where
  "ww_action_name_hash name = unat (name_sum 8 0 name AND 255)"

definition an_work_rule_t_get_hash :: "string \<Rightarrow> nat" where
  "an_work_rule_t_get_hash name = unat (name_sum 8 0 name AND 255)"

lemma name_sum_take: "name_sum k index (take k s) = name_sum k index s"
  by (induction k index s rule: name_sum.induct) auto

lemma name_hash_cong: "take n a = take n b \<Longrightarrow> 8 \<le> n \<Longrightarrow> an_work_rule_t_get_hash a = an_work_rule_t_get_hash b"
proof -
  assume "take n a = take n b" "8 \<le> n"
  then have "take 8 a = take 8 b" by (metis min.absorb1 take_take)
  then show ?thesis unfolding an_work_rule_t_get_hash_def by (metis name_sum_take)
qed

section \<open>Work rules\<close>

record an_work_rule =
  wr_workname :: string
  wr_process :: string
  wr_gid :: s32
  wr_worktype :: u8

definition work_zero :: an_work_rule where
  "work_zero = \<lparr>wr_workname = [], wr_process = [], wr_gid = 0, wr_worktype = 0\<rparr>"

type_synonym work_tab = "an_work_rule htab"

definition an_work_rule_t_create :: "addr option \<Rightarrow> work_tab \<Rightarrow> work_tab \<times> addr option" where
  "an_work_rule_t_create mem t =
     (case mem of
        None \<Rightarrow> (t, None)
      | Some a \<Rightarrow> (t\<lparr>ht_store := (ht_store t)(a \<mapsto> work_zero)\<rparr>, Some a))"

definition an_work_rule_t_find_by_type_name_gid :: "u8 \<Rightarrow> string \<Rightarrow> u32 \<Rightarrow> work_tab \<Rightarrow> addr option res" where
  "an_work_rule_t_find_by_type_name_gid type name gid t =
     ht_scan (\<lambda>n. (type = 0 \<and> type = wr_worktype n \<and> gid = wr_gid n \<and> strneq (wr_process n) name 32)
                \<or> (type = 1 \<and> type = wr_worktype n \<and> gid = wr_gid n \<and> strneq (wr_workname n) name 48))
       (ht_store t) (ht_bucket t (an_work_rule_t_get_hash name))"

definition an_work_rule_t_find_by_type_name_gid_all :: "u8 \<Rightarrow> string \<Rightarrow> u32 \<Rightarrow> work_tab \<Rightarrow> addr option res" where
  "an_work_rule_t_find_by_type_name_gid_all type name gid t =
     ht_scan (\<lambda>n. (type = 0 \<and> type = wr_worktype n \<and> (wr_gid n = 0 \<or> gid = wr_gid n) \<and> strneq (wr_process n) name 32)
                \<or> (type = 1 \<and> type = wr_worktype n \<and> (wr_gid n = 0 \<or> gid = wr_gid n) \<and> strneq (wr_workname n) name 48))
       (ht_store t) (ht_bucket t (an_work_rule_t_get_hash name))"

definition an_work_rule_t_find_create_by_name_gid ::
  "u8 \<Rightarrow> string \<Rightarrow> u32 \<Rightarrow> addr option \<Rightarrow> work_tab \<Rightarrow> (work_tab \<times> addr option) res" where
  "an_work_rule_t_find_create_by_name_gid type name gid mem t =
     res_bind (an_work_rule_t_find_by_type_name_gid type name gid t) (\<lambda>r.
       case r of Some a \<Rightarrow> Inr (t, Some a) | None \<Rightarrow> Inr (an_work_rule_t_create mem t))"

text \<open>
  \<open>hlist_del\<close> writes through \<open>pprev\<close>, which is NULL for a created rule that is in no chain.
\<close>

definition an_work_rule_t_del :: "addr \<Rightarrow> work_tab \<Rightarrow> work_tab res" where
  "an_work_rule_t_del temp t =
     (if temp = NULL_p then Inr t
      else if ht_store t temp = None then Inl Use_After_Free
      else if temp \<notin> set (ht_list t) then Inl Null_Deref
      else Inr (ht_unlink temp t))"

fun work_del_loop :: "addr list \<Rightarrow> work_tab \<Rightarrow> work_tab res" where
  "work_del_loop [] t = Inr t"
| "work_del_loop (a # as) t = res_bind (an_work_rule_t_del a t) (work_del_loop as)"

definition an_work_rule_t_del_group :: "s32 \<Rightarrow> work_tab \<Rightarrow> work_tab res" where
  "an_work_rule_t_del_group gid t = res_bind (grp_index gid) (\<lambda>g. work_del_loop (ht_group t g) t)"

definition an_work_rule_t_clear :: "work_tab \<Rightarrow> work_tab res" where
  "an_work_rule_t_clear t = work_del_loop (ht_list t) t"

section \<open>Categories\<close>

abbreviation (input) LC_WARNING :: u32 where "LC_WARNING \<equiv> 1"
abbreviation (input) LC_FORBID :: u32 where "LC_FORBID \<equiv> 2"

abbreviation (input) OT_PROCESS_CREATE :: u32 where "OT_PROCESS_CREATE \<equiv> 100"
abbreviation (input) OT_PROCESS_ATTEMPT_CREATE :: u32 where "OT_PROCESS_ATTEMPT_CREATE \<equiv> 102"
abbreviation (input) OT_WINDOW_OPEN :: u32 where "OT_WINDOW_OPEN \<equiv> 150"
abbreviation (input) OT_WINDOW_CLOSE :: u32 where "OT_WINDOW_CLOSE \<equiv> 151"
abbreviation (input) OT_WINDOW_ATTEMPT_OPEN :: u32 where "OT_WINDOW_ATTEMPT_OPEN \<equiv> 152"
abbreviation (input) OT_FILE_CREATE :: u32 where "OT_FILE_CREATE \<equiv> 200"
abbreviation (input) OT_FILE_DELETE :: u32 where "OT_FILE_DELETE \<equiv> 203"
abbreviation (input) OT_FILE_ATTEMPT_CREATE_PROCESS :: u32 where "OT_FILE_ATTEMPT_CREATE_PROCESS \<equiv> 211"
abbreviation (input) OT_BROWSER_OPEN_URL :: u32 where "OT_BROWSER_OPEN_URL \<equiv> 300"
abbreviation (input) OT_BROWSER_CLOSE_URL :: u32 where "OT_BROWSER_CLOSE_URL \<equiv> 301"
abbreviation (input) OT_BROWSER_ATTEMPT_OPEN_URL :: u32 where "OT_BROWSER_ATTEMPT_OPEN_URL \<equiv> 305"

abbreviation (input) AN_CALC_ATTEMPT :: u32 where "AN_CALC_ATTEMPT \<equiv> 1"
abbreviation (input) AN_CALC_VIDEO :: u32 where "AN_CALC_VIDEO \<equiv> 2"
abbreviation (input) AN_CALC_CHAT :: u32 where "AN_CALC_CHAT \<equiv> 3"
abbreviation (input) AN_CALC_URL :: u32 where "AN_CALC_URL \<equiv> 4"
abbreviation (input) AN_CALC_WORK :: u32 where "AN_CALC_WORK \<equiv> 5"
abbreviation (input) AN_CALC_OTHER :: u32 where "AN_CALC_OTHER \<equiv> 6"

abbreviation (input) AN_DETAIL_ATTEMPT :: u32 where "AN_DETAIL_ATTEMPT \<equiv> 1"
abbreviation (input) AN_DETAIL_WORK :: u32 where "AN_DETAIL_WORK \<equiv> 2"
abbreviation (input) AN_DETAIL_URL_OPEN :: u32 where "AN_DETAIL_URL_OPEN \<equiv> 3"
abbreviation (input) AN_DETAIL_WINDOW_OPEN :: u32 where "AN_DETAIL_WINDOW_OPEN \<equiv> 4"
abbreviation (input) AN_DETAIL_PROCESS_RUN :: u32 where "AN_DETAIL_PROCESS_RUN \<equiv> 5"
abbreviation (input) AN_DETAIL_FILE_DEL :: u32 where "AN_DETAIL_FILE_DEL \<equiv> 6"
abbreviation (input) AN_DETAIL_FILE_CREATE :: u32 where "AN_DETAIL_FILE_CREATE \<equiv> 7"

record ww_action_list_st =
  al_act_name :: string
  al_pro_name :: string
  al_time :: u32
  al_type :: u32
  al_key_click :: u32
  al_mou_click :: u32
  al_category :: u32

text \<open>\<open>while (**ptr)\<close> over an array of names that an empty name ends.\<close>

fun in_name_table :: "string list \<Rightarrow> string \<Rightarrow> bool res" where
  "in_name_table [] name = Inl Out_Of_Bounds"
| "in_name_table (p # ps) name =
     (if p = [] then Inr False else if strcaseeq p name then Inr True else in_name_table ps name)"

definition work_check :: "string \<Rightarrow> string \<Rightarrow> u32 \<Rightarrow> work_tab \<Rightarrow> bool res" where
  "work_check process actname gid t =
     res_bind (an_work_rule_t_find_by_type_name_gid_all 0 process gid t) (\<lambda>r.
       case r of
         Some _ \<Rightarrow> Inr True
       | None \<Rightarrow> res_bind (an_work_rule_t_find_by_type_name_gid_all 1 actname gid t) (\<lambda>r. Inr (r \<noteq> None)))"

definition ww_get_category_by_ww_action_list_st ::
  "string list \<Rightarrow> string list \<Rightarrow> ww_action_list_st \<Rightarrow> u32 \<Rightarrow> work_tab \<Rightarrow> u32 res" where
  "ww_get_category_by_ww_action_list_st ww_chat_list ww_move_list act gid t =
     (if al_category act = LC_WARNING \<or> al_category act = LC_FORBID then Inr AN_CALC_ATTEMPT
      else res_bind (work_check (al_pro_name act) (al_act_name act) gid t) (\<lambda>w.
        if w then Inr AN_CALC_WORK
        else if al_type act = OT_BROWSER_OPEN_URL \<or> al_type act = OT_BROWSER_CLOSE_URL then Inr AN_CALC_URL
        else res_bind (in_name_table ww_chat_list (al_pro_name act)) (\<lambda>chat.
          if chat then Inr AN_CALC_CHAT
          else res_bind (in_name_table ww_move_list (al_pro_name act)) (\<lambda>video.
            if video then Inr AN_CALC_VIDEO else Inr AN_CALC_OTHER))))"

section \<open>Detail records\<close>

text \<open>
  A reported action: the numbers are in network byte order, \<open>data\<close> are the bytes behind the
  structure. A window action has a 4 byte header in front of its text, a browser action 12.
\<close>

record action_st =
  ac_start_time :: u64
  ac_end_time :: u64
  ac_type :: u32
  ac_category :: u32
  ac_pid :: u32
  ac_process :: string
  ac_data_len :: u32
  ac_key_click :: u32
  ac_mou_click :: u32
  ac_is_ciphertext :: u16
  ac_data :: string

record an_detail_act =
  da_time :: u64
  da_type :: u32
  da_category :: u32
  da_process :: string
  da_actname :: string

definition detail_zero :: an_detail_act where
  "detail_zero = \<lparr>da_time = 0, da_type = 0, da_category = 0, da_process = [], da_actname = []\<rparr>"

definition cstr_at :: "string \<Rightarrow> nat \<Rightarrow> string res" where
  "cstr_at buf i = (if CHR 0x00 \<in> set (drop i buf) then Inr (cstr_of (drop i buf)) else Inl Out_Of_Bounds)"

definition detail_type_category :: "u32 \<Rightarrow> u32" where
  "detail_type_category t =
     (if t \<in> {OT_PROCESS_ATTEMPT_CREATE, OT_WINDOW_ATTEMPT_OPEN, OT_BROWSER_ATTEMPT_OPEN_URL,
              OT_FILE_ATTEMPT_CREATE_PROCESS} then AN_DETAIL_ATTEMPT
      else if t = OT_BROWSER_OPEN_URL then AN_DETAIL_URL_OPEN
      else if t = OT_WINDOW_OPEN then AN_DETAIL_WINDOW_OPEN
      else if t = OT_PROCESS_CREATE then AN_DETAIL_PROCESS_RUN
      else if t = OT_FILE_CREATE then AN_DETAIL_FILE_CREATE
      else if t = OT_FILE_DELETE then AN_DETAIL_FILE_DEL
      else 0)"

definition detail_actname :: "u32 \<Rightarrow> action_st \<Rightarrow> string res" where
  "detail_actname t ua =
     (if OT_WINDOW_OPEN \<le> t \<and> t < OT_FILE_CREATE
        then res_bind (cstr_at (ac_data ua) 4) (\<lambda>s. Inr (snprintf_s 128 s))
      else if OT_BROWSER_OPEN_URL \<le> t \<and> t \<le> OT_BROWSER_ATTEMPT_OPEN_URL
        then res_bind (cstr_at (ac_data ua) 12) (\<lambda>s. Inr (snprintf_s 128 s))
      else if t = OT_FILE_ATTEMPT_CREATE_PROCESS then Inr []
      else if ac_data_len ua \<noteq> 0
        then res_bind (cstr_at (ac_data ua) 0) (\<lambda>s. Inr (snprintf_s 128 s))
      else Inr [])"

definition an_detail_act_t_create ::
  "addr option \<Rightarrow> (addr \<Rightarrow> an_detail_act option) \<Rightarrow> (addr \<Rightarrow> an_detail_act option) \<times> addr option" where
  "an_detail_act_t_create mem st =
     (case mem of None \<Rightarrow> (st, None) | Some a \<Rightarrow> (st(a \<mapsto> detail_zero), Some a))"

text \<open>The new record is the last of the list it is added to.\<close>

definition an_detail_act_t_create_to_list ::
  "addr option \<Rightarrow> addr list \<Rightarrow> (addr \<Rightarrow> an_detail_act option) \<Rightarrow> action_st \<Rightarrow> u32 \<Rightarrow> work_tab
   \<Rightarrow> (addr list \<times> (addr \<Rightarrow> an_detail_act option) \<times> addr option) res" where
  "an_detail_act_t_create_to_list mem lst st ua gid t =
     (let ty = bswap32 (ac_type ua) in
      case an_detail_act_t_create mem st of
        (st, None) \<Rightarrow> Inr (lst, st, None)
      | (st, Some a) \<Rightarrow>
          res_bind (detail_actname ty ua) (\<lambda>actname.
          let process = snprintf_s 32 (ac_process ua);
              category = detail_type_category ty;
              lc = bswap32 (ac_category ua);
              category = (if lc = LC_WARNING \<or> lc = LC_FORBID then AN_DETAIL_ATTEMPT else category)
          in res_bind (if category \<noteq> AN_DETAIL_ATTEMPT then work_check process actname gid t else Inr False) (\<lambda>w.
             Inr (lst @ [a],
                  st(a \<mapsto> \<lparr>da_time = GMT_REVERS_MASK - ntohll (ac_start_time ua), da_type = ty,
                           da_category = (if w then AN_DETAIL_WORK else category),
                           da_process = process, da_actname = actname\<rparr>),
                  Some a))))"

definition an_detail_act_t_del ::
  "addr \<Rightarrow> addr list \<Rightarrow> (addr \<Rightarrow> an_detail_act option) \<Rightarrow> (addr list \<times> (addr \<Rightarrow> an_detail_act option)) res" where
  "an_detail_act_t_del action lst st =
     (if action = NULL_p then Inr (lst, st)
      else if st action = None then Inl Use_After_Free
      else Inr (removeAll action lst, st(action := None)))"

section \<open>Lookup of work rules\<close>

text \<open>Where the receiving part of the program links a rule.\<close>

definition wr_hidx :: "an_work_rule \<Rightarrow> nat" where
  "wr_hidx n = an_work_rule_t_get_hash (if wr_worktype n = 0 then wr_process n else wr_workname n)"

definition wr_gidx :: "an_work_rule \<Rightarrow> nat" where
  "wr_gidx n = nat (sint (wr_gid n))"

abbreviation work_ok :: "work_tab \<Rightarrow> bool" where
  "work_ok \<equiv> ht_ok wr_hidx wr_gidx"

definition work_matches :: "u8 \<Rightarrow> string \<Rightarrow> an_work_rule \<Rightarrow> bool" where
  "work_matches type name n \<longleftrightarrow>
     wr_worktype n = type \<and> (type = 0 \<and> strneq (wr_process n) name 32 \<or> type = 1 \<and> strneq (wr_workname n) name 48)"

lemma work_matches_hash: "work_matches type name n \<Longrightarrow> wr_hidx n = an_work_rule_t_get_hash name"
  using name_hash_cong [of 32 "wr_process n" name] name_hash_cong [of 48 "wr_workname n" name]
  by (auto simp: work_matches_def wr_hidx_def strneq_def)

lemma work_scan:
  assumes "work_ok t"
  shows "\<exists>r. ht_scan (\<lambda>n. work_matches type name n \<and> Q (wr_gid n)) (ht_store t)
               (ht_bucket t (an_work_rule_t_get_hash name)) = Inr r
    \<and> (case r of None \<Rightarrow> \<not> (\<exists>n \<in> set (ht_vals t). work_matches type name n \<and> Q (wr_gid n))
       | Some a \<Rightarrow> a \<in> set (ht_list t) \<and> work_matches type name (the (ht_store t a)) \<and> Q (wr_gid (the (ht_store t a))))"
proof -
  let ?P = "\<lambda>n. work_matches type name n \<and> Q (wr_gid n)" and ?b = "an_work_rule_t_get_hash name"
  obtain r where r: "ht_scan ?P (ht_store t) (ht_bucket t ?b) = Inr r"
    using ht_scan_bucket(1) [OF assms] by blast
  from ht_scan_bucket_complete [OF assms _ r] work_matches_hash
  have "case r of None \<Rightarrow> (\<forall>n \<in> set (ht_vals t). \<not> ?P n)
     | Some a \<Rightarrow> a \<in> set (ht_bucket t ?b) \<and> a \<in> set (ht_list t) \<and> ?P (the (ht_store t a))" by blast
  with r show ?thesis by (auto split: option.splits)
qed

lemma work_find_all_eq:
  "an_work_rule_t_find_by_type_name_gid_all type name gid t
   = ht_scan (\<lambda>n. work_matches type name n \<and> (wr_gid n = 0 \<or> wr_gid n = gid)) (ht_store t)
       (ht_bucket t (an_work_rule_t_get_hash name))"
  unfolding an_work_rule_t_find_by_type_name_gid_all_def work_matches_def
  by (rule arg_cong [where f = "\<lambda>P. ht_scan P (ht_store t) (ht_bucket t (an_work_rule_t_get_hash name))"]) auto

lemma work_find_eq:
  "an_work_rule_t_find_by_type_name_gid type name gid t
   = ht_scan (\<lambda>n. work_matches type name n \<and> wr_gid n = gid) (ht_store t)
       (ht_bucket t (an_work_rule_t_get_hash name))"
  unfolding an_work_rule_t_find_by_type_name_gid_def work_matches_def
  by (rule arg_cong [where f = "\<lambda>P. ht_scan P (ht_store t) (ht_bucket t (an_work_rule_t_get_hash name))"]) auto

text \<open>Whether a work rule applies to a program and a page for the users of a group.\<close>

definition has_work_rule :: "string \<Rightarrow> string \<Rightarrow> u32 \<Rightarrow> work_tab \<Rightarrow> bool" where
  "has_work_rule process page gid t \<longleftrightarrow>
     (\<exists>n \<in> set (ht_vals t). (wr_gid n = 0 \<or> wr_gid n = gid) \<and> (work_matches 0 process n \<or> work_matches 1 page n))"

lemma work_check_ok:
  assumes "work_ok t"
  shows "work_check process page gid t = Inr (has_work_rule process page gid t)"
proof -
  have vals: "a \<in> set (ht_list t) \<Longrightarrow> the (ht_store t a) \<in> set (ht_vals t)" for a by (simp add: set_ht_vals)
  obtain r where r: "an_work_rule_t_find_by_type_name_gid_all 0 process gid t = Inr r"
    and cr: "case r of None \<Rightarrow> \<not> (\<exists>n \<in> set (ht_vals t). work_matches 0 process n \<and> (wr_gid n = 0 \<or> wr_gid n = gid))
       | Some a \<Rightarrow> a \<in> set (ht_list t) \<and> work_matches 0 process (the (ht_store t a)) \<and> (wr_gid (the (ht_store t a)) = 0 \<or> wr_gid (the (ht_store t a)) = gid)"
    using work_scan [OF assms, of 0 process "\<lambda>g. g = 0 \<or> g = gid"] unfolding work_find_all_eq by blast
  obtain q where q: "an_work_rule_t_find_by_type_name_gid_all 1 page gid t = Inr q"
    and cq: "case q of None \<Rightarrow> \<not> (\<exists>n \<in> set (ht_vals t). work_matches 1 page n \<and> (wr_gid n = 0 \<or> wr_gid n = gid))
       | Some a \<Rightarrow> a \<in> set (ht_list t) \<and> work_matches 1 page (the (ht_store t a)) \<and> (wr_gid (the (ht_store t a)) = 0 \<or> wr_gid (the (ht_store t a)) = gid)"
    using work_scan [OF assms, of 1 page "\<lambda>g. g = 0 \<or> g = gid"] unfolding work_find_all_eq by blast
  show ?thesis
  proof (cases r)
    case (Some a)
    then have "has_work_rule process page gid t" using cr vals unfolding has_work_rule_def by auto
    with Some r show ?thesis by (simp add: work_check_def)
  next
    case None
    then have "has_work_rule process page gid t \<longleftrightarrow> q \<noteq> None"
      using cr cq vals unfolding has_work_rule_def by (cases q) auto
    with None r q show ?thesis by (simp add: work_check_def)
  qed
qed

lemma work_del_loop_clear:
  assumes "work_ok t" "set as \<subseteq> set (ht_list t)" "distinct as"
  shows "work_del_loop as t = ht_clear as t"
  using assms
proof (induction as arbitrary: t)
  case Nil
  then show ?case by simp
next
  case (Cons a as)
  have a: "a \<in> set (ht_list t)" "a \<noteq> NULL_p" using Cons.prems by (auto simp: ht_ok_def)
  obtain n where "ht_store t a = Some n" using ht_ok_store [OF Cons.prems(1) a(1)] by blast
  moreover have "work_del_loop as (ht_unlink a t) = ht_clear as (ht_unlink a t)"
    using Cons.prems by (intro Cons.IH) (auto simp: ht_ok_unlink)
  ultimately show ?case using a by (simp add: an_work_rule_t_del_def)
qed

lemma in_name_table_ok:
  "[] \<in> set tab \<Longrightarrow> in_name_table tab name
     = Inr (\<exists>p \<in> set (takeWhile (\<lambda>p. p \<noteq> []) tab). strcaseeq p name)"
  by (induction tab) auto

section \<open>Properties of work rules and categories\<close>

text \<open>
  The table of work rules. On a consistent table both lookups return a rule of the asked kind
  whose name agrees with the given one in the compared prefix and that applies to the group (the
  second one also accepts rules for all groups), and return NULL only if the table has no such rule;
  deleting a group removes exactly its rules, clearing removes all, without touching freed memory.
\<close>

lemma work_rules_correct:
  assumes "work_ok t" "0 \<le> sint gid" "sint gid < 256"
  shows "(\<exists>r. an_work_rule_t_find_by_type_name_gid type name gid t = Inr r
           \<and> (case r of None \<Rightarrow> \<not> (\<exists>n \<in> set (ht_vals t). work_matches type name n \<and> wr_gid n = gid)
              | Some a \<Rightarrow> a \<in> set (ht_list t) \<and> work_matches type name (the (ht_store t a)) \<and> wr_gid (the (ht_store t a)) = gid))
       \<and> (\<exists>r. an_work_rule_t_find_by_type_name_gid_all type name gid t = Inr r
           \<and> (case r of None \<Rightarrow> \<not> (\<exists>n \<in> set (ht_vals t). work_matches type name n \<and> (wr_gid n = 0 \<or> wr_gid n = gid))
              | Some a \<Rightarrow> a \<in> set (ht_list t) \<and> work_matches type name (the (ht_store t a))
                         \<and> (wr_gid (the (ht_store t a)) = 0 \<or> wr_gid (the (ht_store t a)) = gid)))
       \<and> (\<exists>t'. an_work_rule_t_del_group gid t = Inr t' \<and> work_ok t'
            \<and> ht_vals t' = filter (\<lambda>n. wr_gidx n \<noteq> nat (sint gid)) (ht_vals t))
       \<and> (\<exists>t'. an_work_rule_t_clear t = Inr t' \<and> work_ok t' \<and> ht_vals t' = [])"
proof (intro conjI)
  show "\<exists>r. an_work_rule_t_find_by_type_name_gid type name gid t = Inr r
           \<and> (case r of None \<Rightarrow> \<not> (\<exists>n \<in> set (ht_vals t). work_matches type name n \<and> wr_gid n = gid)
              | Some a \<Rightarrow> a \<in> set (ht_list t) \<and> work_matches type name (the (ht_store t a)) \<and> wr_gid (the (ht_store t a)) = gid)"
    unfolding work_find_eq by (rule work_scan [OF assms(1), of type name "\<lambda>g. g = gid"])
  show "\<exists>r. an_work_rule_t_find_by_type_name_gid_all type name gid t = Inr r
           \<and> (case r of None \<Rightarrow> \<not> (\<exists>n \<in> set (ht_vals t). work_matches type name n \<and> (wr_gid n = 0 \<or> wr_gid n = gid))
              | Some a \<Rightarrow> a \<in> set (ht_list t) \<and> work_matches type name (the (ht_store t a))
                         \<and> (wr_gid (the (ht_store t a)) = 0 \<or> wr_gid (the (ht_store t a)) = gid))"
    unfolding work_find_all_eq by (rule work_scan [OF assms(1), of type name "\<lambda>g. g = 0 \<or> g = gid"])
  have g: "distinct (ht_group t (nat (sint gid)))" "set (ht_group t (nat (sint gid))) \<subseteq> set (ht_list t)"
    "distinct (ht_list t)" using assms(1) by (auto simp: ht_ok_def)
  show "\<exists>t'. an_work_rule_t_del_group gid t = Inr t' \<and> work_ok t'
            \<and> ht_vals t' = filter (\<lambda>n. wr_gidx n \<noteq> nat (sint gid)) (ht_vals t)"
    using ht_clear_group [OF assms(1), of "nat (sint gid)"] work_del_loop_clear [OF assms(1) g(2,1)] assms(2,3)
    by (simp add: an_work_rule_t_del_group_def grp_index_def)
  show "\<exists>t'. an_work_rule_t_clear t = Inr t' \<and> work_ok t' \<and> ht_vals t' = []"
    using ht_clear_all [OF assms(1)] work_del_loop_clear [OF assms(1) order.refl g(3)]
    by (auto simp: an_work_rule_t_clear_def)
qed

definition one_rule :: work_tab where
  "one_rule = ht_link (an_work_rule_t_get_hash ''word.exe'') 2 7
     \<lparr>wr_workname = [], wr_process = ''word.exe'', wr_gid = 2, wr_worktype = 0\<rparr> ht_empty"

lemma work_ok_one_rule [simp]: "work_ok one_rule"
  unfolding one_rule_def by (rule ht_ok_link) (simp_all add: wr_hidx_def wr_gidx_def)

lemma one_rule_vals: "\<forall>n \<in> set (ht_vals one_rule). wr_gidx n = 2"
  by (simp add: one_rule_def ht_vals_def wr_gidx_def)

lemma work_rules_correct_witness:
  "\<exists>t'. an_work_rule_t_del_group 2 one_rule = Inr t' \<and> work_ok t' \<and> ht_vals t' = []"
  using work_rules_correct [of one_rule 2 0 "''word.exe''"] one_rule_vals by auto

text \<open>
  C26: classification. A warning or a forbidden action is a violation whatever the rules say; a work
  rule decides next; only then the type of the action or the program tables do. The detail record of
  an action is built the same way, is appended to the list, carries the reversed start time and has
  texts that fit their fields.
\<close>

theorem category_priority:
  assumes "work_ok t" "[] \<in> set chat" "[] \<in> set video"
  shows "ww_get_category_by_ww_action_list_st chat video act gid t =
      Inr (if al_category act \<in> {1, 2} then AN_CALC_ATTEMPT
           else if has_work_rule (al_pro_name act) (al_act_name act) gid t then AN_CALC_WORK
           else if al_type act \<in> {300, 301} then AN_CALC_URL
           else if \<exists>p \<in> set (takeWhile (\<lambda>p. p \<noteq> []) chat). strcaseeq p (al_pro_name act) then AN_CALC_CHAT
           else if \<exists>p \<in> set (takeWhile (\<lambda>p. p \<noteq> []) video). strcaseeq p (al_pro_name act) then AN_CALC_VIDEO
           else AN_CALC_OTHER)
    \<and> (\<forall>a lst st ua actname. detail_actname (bswap32 (ac_type ua)) ua = Inr actname \<longrightarrow>
        (\<exists>d. an_detail_act_t_create_to_list (Some a) lst st ua gid t = Inr (lst @ [a], st(a \<mapsto> d), Some a)
          \<and> da_category d =
              (if bswap32 (ac_category ua) \<in> {1, 2} \<or> bswap32 (ac_type ua) \<in> {102, 152, 211, 305} then AN_DETAIL_ATTEMPT
               else if has_work_rule (da_process d) (da_actname d) gid t then AN_DETAIL_WORK
               else detail_type_category (bswap32 (ac_type ua)))
          \<and> da_time d = GMT_REVERS_MASK - ntohll (ac_start_time ua) \<and> da_type d = bswap32 (ac_type ua)
          \<and> da_process d = take 31 (ac_process ua) \<and> length (da_process d) < 32
          \<and> da_actname d = actname \<and> length (da_actname d) < 128))"
proof (intro conjI allI impI)
  note wc = work_check_ok [OF assms(1)]
  show "ww_get_category_by_ww_action_list_st chat video act gid t =
      Inr (if al_category act \<in> {1, 2} then AN_CALC_ATTEMPT
           else if has_work_rule (al_pro_name act) (al_act_name act) gid t then AN_CALC_WORK
           else if al_type act \<in> {300, 301} then AN_CALC_URL
           else if \<exists>p \<in> set (takeWhile (\<lambda>p. p \<noteq> []) chat). strcaseeq p (al_pro_name act) then AN_CALC_CHAT
           else if \<exists>p \<in> set (takeWhile (\<lambda>p. p \<noteq> []) video). strcaseeq p (al_pro_name act) then AN_CALC_VIDEO
           else AN_CALC_OTHER)"
    unfolding ww_get_category_by_ww_action_list_st_def wc in_name_table_ok [OF assms(2)] in_name_table_ok [OF assms(3)]
    by simp
  fix a lst st ua actname
  assume n: "detail_actname (bswap32 (ac_type ua)) ua = Inr actname"
  then have len: "length actname < 128" by (auto simp: detail_actname_def snprintf_s_def split: if_splits)
  let ?att = "bswap32 (ac_category ua) \<in> {1, 2} \<or> bswap32 (ac_type ua) \<in> {102, 152, 211, 305}"
  let ?d = "\<lparr>da_time = GMT_REVERS_MASK - ntohll (ac_start_time ua), da_type = bswap32 (ac_type ua),
      da_category = (if ?att then AN_DETAIL_ATTEMPT else if has_work_rule (take 31 (ac_process ua)) actname gid t
         then AN_DETAIL_WORK else detail_type_category (bswap32 (ac_type ua))),
      da_process = take 31 (ac_process ua), da_actname = actname\<rparr>"
  define cat where "cat = (if bswap32 (ac_category ua) = 1 \<or> bswap32 (ac_category ua) = 2 then AN_DETAIL_ATTEMPT
      else detail_type_category (bswap32 (ac_type ua)))"
  have att: "cat = AN_DETAIL_ATTEMPT \<longleftrightarrow> ?att" "\<not> ?att \<Longrightarrow> cat = detail_type_category (bswap32 (ac_type ua))"
    by (auto simp: cat_def detail_type_category_def)
  have e: "an_detail_act_t_create_to_list (Some a) lst st ua gid t =
      res_bind (if cat \<noteq> AN_DETAIL_ATTEMPT then work_check (take 31 (ac_process ua)) actname gid t else Inr False) (\<lambda>w.
        Inr (lst @ [a], st(a \<mapsto> ?d\<lparr>da_category := (if w then AN_DETAIL_WORK else cat)\<rparr>), Some a))"
    unfolding an_detail_act_t_create_to_list_def Let_def n cat_def
    by (simp add: an_detail_act_t_create_def snprintf_s_def)
  have "an_detail_act_t_create_to_list (Some a) lst st ua gid t = Inr (lst @ [a], st(a \<mapsto> ?d), Some a)"
  proof (cases ?att)
    case True
    with att(1) have "cat = AN_DETAIL_ATTEMPT" by blast
    with e True show ?thesis by simp
  next
    case False
    with att have "cat \<noteq> AN_DETAIL_ATTEMPT" "cat = detail_type_category (bswap32 (ac_type ua))" by blast+
    with e False show ?thesis by (simp add: wc)
  qed
  with len show "\<exists>d. an_detail_act_t_create_to_list (Some a) lst st ua gid t = Inr (lst @ [a], st(a \<mapsto> d), Some a)
          \<and> da_category d =
              (if ?att then AN_DETAIL_ATTEMPT
               else if has_work_rule (da_process d) (da_actname d) gid t then AN_DETAIL_WORK
               else detail_type_category (bswap32 (ac_type ua)))
          \<and> da_time d = GMT_REVERS_MASK - ntohll (ac_start_time ua) \<and> da_type d = bswap32 (ac_type ua)
          \<and> da_process d = take 31 (ac_process ua) \<and> length (da_process d) < 32
          \<and> da_actname d = actname \<and> length (da_actname d) < 128"
    by (intro exI [of _ ?d]) (simp add: min_less_iff_disj)
qed

theorem category_priority_witness:
  "ww_get_category_by_ww_action_list_st [''qq.exe'', []] [[]]
     \<lparr>al_act_name = ''x'', al_pro_name = ''word.exe'', al_time = 1, al_type = 151, al_key_click = 0,
      al_mou_click = 0, al_category = 1\<rparr> 2 one_rule = Inr AN_CALC_ATTEMPT"
  using category_priority [of one_rule "[''qq.exe'', []]" "[[]]"] by simp

end
