(* ===== verification/Hash_Users.thy ===== *)
theory Hash_Users
  imports Hash_Ids Hash_Work
begin

text \<open>
  The per-user tables of \<^verbatim>\<open>TCP_C/hash.c\<close>: statistics (\<open>ww_user_action_*\<close>, \<open>ww_action_st_*\<close>),
  detail records (\<open>an_detail_user_t_*\<close>) and QQ chats (\<open>an_qq_user_t_*\<close>, \<open>an_qq_obj_t_*\<close>,
  \<open>an_qq_msg_t_*\<close>). A user owns further nodes: its actions, its records, its chat partners
  and their messages.

  The locale \<open>owner_table\<close> states what deleting a user must do: unlink the user, free exactly
  what it owns and leave what other users own alone. Deleting a whole group or everything is
  proved correct once for such tables; all three tables are instances.

  Shown: no double free and no use after free in any deletion, nothing is leaked, lookups
  return the user with that id.
\<close>

section \<open>Tables whose nodes own other nodes\<close>

text \<open>The loop of the group and clear functions: the next pointer is read before the deletion.\<close>

fun del_each :: "(addr \<Rightarrow> 'x \<Rightarrow> 'x res) \<Rightarrow> addr list \<Rightarrow> 'x \<Rightarrow> 'x res" where
  "del_each d [] x = Inr x"
| "del_each d (a # as) x = res_bind (d a x) (del_each d as)"

text \<open>\<open>while (pos != head)\<close> with \<open>list_del\<close> and \<open>wys_free\<close> of every node of a list.\<close>

fun free_each :: "addr list \<Rightarrow> (addr \<Rightarrow> 'c option) \<Rightarrow> (addr \<Rightarrow> 'c option) res" where
  "free_each [] st = Inr st"
| "free_each (a # as) st = (if st a = None then Inl Use_After_Free else free_each as (st(a := None)))"

lemma free_each_ok:
  "distinct as \<Longrightarrow> set as \<subseteq> dom st \<Longrightarrow> free_each as st = Inr (st |` (- set as))"
proof (induction as arbitrary: st)
  case Nil
  then show ?case by simp
next
  case (Cons a as)
  then have "free_each as (st(a := None)) = Inr ((st(a := None)) |` (- set as))" by (intro Cons.IH) auto
  moreover have "(st(a := None)) |` (- set as) = st |` (- set (a # as))" by (auto simp: restrict_map_def)
  ultimately show ?case using Cons.prems by auto
qed

locale owner_table =
  fixes hi gi :: "'u \<Rightarrow> nat"
    and del :: "addr \<Rightarrow> 'u htab \<times> 's \<Rightarrow> ('u htab \<times> 's) res"
    and valid :: "'s \<Rightarrow> 'u \<Rightarrow> bool"
    and owned :: "'s \<Rightarrow> 'u \<Rightarrow> 'k set"
    and alloc :: "'s \<Rightarrow> 'k set"
  assumes del_owner:
    "ht_ok hi gi t \<Longrightarrow> a \<in> set (ht_list t) \<Longrightarrow> ht_store t a = Some u \<Longrightarrow> valid s u
     \<Longrightarrow> \<exists>s'. del a (t, s) = Inr (ht_unlink a t, s') \<and> alloc s' = alloc s - owned s u
          \<and> (\<forall>v. valid s v \<longrightarrow> owned s u \<inter> owned s v = {} \<longrightarrow> valid s' v \<and> owned s' v = owned s v)"
begin

definition owners_ok :: "'u htab \<times> 's \<Rightarrow> bool" where
  "owners_ok x \<longleftrightarrow> ht_ok hi gi (fst x)
     \<and> (\<forall>n \<in> set (ht_vals (fst x)). valid (snd x) n)
     \<and> (\<forall>a \<in> set (ht_list (fst x)). \<forall>b \<in> set (ht_list (fst x)). a \<noteq> b \<longrightarrow>
          owned (snd x) (the (ht_store (fst x) a)) \<inter> owned (snd x) (the (ht_store (fst x) b)) = {})"

lemma owners_valid: "owners_ok (t, s) \<Longrightarrow> a \<in> set (ht_list t) \<Longrightarrow> valid s (the (ht_store t a))"
  by (auto simp: owners_ok_def set_ht_vals)

lemma del_one:
  assumes ok: "owners_ok (t, s)" and a: "a \<in> set (ht_list t)"
  shows "\<exists>s'. del a (t, s) = Inr (ht_unlink a t, s') \<and> owners_ok (ht_unlink a t, s')
     \<and> alloc s' = alloc s - owned s (the (ht_store t a))
     \<and> (\<forall>c \<in> set (ht_list t). c \<noteq> a \<longrightarrow> owned s' (the (ht_store t c)) = owned s (the (ht_store t c)))"
proof -
  have tab: "ht_ok hi gi t" using ok by (simp add: owners_ok_def)
  obtain u where u: "ht_store t a = Some u" using ht_ok_store [OF tab a] by blast
  have v: "valid s u" using owners_valid [OF ok a] u by simp
  from del_owner [OF tab a u v] obtain s' where s': "del a (t, s) = Inr (ht_unlink a t, s')"
    "alloc s' = alloc s - owned s u"
    "\<forall>v. valid s v \<longrightarrow> owned s u \<inter> owned s v = {} \<longrightarrow> valid s' v \<and> owned s' v = owned s v" by blast
  have dj: "owned s u \<inter> owned s (the (ht_store t c)) = {}" if "c \<in> set (ht_list t)" "c \<noteq> a" for c
    using ok a that u unfolding owners_ok_def by (metis fst_conv snd_conv option.sel)
  have keep: "valid s' (the (ht_store t c)) \<and> owned s' (the (ht_store t c)) = owned s (the (ht_store t c))"
    if "c \<in> set (ht_list t)" "c \<noteq> a" for c
    using s'(3) dj [OF that] owners_valid [OF ok that(1)] by blast
  have "owners_ok (ht_unlink a t, s')"
    unfolding owners_ok_def fst_conv snd_conv
  proof (intro conjI ballI impI)
    show "ht_ok hi gi (ht_unlink a t)" using tab by (rule ht_ok_unlink)
    show "valid s' n" if "n \<in> set (ht_vals (ht_unlink a t))" for n
      using that keep by (auto simp: ht_vals_unlink)
    fix c d assume cd: "c \<in> set (ht_list (ht_unlink a t))" "d \<in> set (ht_list (ht_unlink a t))" "c \<noteq> d"
    then have "c \<in> set (ht_list t)" "c \<noteq> a" "d \<in> set (ht_list t)" "d \<noteq> a" by auto
    moreover from this cd(3) ok have "owned s (the (ht_store t c)) \<inter> owned s (the (ht_store t d)) = {}"
      by (simp add: owners_ok_def)
    ultimately show "owned s' (the (ht_store (ht_unlink a t) c)) \<inter> owned s' (the (ht_store (ht_unlink a t) d)) = {}"
      using keep by simp
  qed
  with s' u keep show ?thesis by auto
qed

lemma del_each_ok:
  assumes "owners_ok (t, s)" "distinct as" "set as \<subseteq> set (ht_list t)"
  shows "\<exists>s'. del_each del as (t, s) = Inr (fold ht_unlink as t, s') \<and> owners_ok (fold ht_unlink as t, s')
     \<and> alloc s' = alloc s - (\<Union>a \<in> set as. owned s (the (ht_store t a)))"
  using assms
proof (induction as arbitrary: t s)
  case Nil
  then show ?case by simp
next
  case (Cons a as)
  from del_one [OF Cons.prems(1), of a] Cons.prems(3) obtain s1 where
    s1: "del a (t, s) = Inr (ht_unlink a t, s1)" "owners_ok (ht_unlink a t, s1)"
    "alloc s1 = alloc s - owned s (the (ht_store t a))"
    "\<forall>c \<in> set (ht_list t). c \<noteq> a \<longrightarrow> owned s1 (the (ht_store t c)) = owned s (the (ht_store t c))" by auto
  have "distinct as" "set as \<subseteq> set (ht_list (ht_unlink a t))" using Cons.prems by auto
  from Cons.IH [OF s1(2) this] obtain s2 where
    s2: "del_each del as (ht_unlink a t, s1) = Inr (fold ht_unlink as (ht_unlink a t), s2)"
    "owners_ok (fold ht_unlink as (ht_unlink a t), s2)"
    "alloc s2 = alloc s1 - (\<Union>c \<in> set as. owned s1 (the (ht_store (ht_unlink a t) c)))" by blast
  have "(\<Union>c \<in> set as. owned s1 (the (ht_store (ht_unlink a t) c))) = (\<Union>c \<in> set as. owned s (the (ht_store t c)))"
    using s1(4) Cons.prems(2,3) by (intro SUP_cong) auto
  with s1 s2 show ?case by auto
qed

lemma del_all_ok:
  assumes "owners_ok (t, s)"
  shows "\<exists>t' s'. del_each del (ht_list t) (t, s) = Inr (t', s') \<and> owners_ok (t', s') \<and> ht_vals t' = []
     \<and> alloc s' = alloc s - (\<Union>n \<in> set (ht_vals t). owned s n)"
proof -
  have tab: "ht_ok hi gi t" and d: "distinct (ht_list t)" using assms by (auto simp: owners_ok_def ht_ok_def)
  from del_each_ok [OF assms d order.refl] obtain s' where
    s': "del_each del (ht_list t) (t, s) = Inr (fold ht_unlink (ht_list t) t, s')"
    "owners_ok (fold ht_unlink (ht_list t) t, s')"
    "alloc s' = alloc s - (\<Union>a \<in> set (ht_list t). owned s (the (ht_store t a)))" by blast
  have "ht_list (fold ht_unlink (ht_list t) t) = []" using ht_clear_ok(3) [OF tab order.refl d] by simp
  then have "ht_vals (fold ht_unlink (ht_list t) t) = []" by (simp add: ht_vals_def)
  with s' show ?thesis by (auto simp: set_ht_vals)
qed

lemma del_group_ok:
  assumes "owners_ok (t, s)"
  shows "\<exists>t' s'. del_each del (ht_group t g) (t, s) = Inr (t', s') \<and> owners_ok (t', s')
     \<and> ht_vals t' = filter (\<lambda>n. gi n \<noteq> g) (ht_vals t)
     \<and> alloc s' = alloc s - (\<Union>n \<in> {n \<in> set (ht_vals t). gi n = g}. owned s n)"
proof -
  have tab: "ht_ok hi gi t" using assms by (simp add: owners_ok_def)
  have d: "distinct (ht_group t g)" "set (ht_group t g) \<subseteq> set (ht_list t)" using tab by (auto simp: ht_ok_def)
  from del_each_ok [OF assms d] obtain s' where
    s': "del_each del (ht_group t g) (t, s) = Inr (fold ht_unlink (ht_group t g) t, s')"
    "owners_ok (fold ht_unlink (ht_group t g) t, s')"
    "alloc s' = alloc s - (\<Union>a \<in> set (ht_group t g). owned s (the (ht_store t a)))" by blast
  have "ht_clear (ht_group t g) t = Inr (fold ht_unlink (ht_group t g) t)" by (rule ht_clear_ok(1) [OF tab d(2,1)])
  then have "ht_vals (fold ht_unlink (ht_group t g) t) = filter (\<lambda>n. gi n \<noteq> g) (ht_vals t)"
    using ht_clear_group [OF tab, of g] by auto
  moreover have "(\<Union>a \<in> set (ht_group t g). owned s (the (ht_store t a))) = (\<Union>n \<in> {n \<in> set (ht_vals t). gi n = g}. owned s n)"
    using tab by (auto simp: ht_ok_group set_ht_vals)
  ultimately show ?thesis using s' by auto
qed

end

section \<open>Statistics per user\<close>

record ww_user_action_st =
  ua_user_id :: s32
  ua_group_id :: s32
  ua_start_time :: u64
  ua_end_time :: u64
  ua_day_time :: u64
  ua_action_list :: "addr list"
  ua_action_hash_table :: "nat \<Rightarrow> addr list"

definition user_zero :: ww_user_action_st where
  "user_zero = \<lparr>ua_user_id = 0, ua_group_id = 0, ua_start_time = 0, ua_end_time = 0, ua_day_time = 0,
     ua_action_list = [], ua_action_hash_table = (\<lambda>_. [])\<rparr>"

text \<open>The action nodes and \<open>auto_save_user_group_list\<close>, whose nodes are in no other list.\<close>

record stat_state =
  ss_acts :: "addr \<Rightarrow> ww_action_list_st option"
  ss_groups :: "addr list"

type_synonym user_tab = "ww_user_action_st htab \<times> stat_state"

definition ww_user_action_st_get_hash :: "s32 \<Rightarrow> nat" where
  "ww_user_action_st_get_hash user_id = byte_sum_hash user_id"

definition ww_user_action_st_create :: "addr option \<Rightarrow> user_tab \<Rightarrow> user_tab \<times> addr option" where
  "ww_user_action_st_create mem x =
     (case mem of
        None \<Rightarrow> (x, None)
      | Some a \<Rightarrow> (((fst x)\<lparr>ht_store := (ht_store (fst x))(a \<mapsto> user_zero)\<rparr>, snd x), Some a))"

definition ww_user_action_find_by_id :: "u32 \<Rightarrow> user_tab \<Rightarrow> addr option res" where
  "ww_user_action_find_by_id user_id x =
     (if user_id = 0 \<or> user_id = 0xffffffff then Inr None
      else ht_scan (\<lambda>n. ua_user_id n = user_id) (ht_store (fst x))
             (ht_bucket (fst x) (ww_user_action_st_get_hash user_id)))"

definition ww_user_action_id_find_create :: "u32 \<Rightarrow> addr option \<Rightarrow> user_tab \<Rightarrow> (user_tab \<times> addr option) res" where
  "ww_user_action_id_find_create user_id mem x =
     (if user_id = 0 \<or> user_id = 0xffffffff then Inr (x, None)
      else res_bind (ww_user_action_find_by_id user_id x) (\<lambda>r.
        case r of Some a \<Rightarrow> Inr (x, Some a) | None \<Rightarrow> Inr (ww_user_action_st_create mem x)))"

definition ww_user_action_find_by_gid :: "u32 \<Rightarrow> user_tab \<Rightarrow> addr option res" where
  "ww_user_action_find_by_gid group_id x =
     ht_scan (\<lambda>n. ua_group_id n = group_id) (ht_store (fst x)) (ss_groups (snd x))"

definition ww_user_action_gid_find_create :: "u32 \<Rightarrow> addr option \<Rightarrow> user_tab \<Rightarrow> (user_tab \<times> addr option) res" where
  "ww_user_action_gid_find_create group_id mem x =
     res_bind (ww_user_action_find_by_gid group_id x) (\<lambda>r.
       case r of Some a \<Rightarrow> Inr (x, Some a) | None \<Rightarrow> Inr (ww_user_action_st_create mem x))"

text \<open>
  \<open>ww_user_action_list_del\<close> uses \<open>hlist_del\<close>, which needs every node to be in a chain of the
  table that goes with the list.
\<close>

fun ww_user_action_list_del ::
  "addr list \<Rightarrow> (nat \<Rightarrow> addr list) \<Rightarrow> (addr \<Rightarrow> ww_action_list_st option)
   \<Rightarrow> ((nat \<Rightarrow> addr list) \<times> (addr \<Rightarrow> ww_action_list_st option)) res" where
  "ww_user_action_list_del [] ch st = Inr (ch, st)"
| "ww_user_action_list_del (a # as) ch st =
     (if st a = None then Inl Use_After_Free
      else if \<forall>b \<in> set [0..<256]. a \<notin> set (ch b) then Inl Null_Deref
      else ww_user_action_list_del as (\<lambda>b. removeAll a (ch b)) (st(a := None)))"

text \<open>
  The \<open>_init\<close> variants are no-ops on nodes that are in no list, so this works for the nodes of
  \<open>auto_save_user_group_list\<close> too.
\<close>

definition ww_user_action_st_del :: "addr \<Rightarrow> user_tab \<Rightarrow> user_tab res" where
  "ww_user_action_st_del user x =
     (case ht_store (fst x) user of
        None \<Rightarrow> Inl Use_After_Free
      | Some u \<Rightarrow> res_bind (free_each (ua_action_list u) (ss_acts (snd x))) (\<lambda>acts.
          Inr (ht_unlink user (fst x),
               (snd x)\<lparr>ss_acts := acts, ss_groups := removeAll user (ss_groups (snd x))\<rparr>)))"

definition ww_user_action_st_del_group :: "s32 \<Rightarrow> user_tab \<Rightarrow> user_tab res" where
  "ww_user_action_st_del_group gid x =
     res_bind (grp_index gid) (\<lambda>g. del_each ww_user_action_st_del (ht_group (fst x) g) x)"

definition ww_user_action_st_clear :: "user_tab \<Rightarrow> user_tab res" where
  "ww_user_action_st_clear x = del_each ww_user_action_st_del (ht_list (fst x)) x"

definition ww_user_action_st_group_clear :: "user_tab \<Rightarrow> user_tab res" where
  "ww_user_action_st_group_clear x = del_each ww_user_action_st_del (ss_groups (snd x)) x"

subsection \<open>The actions of a user\<close>

definition action_zero :: ww_action_list_st where
  "action_zero = \<lparr>al_act_name = [], al_pro_name = [], al_time = 0, al_type = 0, al_key_click = 0,
     al_mou_click = 0, al_category = 0\<rparr>"

definition ww_action_st_create ::
  "addr option \<Rightarrow> (addr \<Rightarrow> ww_action_list_st option) \<Rightarrow> (addr \<Rightarrow> ww_action_list_st option) \<times> addr option" where
  "ww_action_st_create mem st =
     (case mem of None \<Rightarrow> (st, None) | Some a \<Rightarrow> (st(a \<mapsto> action_zero), Some a))"

definition ww_action_st_find_by_hash_name_type ::
  "(nat \<Rightarrow> addr list) \<Rightarrow> string \<Rightarrow> u32 \<Rightarrow> (addr \<Rightarrow> ww_action_list_st option) \<Rightarrow> addr option res" where
  "ww_action_st_find_by_hash_name_type hash_list name type st =
     ht_scan (\<lambda>n. (type = OT_BROWSER_CLOSE_URL \<and> al_act_name n = name)
                \<or> (type = OT_WINDOW_CLOSE \<and> al_pro_name n = name))
       st (hash_list (ww_action_name_hash name))"

definition ww_action_st_hash_name_type_find_create ::
  "(nat \<Rightarrow> addr list) \<Rightarrow> string \<Rightarrow> string \<Rightarrow> u32 \<Rightarrow> addr option \<Rightarrow> (addr \<Rightarrow> ww_action_list_st option)
   \<Rightarrow> ((addr \<Rightarrow> ww_action_list_st option) \<times> addr option) res" where
  "ww_action_st_hash_name_type_find_create hash_list pro_name act_name type mem st =
     (if type \<noteq> OT_WINDOW_CLOSE \<and> type \<noteq> OT_BROWSER_CLOSE_URL then Inr (st, None)
      else res_bind (ww_action_st_find_by_hash_name_type hash_list
                       (if type = OT_WINDOW_CLOSE then pro_name else act_name) type st) (\<lambda>r.
        case r of Some a \<Rightarrow> Inr (st, Some a) | None \<Rightarrow> Inr (ww_action_st_create mem st)))"

text \<open>Categories agree when they are equal or when both are not 0.\<close>

definition ww_action_st_find_by_user_name_type ::
  "ww_user_action_st option \<Rightarrow> string \<Rightarrow> u32 \<Rightarrow> u32 \<Rightarrow> (addr \<Rightarrow> ww_action_list_st option) \<Rightarrow> addr option res" where
  "ww_action_st_find_by_user_name_type user name type category st =
     (case user of
        None \<Rightarrow> Inr None
      | Some u \<Rightarrow>
          ht_scan (\<lambda>n. (type = OT_BROWSER_CLOSE_URL \<and> al_act_name n = name
                        \<and> (al_category n = category \<or> al_category n \<noteq> 0 \<and> category \<noteq> 0))
                     \<or> (type = OT_WINDOW_CLOSE \<and> al_pro_name n = name
                        \<and> (al_category n = category \<or> al_category n \<noteq> 0 \<and> category \<noteq> 0)))
            st (ua_action_hash_table u (ww_action_name_hash name)))"

definition ww_action_st_user_name_type_find_create ::
  "ww_user_action_st option \<Rightarrow> string \<Rightarrow> string \<Rightarrow> u32 \<Rightarrow> u32 \<Rightarrow> addr option
   \<Rightarrow> (addr \<Rightarrow> ww_action_list_st option) \<Rightarrow> ((addr \<Rightarrow> ww_action_list_st option) \<times> addr option) res" where
  "ww_action_st_user_name_type_find_create user pro_name act_name type category mem st =
     (if user = None then Inr (st, None)
      else if type \<noteq> OT_WINDOW_CLOSE \<and> type \<noteq> OT_BROWSER_CLOSE_URL then Inr (st, None)
      else res_bind (ww_action_st_find_by_user_name_type user
                       (if type = OT_WINDOW_CLOSE then pro_name else act_name) type category st) (\<lambda>r.
        case r of Some a \<Rightarrow> Inr (st, Some a) | None \<Rightarrow> Inr (ww_action_st_create mem st)))"

section \<open>Detail records per user\<close>

record an_detail_user =
  du_uid :: s32
  du_gid :: s32
  du_start_time :: u64
  du_end_time :: u64
  du_action_list :: "addr list"

definition detail_user_zero :: an_detail_user where
  "detail_user_zero = \<lparr>du_uid = 0, du_gid = 0, du_start_time = 0, du_end_time = 0, du_action_list = []\<rparr>"

type_synonym detail_tab = "an_detail_user htab \<times> (addr \<Rightarrow> an_detail_act option)"

definition an_detail_user_t_get_hash :: "u32 \<Rightarrow> nat" where
  "an_detail_user_t_get_hash uid = byte_sum_hash uid"

definition an_detail_user_t_create :: "addr option \<Rightarrow> detail_tab \<Rightarrow> detail_tab \<times> addr option" where
  "an_detail_user_t_create mem x =
     (case mem of
        None \<Rightarrow> (x, None)
      | Some a \<Rightarrow> (((fst x)\<lparr>ht_store := (ht_store (fst x))(a \<mapsto> detail_user_zero)\<rparr>, snd x), Some a))"

definition an_detail_user_t_find_by_uid :: "u32 \<Rightarrow> detail_tab \<Rightarrow> addr option res" where
  "an_detail_user_t_find_by_uid uid x =
     (if uid = 0 \<or> uid = 0xffffffff then Inr None
      else ht_scan (\<lambda>n. du_uid n = uid) (ht_store (fst x)) (ht_bucket (fst x) (an_detail_user_t_get_hash uid)))"

definition an_detail_user_t_find_create_by_uid :: "u32 \<Rightarrow> addr option \<Rightarrow> detail_tab \<Rightarrow> (detail_tab \<times> addr option) res" where
  "an_detail_user_t_find_create_by_uid uid mem x =
     res_bind (an_detail_user_t_find_by_uid uid x) (\<lambda>r.
       case r of Some a \<Rightarrow> Inr (x, Some a) | None \<Rightarrow> Inr (an_detail_user_t_create mem x))"

text \<open>\<open>hlist_del\<close> on a user that was never linked writes through a NULL \<open>pprev\<close>.\<close>

definition an_detail_user_t_del :: "addr \<Rightarrow> detail_tab \<Rightarrow> detail_tab res" where
  "an_detail_user_t_del temp x =
     (if temp = NULL_p then Inr x
      else case ht_store (fst x) temp of
        None \<Rightarrow> Inl Use_After_Free
      | Some u \<Rightarrow> res_bind (free_each (du_action_list u) (snd x)) (\<lambda>acts.
          if temp \<notin> set (ht_list (fst x)) then Inl Null_Deref
          else Inr (ht_unlink temp (fst x), acts)))"

definition an_detail_user_t_del_group :: "s32 \<Rightarrow> detail_tab \<Rightarrow> detail_tab res" where
  "an_detail_user_t_del_group gid x =
     res_bind (grp_index gid) (\<lambda>g. del_each an_detail_user_t_del (ht_group (fst x) g) x)"

definition an_detail_user_t_clear :: "detail_tab \<Rightarrow> detail_tab res" where
  "an_detail_user_t_clear x = del_each an_detail_user_t_del (ht_list (fst x)) x"

section \<open>QQ chats per user\<close>

record an_qq_msg =
  qm_time :: u64
  qm_user_account :: u32
  qm_user_name :: string
  qm_obj_name :: string
  qm_issend :: u32
  qm_msg_len :: u32
  qm_data :: string

definition qq_msg_zero :: an_qq_msg where
  "qq_msg_zero = \<lparr>qm_time = 0, qm_user_account = 0, qm_user_name = [], qm_obj_name = [], qm_issend = 0,
     qm_msg_len = 0, qm_data = []\<rparr>"

record an_qq_obj =
  qo_qq_account :: u32
  qo_name :: string
  qo_msg_num :: u32
  qo_start_time :: u64
  qo_end_time :: u64
  qo_msg_list :: "addr list"

definition qq_obj_zero :: an_qq_obj where
  "qq_obj_zero = \<lparr>qo_qq_account = 0, qo_name = [], qo_msg_num = 0, qo_start_time = 0, qo_end_time = 0,
     qo_msg_list = []\<rparr>"

record an_qq_user =
  qu_uid :: u32
  qu_gid :: s32
  qu_start_time :: u64
  qu_end_time :: u64
  qu_qq_list :: "addr list"
  qu_qq_hash :: "nat \<Rightarrow> addr list"

definition qq_user_zero :: an_qq_user where
  "qq_user_zero = \<lparr>qu_uid = 0, qu_gid = 0, qu_start_time = 0, qu_end_time = 0, qu_qq_list = [],
     qu_qq_hash = (\<lambda>_. [])\<rparr>"

record qq_stores =
  qs_objs :: "addr \<Rightarrow> an_qq_obj option"
  qs_msgs :: "addr \<Rightarrow> an_qq_msg option"

type_synonym qq_tab = "an_qq_user htab \<times> qq_stores"

definition an_qq_user_t_get_hash :: "u32 \<Rightarrow> nat" where
  "an_qq_user_t_get_hash uid = byte_sum_hash uid"

definition an_qq_obj_t_get_hash :: "u32 \<Rightarrow> nat" where
  "an_qq_obj_t_get_hash qq_account = byte_sum_hash qq_account"

definition an_qq_user_t_create :: "addr option \<Rightarrow> qq_tab \<Rightarrow> qq_tab \<times> addr option" where
  "an_qq_user_t_create mem x =
     (case mem of
        None \<Rightarrow> (x, None)
      | Some a \<Rightarrow> (((fst x)\<lparr>ht_store := (ht_store (fst x))(a \<mapsto> qq_user_zero)\<rparr>, snd x), Some a))"

definition an_qq_user_t_find_by_uid :: "u32 \<Rightarrow> qq_tab \<Rightarrow> addr option res" where
  "an_qq_user_t_find_by_uid uid x =
     (if uid = 0 \<or> uid = 0xffffffff then Inr None
      else ht_scan (\<lambda>n. qu_uid n = uid) (ht_store (fst x)) (ht_bucket (fst x) (an_qq_user_t_get_hash uid)))"

definition an_qq_user_t_find_create_by_uid :: "u32 \<Rightarrow> addr option \<Rightarrow> qq_tab \<Rightarrow> (qq_tab \<times> addr option) res" where
  "an_qq_user_t_find_create_by_uid uid mem x =
     res_bind (an_qq_user_t_find_by_uid uid x) (\<lambda>r.
       case r of Some a \<Rightarrow> Inr (x, Some a) | None \<Rightarrow> Inr (an_qq_user_t_create mem x))"

text \<open>
  The nested loops: the messages of a chat partner, then the partner. \<open>ch\<close> is the table \<open>qq_hash\<close> of the user, from which
  \<open>hlist_del\<close> removes the partner; it writes through NULL for a partner that is in none of its chains.
\<close>

fun qq_free_objs :: "addr list \<Rightarrow> (nat \<Rightarrow> addr list) \<Rightarrow> qq_stores \<Rightarrow> qq_stores res" where
  "qq_free_objs [] ch s = Inr s"
| "qq_free_objs (a # as) ch s =
     (case qs_objs s a of
        None \<Rightarrow> Inl Use_After_Free
      | Some obj \<Rightarrow> res_bind (free_each (qo_msg_list obj) (qs_msgs s)) (\<lambda>msgs.
          if \<forall>b \<in> set [0..<256]. a \<notin> set (ch b) then Inl Null_Deref
          else qq_free_objs as (\<lambda>b. removeAll a (ch b)) (s\<lparr>qs_msgs := msgs, qs_objs := (qs_objs s)(a := None)\<rparr>)))"

definition an_qq_user_t_del :: "addr \<Rightarrow> qq_tab \<Rightarrow> qq_tab res" where
  "an_qq_user_t_del temp x =
     (if temp = NULL_p then Inr x
      else case ht_store (fst x) temp of
        None \<Rightarrow> Inl Use_After_Free
      | Some u \<Rightarrow> res_bind (qq_free_objs (qu_qq_list u) (qu_qq_hash u) (snd x)) (\<lambda>s.
          if temp \<notin> set (ht_list (fst x)) then Inl Null_Deref
          else Inr (ht_unlink temp (fst x), s)))"

definition an_qq_user_t_del_group :: "s32 \<Rightarrow> qq_tab \<Rightarrow> qq_tab res" where
  "an_qq_user_t_del_group gid x =
     res_bind (grp_index gid) (\<lambda>g. del_each an_qq_user_t_del (ht_group (fst x) g) x)"

definition an_qq_user_t_clear :: "qq_tab \<Rightarrow> qq_tab res" where
  "an_qq_user_t_clear x = del_each an_qq_user_t_del (ht_list (fst x)) x"

definition an_qq_obj_t_create :: "addr option \<Rightarrow> qq_stores \<Rightarrow> qq_stores \<times> addr option" where
  "an_qq_obj_t_create mem s =
     (case mem of None \<Rightarrow> (s, None) | Some a \<Rightarrow> (s\<lparr>qs_objs := (qs_objs s)(a \<mapsto> qq_obj_zero)\<rparr>, Some a))"

definition an_qq_obj_t_find_by_qq_account :: "u32 \<Rightarrow> (nat \<Rightarrow> addr list) \<Rightarrow> qq_stores \<Rightarrow> addr option res" where
  "an_qq_obj_t_find_by_qq_account qq_account hash_head s =
     ht_scan (\<lambda>n. qo_qq_account n = qq_account) (qs_objs s) (hash_head (an_qq_obj_t_get_hash qq_account))"

definition an_qq_obj_t_find_create_by_qq_account ::
  "u32 \<Rightarrow> (nat \<Rightarrow> addr list) \<Rightarrow> addr option \<Rightarrow> qq_stores \<Rightarrow> (qq_stores \<times> addr option) res" where
  "an_qq_obj_t_find_create_by_qq_account qq_account hash_head mem s =
     res_bind (an_qq_obj_t_find_by_qq_account qq_account hash_head s) (\<lambda>r.
       case r of Some a \<Rightarrow> Inr (s, Some a) | None \<Rightarrow> Inr (an_qq_obj_t_create mem s))"

definition an_qq_msg_t_create :: "u32 \<Rightarrow> addr option \<Rightarrow> qq_stores \<Rightarrow> qq_stores \<times> addr option" where
  "an_qq_msg_t_create msg_len mem s =
     (case mem of
        None \<Rightarrow> (s, None)
      | Some a \<Rightarrow> (s\<lparr>qs_msgs := (qs_msgs s)(a \<mapsto> qq_msg_zero\<lparr>qm_msg_len := msg_len\<rparr>)\<rparr>, Some a))"

definition an_qq_msg_t_del :: "addr \<Rightarrow> addr list \<Rightarrow> qq_stores \<Rightarrow> (addr list \<times> qq_stores) res" where
  "an_qq_msg_t_del temp lst s =
     (if temp = NULL_p then Inr (lst, s)
      else if qs_msgs s temp = None then Inl Use_After_Free
      else Inr (removeAll temp lst, s\<lparr>qs_msgs := (qs_msgs s)(temp := None)\<rparr>))"

section \<open>The three tables are owner tables\<close>

definition ua_hidx :: "ww_user_action_st \<Rightarrow> nat" where "ua_hidx u = byte_sum_hash (ua_user_id u)"
definition ua_gidx :: "ww_user_action_st \<Rightarrow> nat" where "ua_gidx u = nat (sint (ua_group_id u))"
definition du_hidx :: "an_detail_user \<Rightarrow> nat" where "du_hidx u = byte_sum_hash (du_uid u)"
definition du_gidx :: "an_detail_user \<Rightarrow> nat" where "du_gidx u = nat (sint (du_gid u))"
definition qu_hidx :: "an_qq_user \<Rightarrow> nat" where "qu_hidx u = byte_sum_hash (qu_uid u)"
definition qu_gidx :: "an_qq_user \<Rightarrow> nat" where "qu_gidx u = nat (sint (qu_gid u))"

definition ua_valid :: "stat_state \<Rightarrow> ww_user_action_st \<Rightarrow> bool" where
  "ua_valid s u \<longleftrightarrow> distinct (ua_action_list u) \<and> set (ua_action_list u) \<subseteq> dom (ss_acts s)"

definition ua_owned :: "stat_state \<Rightarrow> ww_user_action_st \<Rightarrow> addr set" where
  "ua_owned s u = set (ua_action_list u)"

definition du_valid :: "(addr \<Rightarrow> an_detail_act option) \<Rightarrow> an_detail_user \<Rightarrow> bool" where
  "du_valid s u \<longleftrightarrow> distinct (du_action_list u) \<and> set (du_action_list u) \<subseteq> dom s"

definition du_owned :: "(addr \<Rightarrow> an_detail_act option) \<Rightarrow> an_detail_user \<Rightarrow> addr set" where
  "du_owned s u = set (du_action_list u)"

definition qq_msgs_of :: "qq_stores \<Rightarrow> addr list \<Rightarrow> addr list" where
  "qq_msgs_of s as = concat (map (\<lambda>a. qo_msg_list (the (qs_objs s a))) as)"

definition qq_valid_objs :: "qq_stores \<Rightarrow> addr list \<Rightarrow> bool" where
  "qq_valid_objs s as \<longleftrightarrow> distinct as \<and> set as \<subseteq> dom (qs_objs s)
     \<and> distinct (qq_msgs_of s as) \<and> set (qq_msgs_of s as) \<subseteq> dom (qs_msgs s)"

text \<open>The chat partners of a user are exactly the nodes of the chains of the user's own table.\<close>

definition qq_hashed :: "addr list \<Rightarrow> (nat \<Rightarrow> addr list) \<Rightarrow> bool" where
  "qq_hashed as ch \<longleftrightarrow> set as = (\<Union>b \<in> {0..<256}. set (ch b))"

definition qu_valid :: "qq_stores \<Rightarrow> an_qq_user \<Rightarrow> bool" where
  "qu_valid s u \<longleftrightarrow> qq_valid_objs s (qu_qq_list u) \<and> qq_hashed (qu_qq_list u) (qu_qq_hash u)"

definition qu_owned :: "qq_stores \<Rightarrow> an_qq_user \<Rightarrow> (addr + addr) set" where
  "qu_owned s u = Inl ` set (qu_qq_list u) \<union> Inr ` set (qq_msgs_of s (qu_qq_list u))"

definition qu_alloc :: "qq_stores \<Rightarrow> (addr + addr) set" where
  "qu_alloc s = Inl ` dom (qs_objs s) \<union> Inr ` dom (qs_msgs s)"

lemma qq_msgs_of_cong:
  "(\<And>a. a \<in> set as \<Longrightarrow> qs_objs s a = qs_objs s' a) \<Longrightarrow> qq_msgs_of s as = qq_msgs_of s' as"
  unfolding qq_msgs_of_def by (rule arg_cong [where f = concat], rule map_cong) auto

lemma qq_free_objs_ok:
  "qq_valid_objs s as \<Longrightarrow> qq_hashed as ch \<Longrightarrow> qq_free_objs as ch s
    = Inr \<lparr>qs_objs = qs_objs s |` (- set as), qs_msgs = qs_msgs s |` (- set (qq_msgs_of s as))\<rparr>"
proof (induction as arbitrary: s ch)
  case Nil
  then show ?case by (simp add: qq_msgs_of_def)
next
  case (Cons a as)
  then obtain obj where obj: "qs_objs s a = Some obj" by (auto simp: qq_valid_objs_def)
  let ?m = "qs_msgs s |` (- set (qo_msg_list obj))"
  let ?s = "s\<lparr>qs_msgs := ?m, qs_objs := (qs_objs s)(a := None)\<rparr>"
  have ms: "qq_msgs_of s (a # as) = qo_msg_list obj @ qq_msgs_of s as" using obj by (simp add: qq_msgs_of_def)
  have v: "distinct (qo_msg_list obj)" "set (qo_msg_list obj) \<subseteq> dom (qs_msgs s)" "a \<notin> set as"
    "set (qo_msg_list obj) \<inter> set (qq_msgs_of s as) = {}"
    using Cons.prems(1) unfolding qq_valid_objs_def ms by auto
  have h: "\<exists>b \<in> set [0..<256]. a \<in> set (ch b)" "qq_hashed as (\<lambda>b. removeAll a (ch b))"
    using Cons.prems(2) v(3) unfolding qq_hashed_def by auto
  have same: "qq_msgs_of ?s as = qq_msgs_of s as" using v(3) by (intro qq_msgs_of_cong) auto
  have "qq_valid_objs ?s as"
    using Cons.prems(1) v(3,4) unfolding qq_valid_objs_def same unfolding ms by (auto simp: dom_def restrict_map_def)
  note ih = Cons.IH [OF this h(2), unfolded same]
  have "qs_objs ?s |` (- set as) = qs_objs s |` (- set (a # as))"
    "qs_msgs ?s |` (- set (qq_msgs_of s as)) = qs_msgs s |` (- set (qq_msgs_of s (a # as)))"
    unfolding ms by (auto simp: restrict_map_def)
  note ih = ih [unfolded this]
  with ih obj h(1) free_each_ok [OF v(1,2)] show ?case by auto
qed

interpretation ut: owner_table ua_hidx ua_gidx ww_user_action_st_del ua_valid ua_owned "\<lambda>s. dom (ss_acts s)"
proof
  fix t :: "ww_user_action_st htab" and a u s
  assume a: "ht_store t a = Some u" and v: "ua_valid s u"
  let ?s = "s\<lparr>ss_acts := ss_acts s |` (- set (ua_action_list u)), ss_groups := removeAll a (ss_groups s)\<rparr>"
  have "ww_user_action_st_del a (t, s) = Inr (ht_unlink a t, ?s)"
    using a v free_each_ok [of "ua_action_list u" "ss_acts s"] by (simp add: ww_user_action_st_del_def ua_valid_def)
  moreover have "dom (ss_acts ?s) = dom (ss_acts s) - ua_owned s u" by (auto simp: ua_owned_def)
  moreover have "\<forall>v. ua_valid s v \<longrightarrow> ua_owned s u \<inter> ua_owned s v = {} \<longrightarrow> ua_valid ?s v \<and> ua_owned ?s v = ua_owned s v"
    by (auto simp: ua_valid_def ua_owned_def)
  ultimately show "\<exists>s'. ww_user_action_st_del a (t, s) = Inr (ht_unlink a t, s') \<and> dom (ss_acts s') = dom (ss_acts s) - ua_owned s u
     \<and> (\<forall>v. ua_valid s v \<longrightarrow> ua_owned s u \<inter> ua_owned s v = {} \<longrightarrow> ua_valid s' v \<and> ua_owned s' v = ua_owned s v)" by blast
qed

interpretation dt: owner_table du_hidx du_gidx an_detail_user_t_del du_valid du_owned dom
proof
  fix t :: "an_detail_user htab" and a u s
  assume ok: "ht_ok du_hidx du_gidx t" and l: "a \<in> set (ht_list t)" and a: "ht_store t a = Some u" and v: "du_valid s u"
  let ?s = "s |` (- set (du_action_list u))"
  have "a \<noteq> NULL_p" using ok l by (auto simp: ht_ok_def)
  then have "an_detail_user_t_del a (t, s) = Inr (ht_unlink a t, ?s)"
    using a l v free_each_ok [of "du_action_list u" s] by (simp add: an_detail_user_t_del_def du_valid_def)
  moreover have "dom ?s = dom s - du_owned s u" by (auto simp: du_owned_def)
  moreover have "\<forall>v. du_valid s v \<longrightarrow> du_owned s u \<inter> du_owned s v = {} \<longrightarrow> du_valid ?s v \<and> du_owned ?s v = du_owned s v"
    by (auto simp: du_valid_def du_owned_def)
  ultimately show "\<exists>s'. an_detail_user_t_del a (t, s) = Inr (ht_unlink a t, s') \<and> dom s' = dom s - du_owned s u
     \<and> (\<forall>v. du_valid s v \<longrightarrow> du_owned s u \<inter> du_owned s v = {} \<longrightarrow> du_valid s' v \<and> du_owned s' v = du_owned s v)" by blast
qed

interpretation qt: owner_table qu_hidx qu_gidx an_qq_user_t_del qu_valid qu_owned qu_alloc
proof
  fix t :: "an_qq_user htab" and a u s
  assume ok: "ht_ok qu_hidx qu_gidx t" and l: "a \<in> set (ht_list t)" and a: "ht_store t a = Some u" and v: "qu_valid s u"
  let ?os = "qu_qq_list u"
  let ?s = "\<lparr>qs_objs = qs_objs s |` (- set ?os), qs_msgs = qs_msgs s |` (- set (qq_msgs_of s ?os))\<rparr>"
  have "a \<noteq> NULL_p" using ok l by (auto simp: ht_ok_def)
  then have d: "an_qq_user_t_del a (t, s) = Inr (ht_unlink a t, ?s)"
    using a l v qq_free_objs_ok [of s "qu_qq_list u" "qu_qq_hash u"] by (simp add: an_qq_user_t_del_def qu_valid_def)
  have al: "qu_alloc ?s = qu_alloc s - qu_owned s u" by (auto simp: qu_alloc_def qu_owned_def)
  have "qu_valid ?s v \<and> qu_owned ?s v = qu_owned s v" if v: "qu_valid s v" "qu_owned s u \<inter> qu_owned s v = {}" for v
  proof -
    have dj: "set ?os \<inter> set (qu_qq_list v) = {}" "set (qq_msgs_of s ?os) \<inter> set (qq_msgs_of s (qu_qq_list v)) = {}"
      using v(2) unfolding qu_owned_def by blast+
    have m: "qq_msgs_of ?s (qu_qq_list v) = qq_msgs_of s (qu_qq_list v)"
      using dj(1) by (intro qq_msgs_of_cong) (auto simp: restrict_map_def)
    have "qu_valid ?s v" using v(1) dj unfolding qu_valid_def qq_valid_objs_def m by auto
    with m show ?thesis by (simp add: qu_owned_def)
  qed
  with d al show "\<exists>s'. an_qq_user_t_del a (t, s) = Inr (ht_unlink a t, s') \<and> qu_alloc s' = qu_alloc s - qu_owned s u
     \<and> (\<forall>v. qu_valid s v \<longrightarrow> qu_owned s u \<inter> qu_owned s v = {} \<longrightarrow> qu_valid s' v \<and> qu_owned s' v = qu_owned s v)" by blast
qed

lemma user_scan:
  assumes "ht_ok hi gi t" "ht_uniq key t" "\<And>n. key n = k \<Longrightarrow> hi n = b"
  shows "\<exists>r. ht_scan (\<lambda>n. key n = k) (ht_store t) (ht_bucket t b) = Inr r
           \<and> map_option (\<lambda>a. the (ht_store t a)) r = ht_get key t k"
  by (rule ht_scan_key [OF assms(1,2), of "\<lambda>n. key n = k" k b]) (auto simp: assms(3))

section \<open>Properties of the per-user tables\<close>

text \<open>
  C28: deleting QQ chats. Clearing the table, or deleting the users of a group, succeeds without a
  double free, a use after free or an unlinking of a node in no chain, when no chat partner and no message belongs to two users and
  the partners of a user are those in its own table; exactly
  those users disappear, their chat partners and messages are all freed and everything else stays
  allocated, so nothing leaks.
\<close>

theorem qq_chats_deleted:
  assumes "qt.owners_ok (t, s)" "0 \<le> sint gid" "sint gid < 256"
  shows "(\<exists>t' s'. an_qq_user_t_clear (t, s) = Inr (t', s') \<and> qt.owners_ok (t', s') \<and> ht_vals t' = []
            \<and> qu_alloc s' = qu_alloc s - (\<Union>u \<in> set (ht_vals t). qu_owned s u))
       \<and> (\<exists>t' s'. an_qq_user_t_del_group gid (t, s) = Inr (t', s') \<and> qt.owners_ok (t', s')
            \<and> ht_vals t' = filter (\<lambda>u. qu_gidx u \<noteq> nat (sint gid)) (ht_vals t)
            \<and> qu_alloc s' = qu_alloc s - (\<Union>u \<in> {u \<in> set (ht_vals t). qu_gidx u = nat (sint gid)}. qu_owned s u))"
  using qt.del_all_ok [OF assms(1)] qt.del_group_ok [OF assms(1), of "nat (sint gid)"] assms(2,3)
  by (simp add: an_qq_user_t_clear_def an_qq_user_t_del_group_def grp_index_def)

definition chat_user :: an_qq_user where
  "chat_user = qq_user_zero\<lparr>qu_uid := 5, qu_gid := 1, qu_qq_list := [20],
     qu_qq_hash := (\<lambda>_. [])(an_qq_obj_t_get_hash 7 := [20])\<rparr>"

definition chat_tab :: qq_tab where
  "chat_tab = (ht_link (byte_sum_hash 5) 1 10 chat_user ht_empty,
     \<lparr>qs_objs = [20 \<mapsto> qq_obj_zero\<lparr>qo_qq_account := 7, qo_msg_list := [30, 31]\<rparr>], qs_msgs = [30 \<mapsto> qq_msg_zero, 31 \<mapsto> qq_msg_zero]\<rparr>)"

lemma chat_tab_ok: "qt.owners_ok chat_tab"
proof -
  have "ht_ok qu_hidx qu_gidx (fst chat_tab)"
    unfolding chat_tab_def fst_conv
    by (rule ht_ok_link) (simp_all add: qu_hidx_def qu_gidx_def chat_user_def)
  moreover have "an_qq_obj_t_get_hash 7 < 256" unfolding an_qq_obj_t_get_hash_def by (rule byte_sum_hash_less)
  ultimately show ?thesis
    by (simp add: qt.owners_ok_def chat_tab_def ht_vals_def qu_valid_def qq_valid_objs_def qq_msgs_of_def qq_hashed_def chat_user_def)
      auto
qed

theorem qq_chats_deleted_witness:
  "\<exists>t' s'. an_qq_user_t_clear chat_tab = Inr (t', s') \<and> ht_vals t' = [] \<and> qu_alloc s' = {}"
proof -
  obtain t s where ts: "chat_tab = (t, s)" by (cases chat_tab) auto
  have "qu_alloc s - (\<Union>u \<in> set (ht_vals t). qu_owned s u) = {}"
    using ts by (auto simp: chat_tab_def ht_vals_def qu_owned_def qu_alloc_def qq_msgs_of_def chat_user_def split: if_splits)
  with qq_chats_deleted [of t s 1] chat_tab_ok ts show ?thesis by auto
qed

text \<open>
  Deleting statistics and detail records. The same for the two other tables of users: clearing
  them and deleting a group frees exactly the actions and records of the users concerned.
\<close>

lemma statistics_deleted:
  assumes "ut.owners_ok (t, s)" "dt.owners_ok (d, r)" "0 \<le> sint gid" "sint gid < 256"
  shows "(\<exists>t' s'. ww_user_action_st_clear (t, s) = Inr (t', s') \<and> ht_vals t' = []
            \<and> dom (ss_acts s') = dom (ss_acts s) - (\<Union>u \<in> set (ht_vals t). set (ua_action_list u)))
       \<and> (\<exists>t' s'. ww_user_action_st_del_group gid (t, s) = Inr (t', s') \<and> ut.owners_ok (t', s')
            \<and> ht_vals t' = filter (\<lambda>u. ua_gidx u \<noteq> nat (sint gid)) (ht_vals t))
       \<and> (\<exists>d' r'. an_detail_user_t_clear (d, r) = Inr (d', r') \<and> ht_vals d' = []
            \<and> dom r' = dom r - (\<Union>u \<in> set (ht_vals d). set (du_action_list u)))
       \<and> (\<exists>d' r'. an_detail_user_t_del_group gid (d, r) = Inr (d', r') \<and> dt.owners_ok (d', r')
            \<and> ht_vals d' = filter (\<lambda>u. du_gidx u \<noteq> nat (sint gid)) (ht_vals d))"
proof (intro conjI)
  show "\<exists>t' s'. ww_user_action_st_clear (t, s) = Inr (t', s') \<and> ht_vals t' = []
            \<and> dom (ss_acts s') = dom (ss_acts s) - (\<Union>u \<in> set (ht_vals t). set (ua_action_list u))"
    using ut.del_all_ok [OF assms(1)] unfolding ww_user_action_st_clear_def ua_owned_def fst_conv by blast
  show "\<exists>t' s'. ww_user_action_st_del_group gid (t, s) = Inr (t', s') \<and> ut.owners_ok (t', s')
            \<and> ht_vals t' = filter (\<lambda>u. ua_gidx u \<noteq> nat (sint gid)) (ht_vals t)"
    using ut.del_group_ok [OF assms(1), of "nat (sint gid)"] assms(3,4)
    by (auto simp: ww_user_action_st_del_group_def grp_index_def)
  show "\<exists>d' r'. an_detail_user_t_clear (d, r) = Inr (d', r') \<and> ht_vals d' = []
            \<and> dom r' = dom r - (\<Union>u \<in> set (ht_vals d). set (du_action_list u))"
    using dt.del_all_ok [OF assms(2)] unfolding an_detail_user_t_clear_def du_owned_def fst_conv by blast
  show "\<exists>d' r'. an_detail_user_t_del_group gid (d, r) = Inr (d', r') \<and> dt.owners_ok (d', r')
            \<and> ht_vals d' = filter (\<lambda>u. du_gidx u \<noteq> nat (sint gid)) (ht_vals d)"
    using dt.del_group_ok [OF assms(2), of "nat (sint gid)"] assms(3,4)
    by (auto simp: an_detail_user_t_del_group_def grp_index_def)
qed

definition stat_example :: "ww_user_action_st htab" where
  "stat_example = ht_link (byte_sum_hash 5) 1 10
     (user_zero\<lparr>ua_user_id := 5, ua_group_id := 1, ua_action_list := [20, 21]\<rparr>) ht_empty"

definition detail_example :: "an_detail_user htab" where
  "detail_example = ht_link (byte_sum_hash 5) 1 10
     (detail_user_zero\<lparr>du_uid := 5, du_gid := 1, du_action_list := [20]\<rparr>) ht_empty"

lemma stat_example_ok:
  "ut.owners_ok (stat_example, \<lparr>ss_acts = [20 \<mapsto> action_zero, 21 \<mapsto> action_zero], ss_groups = []\<rparr>)"
proof -
  have "ht_ok ua_hidx ua_gidx stat_example"
    unfolding stat_example_def by (rule ht_ok_link) (simp_all add: ua_hidx_def ua_gidx_def)
  then show ?thesis by (simp add: ut.owners_ok_def ua_valid_def) (simp add: stat_example_def ht_vals_def)
qed

lemma detail_example_ok: "dt.owners_ok (detail_example, [20 \<mapsto> detail_zero])"
proof -
  have "ht_ok du_hidx du_gidx detail_example"
    unfolding detail_example_def by (rule ht_ok_link) (simp_all add: du_hidx_def du_gidx_def)
  then show ?thesis by (simp add: dt.owners_ok_def du_valid_def) (simp add: detail_example_def ht_vals_def)
qed

lemma statistics_deleted_witness:
  "\<exists>d' r'. an_detail_user_t_clear (detail_example, [20 \<mapsto> detail_zero]) = Inr (d', r') \<and> ht_vals d' = []"
  using statistics_deleted [OF stat_example_ok detail_example_ok, of 1] by auto

text \<open>
  Looking users up. When the ids in a table are unique the three lookups return the user with the
  asked id, and NULL exactly if there is none (for the reserved ids 0 and \<open>0xffffffff\<close> always).
\<close>

lemma user_lookup_correct:
  assumes "ht_ok ua_hidx ua_gidx t" "ht_uniq ua_user_id t"
    and "ht_ok du_hidx du_gidx d" "ht_uniq du_uid d" "ht_ok qu_hidx qu_gidx q" "ht_uniq qu_uid q"
  shows "(\<exists>r. ww_user_action_find_by_id uid (t, s) = Inr r \<and> map_option (\<lambda>a. the (ht_store t a)) r
            = (if uid \<in> {0, 0xffffffff} then None else ht_get ua_user_id t uid))
       \<and> (\<exists>r. an_detail_user_t_find_by_uid uid (d, ds) = Inr r \<and> map_option (\<lambda>a. the (ht_store d a)) r
            = (if uid \<in> {0, 0xffffffff} then None else ht_get du_uid d uid))
       \<and> (\<exists>r. an_qq_user_t_find_by_uid uid (q, qs) = Inr r \<and> map_option (\<lambda>a. the (ht_store q a)) r
            = (if uid \<in> {0, 0xffffffff} then None else ht_get qu_uid q uid))"
  using user_scan [OF assms(1,2), of uid "byte_sum_hash uid"] user_scan [OF assms(3,4), of uid "byte_sum_hash uid"]
    user_scan [OF assms(5,6), of uid "byte_sum_hash uid"]
  by (simp add: ww_user_action_find_by_id_def an_detail_user_t_find_by_uid_def an_qq_user_t_find_by_uid_def
      ww_user_action_st_get_hash_def an_detail_user_t_get_hash_def an_qq_user_t_get_hash_def
      ua_hidx_def du_hidx_def qu_hidx_def)

lemma user_lookup_correct_witness:
  "\<exists>r. an_detail_user_t_find_by_uid 5 (detail_example, Map.empty) = Inr r \<and> r \<noteq> None"
proof -
  have "ht_ok du_hidx du_gidx detail_example" using detail_example_ok by (simp add: dt.owners_ok_def)
  moreover have "ht_uniq du_uid detail_example" "ht_get du_uid detail_example 5 \<noteq> None"
    by (simp_all add: ht_uniq_def ht_get_def detail_example_def ht_vals_def)
  moreover have "ht_uniq ua_user_id (ht_empty :: ww_user_action_st htab)"
    "ht_uniq qu_uid (ht_empty :: an_qq_user htab)" by (simp_all add: ht_uniq_def)
  ultimately show ?thesis
    using user_lookup_correct [of ht_empty detail_example ht_empty 5 undefined Map.empty undefined]
    by auto
qed

end
