(* ===== verification/Timer_Wheel.thy ===== *)
theory Timer_Wheel
  imports Kernel_List
begin

text \<open>
  The timer wheel of \<^verbatim>\<open>TCP_C/timer.c\<close> (\<^verbatim>\<open>TCP_SERVER/src/x-timer.c\<close> is the same code): one
  vector of 256 lists for the next 256 ticks and four vectors of 64 lists for later ones, which
  are cascaded down when their time comes.

  A timer is its address. \<open>tw_pending\<close> is \<open>entry.next != NULL\<close>; the vectors hold the timers in
  the order of their lists; \<open>tw_work\<close> is the list \<open>__run_timers\<close> works off. A callback may add,
  change and delete timers; what it does is an argument, a list of such calls that depends on the
  function and its data.

  Shown: the place of every timer agrees with the tick it is due at, which is its expiry or, for
  a timer set in the past, the tick it was added at; a tick takes exactly the timers due at it;
  whatever the callbacks do, working off the list ends, the wheel stays consistent, and a timer
  they leave alone is fired exactly when it is due; the run ends at the first reading of the clock behind the wheel; the clock advances by at most two seconds per reading. The counter
  of timers, in contrast, grows with every cascade.
\<close>

section \<open>Model\<close>

record wheel =
  tw_expires :: "addr \<Rightarrow> u64"
  tw_function :: "addr \<Rightarrow> nat"
  tw_data :: "addr \<Rightarrow> u64"
  tw_pending :: "addr \<Rightarrow> bool"
  tw_vec :: "nat \<Rightarrow> nat \<Rightarrow> addr list"
  tw_work :: "addr list"
  tw_jiffies :: u64
  tw_num :: s32

definition init_timers_cpu :: "u64 \<Rightarrow> wheel \<Rightarrow> wheel" where
  "init_timers_cpu now w = w\<lparr>tw_vec := (\<lambda>_ _. []), tw_work := [], tw_jiffies := now\<rparr>"

definition init_timer :: "addr \<Rightarrow> wheel \<Rightarrow> wheel" where
  "init_timer t w = w\<lparr>tw_pending := (tw_pending w)(t := False)\<rparr>"

definition setup_timer :: "addr \<Rightarrow> nat \<Rightarrow> u64 \<Rightarrow> wheel \<Rightarrow> wheel" where
  "setup_timer t fn data w =
     init_timer t (w\<lparr>tw_function := (tw_function w)(t := fn), tw_data := (tw_data w)(t := data)\<rparr>)"

definition timer_pending :: "addr \<Rightarrow> wheel \<Rightarrow> bool" where
  "timer_pending t w = tw_pending w t"

definition detach_timer :: "addr \<Rightarrow> wheel \<Rightarrow> wheel" where
  "detach_timer t w =
     w\<lparr>tw_vec := (\<lambda>n i. removeAll t (tw_vec w n i)), tw_work := removeAll t (tw_work w),
       tw_pending := (tw_pending w)(t := False), tw_num := tw_num w - 1\<rparr>"

definition del_timer :: "addr \<Rightarrow> wheel \<Rightarrow> wheel \<times> s32" where
  "del_timer t w = (if timer_pending t w then (detach_timer t w, 1) else (w, 0))"

text \<open>The vector (1 to 5) and the index in it, from the current tick and the expiry.\<close>

definition tw_slot :: "u64 \<Rightarrow> u64 \<Rightarrow> nat \<times> nat" where
  "tw_slot jif expires =
     (let idx = expires - jif in
      if idx < 256 then (1, unat (expires AND 255))
      else if idx < 2 ^ 14 then (2, unat (drop_bit 8 expires AND 63))
      else if idx < 2 ^ 20 then (3, unat (drop_bit 14 expires AND 63))
      else if idx < 2 ^ 26 then (4, unat (drop_bit 20 expires AND 63))
      else if sint idx < 0 then (1, unat (jif AND 255))
      else (let expires = (if 0xffffffff < idx then 0xffffffff + jif else expires)
            in (5, unat (drop_bit 26 expires AND 63))))"

definition vec_add :: "nat \<times> nat \<Rightarrow> addr \<Rightarrow> (nat \<Rightarrow> nat \<Rightarrow> addr list) \<Rightarrow> nat \<Rightarrow> nat \<Rightarrow> addr list" where
  "vec_add p t v = (\<lambda>n i. if (n, i) = p then v n i @ [t] else v n i)"

definition internal_add_timer :: "addr \<Rightarrow> wheel \<Rightarrow> wheel" where
  "internal_add_timer t w =
     w\<lparr>tw_vec := vec_add (tw_slot (tw_jiffies w) (tw_expires w t)) t (tw_vec w),
       tw_pending := (tw_pending w)(t := True), tw_num := tw_num w + 1\<rparr>"

definition cascade :: "nat \<Rightarrow> nat \<Rightarrow> wheel \<Rightarrow> wheel" where
  "cascade n index w =
     fold internal_add_timer (tw_vec w n index)
       (w\<lparr>tw_vec := (tw_vec w)(n := (tw_vec w n)(index := []))\<rparr>)"

text \<open>\<open>INDEX(N)\<close>.\<close>

definition tw_index :: "nat \<Rightarrow> wheel \<Rightarrow> nat" where
  "tw_index N w = unat (drop_bit (8 + N * 6) (tw_jiffies w) AND 63)"

text \<open>The short-circuit evaluation of the cascades: the next level only if the index is 0.\<close>

definition cascades :: "wheel \<Rightarrow> wheel" where
  "cascades w =
     (if unat (tw_jiffies w AND 255) \<noteq> 0 then w
      else let w2 = cascade 2 (tw_index 0 w) w in
        if tw_index 0 w \<noteq> 0 then w2
        else let w3 = cascade 3 (tw_index 1 w) w2 in
          if tw_index 1 w \<noteq> 0 then w3
          else let w4 = cascade 4 (tw_index 2 w) w3 in
            if tw_index 2 w \<noteq> 0 then w4 else cascade 5 (tw_index 3 w) w4)"

text \<open>The first half of a tick: cascade, advance, take the list of the tick.\<close>

definition tick_collect :: "wheel \<Rightarrow> wheel" where
  "tick_collect w =
     (let index = unat (tw_jiffies w AND 255);
          w = cascades w;
          w = w\<lparr>tw_jiffies := tw_jiffies w + 1\<rparr>
      in w\<lparr>tw_work := tw_vec w 1 index, tw_vec := (tw_vec w)(1 := (tw_vec w 1)(index := []))\<rparr>)"

definition mod_timer_raw :: "addr \<Rightarrow> u64 \<Rightarrow> wheel \<Rightarrow> wheel \<times> s32" where
  "mod_timer_raw t expires w =
     (let (w, ret) = (if timer_pending t w then (detach_timer t w, 1) else (w, 0));
          w = w\<lparr>tw_expires := (tw_expires w)(t := expires)\<rparr>
      in (internal_add_timer t w, ret))"

definition add_timer :: "addr \<Rightarrow> wheel \<Rightarrow> wheel" where
  "add_timer t w = fst (mod_timer_raw t (tw_expires w t) w)"

definition mod_timer :: "addr \<Rightarrow> u64 \<Rightarrow> wheel \<Rightarrow> wheel \<times> s32" where
  "mod_timer t expires w =
     (if tw_expires w t = expires \<and> timer_pending t w then (w, 1) else mod_timer_raw t expires w)"

text \<open>What a callback does to the wheel.\<close>

datatype timer_call = Call_Add addr u64 | Call_Mod addr u64 | Call_Del addr

fun do_call :: "timer_call \<Rightarrow> wheel \<Rightarrow> wheel" where
  "do_call (Call_Add t e) w = add_timer t (w\<lparr>tw_expires := (tw_expires w)(t := e)\<rparr>)"
| "do_call (Call_Mod t e) w = fst (mod_timer t e w)"
| "do_call (Call_Del t) w = fst (del_timer t w)"

lemma work_internal_add [simp]: "tw_work (internal_add_timer t w) = tw_work w"
  by (simp add: internal_add_timer_def)

lemma work_mod_raw: "length (tw_work (fst (mod_timer_raw t e w))) \<le> length (tw_work w)"
  by (auto simp: mod_timer_raw_def detach_timer_def intro: length_filter_le simp: removeAll_filter)

lemma work_do_call: "length (tw_work (do_call c w)) \<le> length (tw_work w)"
proof (cases c)
  case (Call_Add t e)
  with work_mod_raw [of t e "w\<lparr>tw_expires := (tw_expires w)(t := e)\<rparr>"] show ?thesis
    by (simp add: add_timer_def)
next
  case (Call_Mod t e)
  with work_mod_raw [of t e w] show ?thesis by (simp add: mod_timer_def)
next
  case (Call_Del t)
  then show ?thesis by (simp add: del_timer_def detach_timer_def removeAll_filter)
qed

lemma work_do_calls: "length (tw_work (fold do_call cs w)) \<le> length (tw_work w)"
proof (induction cs arbitrary: w)
  case (Cons c cs)
  from Cons [of "do_call c w"] work_do_call [of c w] show ?case by simp
qed simp

text \<open>
  The second half: detach the first timer of the list and call its function. The result also
  holds the timers in the order their functions were called.
\<close>

function run_work :: "(nat \<Rightarrow> u64 \<Rightarrow> timer_call list) \<Rightarrow> wheel \<Rightarrow> wheel \<times> addr list" where
  "run_work handler w =
     (case tw_work w of
        [] \<Rightarrow> (w, [])
      | t # _ \<Rightarrow>
          let fn = tw_function w t; data = tw_data w t;
              w = fold do_call (handler fn data) (detach_timer t w);
              (w, fired) = run_work handler w
          in (w, t # fired))"
  by auto
termination
proof (relation "measure (\<lambda>(h, w). length (tw_work w))")
  fix h w t ts fn data w'
  assume "tw_work w = t # ts" "w' = fold do_call (h fn data) (detach_timer t w)"
  moreover have "length (tw_work (detach_timer t w)) < length (tw_work w)" if "tw_work w = t # ts"
    using that by (simp add: detach_timer_def removeAll_filter le_imp_less_Suc)
  ultimately show "((h, w'), h, w) \<in> measure (\<lambda>(h, w). length (tw_work w))"
    using work_do_calls [of "h fn data" "detach_timer t w"] by simp
qed simp

declare run_work.simps [simp del]

definition run_tick :: "(nat \<Rightarrow> u64 \<Rightarrow> timer_call list) \<Rightarrow> wheel \<Rightarrow> wheel \<times> addr list" where
  "run_tick handler w = run_work handler (tick_collect w)"

text \<open>
  \<open>__run_timers\<close>: the clock is read before every tick; \<open>js\<close> are the readings. \<open>None\<close> means that the
  readings ran out before the loop ended.
\<close>

definition time_after_eq :: "u64 \<Rightarrow> u64 \<Rightarrow> bool" where
  "time_after_eq a b \<longleftrightarrow> 0 \<le> sint (a - b)"

fun run_timers :: "(nat \<Rightarrow> u64 \<Rightarrow> timer_call list) \<Rightarrow> u64 list \<Rightarrow> wheel \<Rightarrow> (wheel \<times> addr list) option" where
  "run_timers handler [] w = None"
| "run_timers handler (j # js) w =
     (if time_after_eq j (tw_jiffies w)
      then (let (w, fired) = run_tick handler w in map_option (\<lambda>(w', f'). (w', fired @ f')) (run_timers handler js w))
      else Some (w, []))"

section \<open>The clock\<close>

text \<open>
  \<open>ll_start_second\<close> and \<open>ll_jiffies_second\<close>; the time of day is an argument. A step of the wall
  clock by more than two seconds, forward or backward, counts as two seconds.
\<close>

record clock =
  ll_start_second :: u64
  ll_jiffies_second :: u64

definition jiffies_init :: "u64 \<Rightarrow> clock \<Rightarrow> clock" where
  "jiffies_init tv_sec c = c\<lparr>ll_start_second := tv_sec\<rparr>"

definition jiffies_get :: "u64 \<Rightarrow> u64 \<Rightarrow> clock \<Rightarrow> clock \<times> u64" where
  "jiffies_get tv_sec tv_usec c =
     (let cc_s = tv_sec - ll_start_second c;
          c = (if 2 < cc_s - ll_jiffies_second c
               then (let s = ll_jiffies_second c + 2
                     in c\<lparr>ll_jiffies_second := s, ll_start_second := tv_sec - s\<rparr>)
               else c\<lparr>ll_jiffies_second := cc_s\<rparr>)
      in (c, if tv_usec \<noteq> 0 then tv_usec div 1000 + ll_jiffies_second c * 1000
             else ll_jiffies_second c * 1000))"

section \<open>Places and ticks\<close>

definition lvl :: "nat \<Rightarrow> nat" where
  "lvl n = 2 ^ (8 + 6 * (n - 2))"

definition slot_nat :: "nat \<Rightarrow> nat \<Rightarrow> nat \<times> nat" where
  "slot_nat J E =
     (if E < J then (1, J mod 256)
      else if E < J + 256 then (1, E mod 256)
      else if E < J + 2 ^ 14 then (2, E div lvl 2 mod 64)
      else if E < J + 2 ^ 20 then (3, E div lvl 3 mod 64)
      else if E < J + 2 ^ 26 then (4, E div lvl 4 mod 64)
      else (5, E div lvl 5 mod 64))"

lemma lvl_pos [simp]: "0 < lvl n" "lvl n \<noteq> 0"
  by (simp_all add: lvl_def)

lemma lvl_num: "lvl 2 = 2 ^ 8" "lvl 3 = 2 ^ 14" "lvl 4 = 2 ^ 20" "lvl 5 = 2 ^ 26"
  by (simp_all add: lvl_def)

lemma unat_and_255_64: "unat ((w :: u64) AND 255) = unat w mod 256"
  using unat_and_mask [of w 8] by (simp add: mask_eq_exp_minus_1)

lemma unat_drop_and_63: "unat (drop_bit k (w :: u64) AND 63) = unat w div 2 ^ k mod 64"
proof -
  have "unat (drop_bit k w AND 63) = unat (drop_bit k w) mod 64"
    using unat_and_mask [of "drop_bit k w" 6] by (simp add: mask_eq_exp_minus_1)
  also have "unat (drop_bit k w) = unat w div 2 ^ k"
    by (simp only: unsigned_drop_bit_eq take_bit_word_eq_self order.refl drop_bit_eq_div [where ?'a = nat]
        take_bit_nat_eq_self unsigned_less)
  finally show ?thesis .
qed


lemma sint_neg_iff: "sint (w :: u64) < 0 \<longleftrightarrow> 2 ^ 63 \<le> unat w"
proof -
  have m: "uint w = sint w mod 2 ^ 64" using uint_sint [of w] by (simp add: take_bit_eq_mod)
  have r: "- (2 ^ 63) \<le> sint w" "sint w < 2 ^ 63" using sint_range_size [of w] by (simp_all add: word_size)
  have n: "2 ^ 63 \<le> unat w \<longleftrightarrow> 2 ^ 63 \<le> uint w" using of_nat_le_iff [of "2 ^ 63" "unat w", where ?'a = int] by simp
  show ?thesis
  proof (cases "sint w < 0")
    case True
    have "(sint w + 2 ^ 64) mod 2 ^ 64 = sint w + 2 ^ 64" using r True by (intro mod_pos_pos_trivial) simp_all
    then have "uint w = sint w + 2 ^ 64" using m by (simp only: mod_add_self2)
    then show ?thesis unfolding n using True r by simp
  next
    case False
    then have "uint w = sint w" unfolding m using r by (intro mod_pos_pos_trivial) simp_all
    then show ?thesis unfolding n using False r by simp
  qed
qed

lemma tw_slot_nat:
  assumes "unat jif < 2 ^ 62" "unat e < 2 ^ 62" "unat e < unat jif + 2 ^ 32"
  shows "tw_slot jif e = slot_nat (unat jif) (unat e)"
proof (cases "unat e < unat jif")
  case True
  have u: "unat (e - jif) = unat e + 2 ^ 64 - unat jif"
    using True unat_sub_if' [of e jif] by (simp add: word_size)
  have big: "2 ^ 63 \<le> unat (e - jif)" unfolding u using assms(1) by simp
  have "\<not> e - jif < 256" "\<not> e - jif < 2 ^ 14" "\<not> e - jif < 2 ^ 20" "\<not> e - jif < 2 ^ 26"
    using big by (simp_all add: word_less_nat_alt)
  moreover have "sint (e - jif) < 0" using big by (simp only: sint_neg_iff)
  ultimately show ?thesis
    unfolding tw_slot_def slot_nat_def Let_def unat_and_255_64 using True by simp
next
  case False
  then have u: "unat (e - jif) = unat e - unat jif" by (simp add: unat_sub word_le_nat_alt)
  have s: "\<not> sint (e - jif) < 0" unfolding sint_neg_iff u using assms(2) by simp
  show ?thesis
    unfolding tw_slot_def slot_nat_def Let_def unat_and_255_64 unat_drop_and_63
    using False u s assms(3) by (simp add: word_less_nat_alt lvl_num less_diff_conv2)
qed

definition placed :: "nat \<Rightarrow> nat \<Rightarrow> nat \<Rightarrow> nat \<Rightarrow> bool" where
  "placed J D n i \<longleftrightarrow>
     (n = 1 \<and> J \<le> D \<and> D < J + 256 \<and> i = D mod 256)
     \<or> (n \<in> {2, 3, 4, 5} \<and> i = D div lvl n mod 64
        \<and> (if lvl n dvd J then J div lvl n \<le> D div lvl n \<and> D div lvl n < J div lvl n + 64
           else J div lvl n < D div lvl n \<and> D div lvl n \<le> J div lvl n + 64))"

lemma window:
  fixes s J E :: nat
  assumes "0 < s" "J + s \<le> E" "E < J + 64 * s"
  shows "J div s < E div s \<and> (if s dvd J then E div s < J div s + 64 else E div s \<le> J div s + 64)"
proof -
  have "(J + s) div s \<le> E div s" using assms(2) by (rule div_le_mono)
  moreover have "(J + s) div s = J div s + 1" using assms(1) by (metis div_add_self2 less_irrefl)
  ultimately have a: "J div s < E div s" by linarith
  have "E div s \<le> (J + 64 * s) div s" using assms(3) by (intro div_le_mono) simp
  then have b: "E div s \<le> J div s + 64" using assms(1) by simp
  have "E div s < J div s + 64" if "s dvd J"
  proof -
    have "E < (J div s + 64) * s" using that assms(3) by (simp add: algebra_simps)
    then show ?thesis using assms(1) by (simp add: div_less_iff_less_mult)
  qed
  with a b show ?thesis by simp
qed

lemma placed_far:
  assumes "n \<in> {2, 3, 4, 5}" "J + lvl n \<le> E" "E < J + 64 * lvl n"
  shows "placed J (max J E) n (E div lvl n mod 64) \<and> (n \<noteq> 1 \<longrightarrow> J \<le> E \<and> J div lvl n < E div lvl n)"
proof -
  have m: "max J E = E" "J \<le> E" using assms(2) by simp_all
  show ?thesis
    unfolding m placed_def using window [OF lvl_pos(1) assms(2,3)] assms(1) m(2) by auto
qed

lemma slot_placed:
  assumes "E < J + 2 ^ 32" "slot_nat J E = (n, i)"
  shows "placed J (max J E) n i \<and> (n \<noteq> 1 \<longrightarrow> J \<le> E \<and> J div lvl n < E div lvl n)"
proof -
  consider "E < J" | "J \<le> E" "E < J + 256" | "J + 256 \<le> E" "E < J + 2 ^ 14" | "J + 2 ^ 14 \<le> E" "E < J + 2 ^ 20"
    | "J + 2 ^ 20 \<le> E" "E < J + 2 ^ 26" | "J + 2 ^ 26 \<le> E" by fastforce
  then show ?thesis
  proof cases
    case 3
    then have "slot_nat J E = (2, E div lvl 2 mod 64)" by (simp add: slot_nat_def)
    with 3 placed_far [of 2 J E] assms(2) show ?thesis by (simp add: lvl_num)
  next
    case 4
    then have "slot_nat J E = (3, E div lvl 3 mod 64)" by (simp add: slot_nat_def)
    with 4 placed_far [of 3 J E] assms(2) show ?thesis by (simp add: lvl_num)
  next
    case 5
    then have "slot_nat J E = (4, E div lvl 4 mod 64)" by (simp add: slot_nat_def)
    with 5 placed_far [of 4 J E] assms(2) show ?thesis by (simp add: lvl_num)
  next
    case 6
    then have "slot_nat J E = (5, E div lvl 5 mod 64)" by (simp add: slot_nat_def)
    with 6 placed_far [of 5 J E] assms show ?thesis by (simp add: lvl_num)
  qed (use assms(2) in \<open>auto simp: slot_nat_def placed_def\<close>)
qed

text \<open>Every vector is right for the next tick once the timers due now are out of it.\<close>

lemma placed_next:
  assumes "placed J D n i" "n \<noteq> 1 \<Longrightarrow> lvl n dvd J \<Longrightarrow> J div lvl n < D div lvl n" "n = 1 \<Longrightarrow> D \<noteq> J"
  shows "placed (J + 1) D n i"
proof (cases "n = 1")
  case True
  with assms(1,3) show ?thesis by (auto simp: placed_def)
next
  case False
  let ?s = "lvl n"
  have n: "n \<in> {2, 3, 4, 5}" "i = D div ?s mod 64" using assms(1) False by (auto simp: placed_def)
  have d: "J div ?s < D div ?s" "D div ?s \<le> J div ?s + 64" "?s dvd J \<Longrightarrow> D div ?s < J div ?s + 64"
    using assms(1,2) False by (auto simp: placed_def split: if_splits)
  have s2: "2 \<le> ?s" using one_le_power [of "2 :: nat" "6 * (n - 2)"] by (simp add: lvl_def power_add)
  show ?thesis
  proof (cases "?s dvd J + 1")
    case True
    have nd: "\<not> ?s dvd J" using True s2 by (metis add_diff_cancel_left' dvd_1_left dvd_diff_nat nat_dvd_1_iff_1 numeral_le_one_iff semiring_norm(69))
    have "(J + 1) div ?s = J div ?s + 1"
      using True by (metis Suc_eq_plus1 div_Suc dvd_imp_mod_0)
    with True n d show ?thesis by (auto simp: placed_def)
  next
    case f: False
    have "(J + 1) div ?s = J div ?s" using f by (metis Suc_eq_plus1 div_Suc dvd_eq_mod_eq_0)
    with f n d show ?thesis by (auto simp: placed_def)
  qed
qed

section \<open>The invariant\<close>

text \<open>\<open>due\<close> is the tick a timer is due at; \<open>F\<close> are timers that are taken out of the vectors.\<close>

abbreviation tw_now :: "wheel \<Rightarrow> nat" where
  "tw_now w \<equiv> unat (tw_jiffies w)"

definition timer_ok :: "(addr \<Rightarrow> nat) \<Rightarrow> wheel \<Rightarrow> nat \<Rightarrow> nat \<Rightarrow> addr \<Rightarrow> bool" where
  "timer_ok due w n i a \<longleftrightarrow> placed (tw_now w) (due a) n i \<and> unat (tw_expires w a) < 2 ^ 62
     \<and> unat (tw_expires w a) \<le> due a \<and> (n \<noteq> 1 \<longrightarrow> due a = unat (tw_expires w a))"

definition once :: "(nat \<Rightarrow> nat \<Rightarrow> addr list) \<Rightarrow> bool" where
  "once v \<longleftrightarrow> (\<forall>n i. distinct (v n i)) \<and> (\<forall>n i m k a. a \<in> set (v n i) \<longrightarrow> a \<in> set (v m k) \<longrightarrow> n = m \<and> i = k)"

definition in_vecs :: "(nat \<Rightarrow> nat \<Rightarrow> addr list) \<Rightarrow> addr \<Rightarrow> bool" where
  "in_vecs v a \<longleftrightarrow> (\<exists>n i. a \<in> set (v n i))"

definition tw_inv :: "(addr \<Rightarrow> nat) \<Rightarrow> addr set \<Rightarrow> wheel \<Rightarrow> bool" where
  "tw_inv due F w \<longleftrightarrow> tw_now w < 2 ^ 61 \<and> once (tw_vec w)
     \<and> (\<forall>n i. \<forall>a \<in> set (tw_vec w n i). timer_ok due w n i a)
     \<and> (\<forall>a. tw_pending w a \<longleftrightarrow> a \<in> F \<or> in_vecs (tw_vec w) a)
     \<and> (\<forall>a \<in> F. \<not> in_vecs (tw_vec w) a)
     \<and> distinct (tw_work w) \<and> set (tw_work w) \<subseteq> F"

definition strict :: "(addr \<Rightarrow> nat) \<Rightarrow> nat \<Rightarrow> wheel \<Rightarrow> bool" where
  "strict due n w \<longleftrightarrow> (\<forall>i. \<forall>a \<in> set (tw_vec w n i). tw_now w div lvl n < due a div lvl n)"

lemma tw_invD:
  assumes "tw_inv due F w"
  shows "tw_now w < 2 ^ 61" "once (tw_vec w)" "a \<in> set (tw_vec w n i) \<Longrightarrow> timer_ok due w n i a"
    "tw_pending w a \<longleftrightarrow> a \<in> F \<or> in_vecs (tw_vec w) a" "a \<in> F \<Longrightarrow> \<not> in_vecs (tw_vec w) a"
    "distinct (tw_work w)" "set (tw_work w) \<subseteq> F"
  using assms unfolding tw_inv_def by blast+

lemma once_removeAll: "once v \<Longrightarrow> once (\<lambda>n i. removeAll a (v n i))"
  unfolding once_def by (auto simp: distinct_removeAll)

lemma in_vecs_removeAll: "in_vecs (\<lambda>n i. removeAll a (v n i)) b \<longleftrightarrow> b \<noteq> a \<and> in_vecs v b"
  unfolding in_vecs_def by auto

lemma inv_detach:
  assumes "tw_inv due F w"
  shows "tw_inv due (F - {a}) (detach_timer a w)"
  using assms once_removeAll [of "tw_vec w" a]
  unfolding tw_inv_def by (auto simp: detach_timer_def in_vecs_removeAll timer_ok_def distinct_removeAll)

lemma once_vec_add:
  assumes "once v" "\<not> in_vecs v a"
  shows "once (vec_add p a v)"
  using assms unfolding once_def in_vecs_def vec_add_def by (auto split: if_splits)

lemma in_vecs_add: "in_vecs (vec_add p a v) b \<longleftrightarrow> b = a \<or> in_vecs v b"
proof
  assume "in_vecs (vec_add p a v) b"
  then show "b = a \<or> in_vecs v b" unfolding in_vecs_def vec_add_def by (auto split: if_splits)
next
  assume "b = a \<or> in_vecs v b"
  then show "in_vecs (vec_add p a v) b"
  proof
    assume "b = a"
    then have "b \<in> set (vec_add p a v (fst p) (snd p))" by (simp add: vec_add_def)
    then show ?thesis unfolding in_vecs_def by blast
  next
    assume "in_vecs v b"
    then obtain n i where "b \<in> set (v n i)" unfolding in_vecs_def by blast
    then have "b \<in> set (vec_add p a v n i)" by (simp add: vec_add_def)
    then show ?thesis unfolding in_vecs_def by blast
  qed
qed

lemma inv_add:
  assumes inv: "tw_inv due F w" and a: "\<not> in_vecs (tw_vec w) a" "a \<notin> set (tw_work w)"
    and e: "unat (tw_expires w a) < 2 ^ 62" "unat (tw_expires w a) < tw_now w + 2 ^ 32"
  shows "tw_inv (due(a := max (tw_now w) (unat (tw_expires w a)))) (F - {a}) (internal_add_timer a w)"
    and "strict due n w \<Longrightarrow> n \<noteq> 1 \<Longrightarrow>
      strict (due(a := max (tw_now w) (unat (tw_expires w a)))) n (internal_add_timer a w)"
proof -
  let ?D = "max (tw_now w) (unat (tw_expires w a))" and ?w = "internal_add_timer a w"
  obtain n0 i0 where p: "slot_nat (tw_now w) (unat (tw_expires w a)) = (n0, i0)" by fastforce
  have "tw_now w < 2 ^ 62" using tw_invD(1) [OF inv] by simp
  from tw_slot_nat [OF this e] p have s: "tw_slot (tw_jiffies w) (tw_expires w a) = (n0, i0)" by simp
  note pl = slot_placed [OF e(2) p]
  have v: "tw_vec ?w = vec_add (n0, i0) a (tw_vec w)" by (simp add: internal_add_timer_def s)
  have sel: "tw_jiffies ?w = tw_jiffies w" "tw_expires ?w = tw_expires w" "tw_work ?w = tw_work w"
    "tw_pending ?w = (tw_pending w)(a := True)" by (simp_all add: internal_add_timer_def)
  have t: "timer_ok (due(a := ?D)) ?w n i b" if "b \<in> set (tw_vec ?w n i)" for n i b
  proof (cases "b = a")
    case True
    then have "(n, i) = (n0, i0)" using that a(1) by (auto simp: v vec_add_def in_vecs_def split: if_splits)
    with True pl e show ?thesis by (auto simp: timer_ok_def sel)
  next
    case False
    then have "b \<in> set (tw_vec w n i)" using that by (auto simp: v vec_add_def split: if_splits)
    from tw_invD(3) [OF inv this] False show ?thesis by (simp add: timer_ok_def sel)
  qed
  show "tw_inv (due(a := ?D)) (F - {a}) ?w"
    unfolding tw_inv_def
  proof (intro conjI allI ballI)
    show "tw_now ?w < 2 ^ 61" "distinct (tw_work ?w)" "set (tw_work ?w) \<subseteq> F - {a}"
      using tw_invD(1,6,7) [OF inv] a(2) by (auto simp: sel)
    show "once (tw_vec ?w)" unfolding v using tw_invD(2) [OF inv] a(1) by (rule once_vec_add)
    show "timer_ok (due(a := ?D)) ?w n i b" if "b \<in> set (tw_vec ?w n i)" for n i b using that by (rule t)
    show "tw_pending ?w b = (b \<in> F - {a} \<or> in_vecs (tw_vec ?w) b)" for b
      using tw_invD(4) [OF inv, of b] by (auto simp: sel v in_vecs_add)
    show "\<not> in_vecs (tw_vec ?w) b" if "b \<in> F - {a}" for b
      using tw_invD(5) [OF inv, of b] that by (auto simp: v in_vecs_add)
  qed
  show "strict (due(a := ?D)) n ?w" if st: "strict due n w" "n \<noteq> 1" for n
    unfolding strict_def
  proof (intro allI ballI)
    fix i b assume b: "b \<in> set (tw_vec ?w n i)"
    show "tw_now ?w div lvl n < (due(a := ?D)) b div lvl n"
    proof (cases "b = a")
      case True
      then have "n = n0" using b a(1) by (auto simp: v vec_add_def in_vecs_def split: if_splits)
      with True st(2) pl show ?thesis by (simp add: sel max_def)
    next
      case False
      then have "b \<in> set (tw_vec w n i)" using b by (auto simp: v vec_add_def split: if_splits)
      with st(1) False show ?thesis by (auto simp: strict_def sel)
    qed
  qed
qed

lemma fold_add_inv:
  assumes "tw_inv due (F \<union> set as) w" "distinct as" "F \<inter> set as = {}" "set (tw_work w) \<subseteq> F"
    and "\<forall>a \<in> set as. due a = unat (tw_expires w a) \<and> tw_now w \<le> due a \<and> due a < tw_now w + 2 ^ 32 \<and> due a < 2 ^ 62"
    and "\<forall>n \<in> N. strict due n w" "1 \<notin> N"
  shows "tw_inv due F (fold internal_add_timer as w) \<and> (\<forall>n \<in> N. strict due n (fold internal_add_timer as w))
    \<and> tw_jiffies (fold internal_add_timer as w) = tw_jiffies w \<and> tw_expires (fold internal_add_timer as w) = tw_expires w
    \<and> tw_pending (fold internal_add_timer as w) = tw_pending w"
  using assms(1-6)
proof (induction as arbitrary: w)
  case Nil
  then show ?case by simp
next
  case (Cons a as)
  let ?w = "internal_add_timer a w"
  have sel: "tw_jiffies ?w = tw_jiffies w" "tw_expires ?w = tw_expires w" "tw_work ?w = tw_work w"
    "tw_pending ?w = tw_pending w"
    using tw_invD(4) [OF Cons.prems(1), of a] by (auto simp: internal_add_timer_def fun_eq_iff)
  have d: "due a = unat (tw_expires w a)" "tw_now w \<le> due a" "due a < tw_now w + 2 ^ 32" "due a < 2 ^ 62"
    using Cons.prems(5) by auto
  have id: "due(a := max (tw_now w) (unat (tw_expires w a))) = due" using d by (auto simp: max_def)
  have a: "\<not> in_vecs (tw_vec w) a" "a \<notin> set (tw_work w)"
    using tw_invD(5) [OF Cons.prems(1), of a] Cons.prems(3,4) by auto
  note ia = inv_add [OF Cons.prems(1) a, unfolded id]
  have "F \<union> set (a # as) - {a} = F \<union> set as" using Cons.prems(2,3) by auto
  with ia(1) d have i: "tw_inv due (F \<union> set as) ?w" by simp
  have st: "\<forall>n \<in> N. strict due n ?w" using ia(2) d Cons.prems(6) assms(7) by auto
  have "\<forall>a \<in> set as. due a = unat (tw_expires ?w a) \<and> tw_now ?w \<le> due a \<and> due a < tw_now ?w + 2 ^ 32 \<and> due a < 2 ^ 62"
    using Cons.prems(5) unfolding sel by (meson list.set_intros(2))
  from Cons.IH [OF i _ _ _ this st] Cons.prems(2-4) show ?case by (simp add: sel)
qed


lemma lvl_dvd_window:
  assumes "lvl n dvd J" "D div lvl n = J div lvl n"
  shows "J \<le> D \<and> D < J + lvl n"
proof -
  have "J = J div lvl n * lvl n" using assms(1) by simp
  also have "\<dots> = D div lvl n * lvl n" using assms(2) by simp
  finally have j: "J = D div lvl n * lvl n" .
  have "D = D div lvl n * lvl n + D mod lvl n" by (rule div_mult_mod_eq [symmetric])
  moreover have "D mod lvl n < lvl n" by (intro mod_less_divisor lvl_pos)
  ultimately show ?thesis unfolding j by linarith
qed

lemma same_slot:
  fixes j d :: nat
  assumes "d mod 64 = j mod 64" "j \<le> d" "d < j + 64"
  shows "d = j"
proof -
  have "(d - j) mod 64 = 0" using assms(1,2) by (metis mod_eq_dvd_iff_nat dvd_imp_mod_0)
  then show ?thesis using assms(2,3) by simp
qed

lemma cascade_inv:
  assumes inv: "tw_inv due F w" and n: "n \<in> {2, 3, 4, 5}" and dvd: "lvl n dvd tw_now w"
    and work: "tw_work w = []" and N: "\<forall>m \<in> N. strict due m w" "1 \<notin> N"
  shows "tw_inv due F (cascade n (tw_now w div lvl n mod 64) w)
    \<and> (\<forall>m \<in> insert n N. strict due m (cascade n (tw_now w div lvl n mod 64) w))
    \<and> tw_jiffies (cascade n (tw_now w div lvl n mod 64) w) = tw_jiffies w
    \<and> tw_expires (cascade n (tw_now w div lvl n mod 64) w) = tw_expires w
    \<and> tw_pending (cascade n (tw_now w div lvl n mod 64) w) = tw_pending w"
proof -
  let ?i = "tw_now w div lvl n mod 64"
  let ?L = "tw_vec w n ?i"
  let ?w = "w\<lparr>tw_vec := (tw_vec w)(n := (tw_vec w n)(?i := []))\<rparr>"
  have pl: "due a div lvl n mod 64 = i \<and> tw_now w div lvl n \<le> due a div lvl n \<and> due a div lvl n < tw_now w div lvl n + 64
      \<and> due a = unat (tw_expires w a) \<and> due a < 2 ^ 62" if "a \<in> set (tw_vec w n i)" for a i
    using tw_invD(3) [OF inv that] n dvd by (auto simp: timer_ok_def placed_def)
  have dL: "due a div lvl n = tw_now w div lvl n" if "a \<in> set ?L" for a
    using pl [OF that] same_slot by blast
  have L: "\<forall>a \<in> set ?L. due a = unat (tw_expires ?w a) \<and> tw_now ?w \<le> due a \<and> due a < tw_now ?w + 2 ^ 32 \<and> due a < 2 ^ 62"
  proof
    fix a assume a: "a \<in> set ?L"
    have "lvl n \<le> 2 ^ 32" using n by (auto simp: lvl_num)
    with lvl_dvd_window [OF dvd dL [OF a]] pl [OF a]
    show "due a = unat (tw_expires ?w a) \<and> tw_now ?w \<le> due a \<and> due a < tw_now ?w + 2 ^ 32 \<and> due a < 2 ^ 62" by simp
  qed
  have sub: "set (tw_vec ?w m k) = (if m = n \<and> k = ?i then {} else set (tw_vec w m k))" for m k by auto
  have iv: "in_vecs (tw_vec ?w) a \<longleftrightarrow> in_vecs (tw_vec w) a \<and> a \<notin> set ?L" for a
  proof
    assume "in_vecs (tw_vec ?w) a"
    then obtain m k where "a \<in> set (tw_vec w m k)" "\<not> (m = n \<and> k = ?i)" unfolding in_vecs_def sub by (auto split: if_splits)
    with tw_invD(2) [OF inv] show "in_vecs (tw_vec w) a \<and> a \<notin> set ?L" unfolding in_vecs_def once_def by blast
  next
    assume a: "in_vecs (tw_vec w) a \<and> a \<notin> set ?L"
    then obtain m k where "a \<in> set (tw_vec w m k)" unfolding in_vecs_def by blast
    with a have "a \<in> set (tw_vec ?w m k)" unfolding sub by auto
    then show "in_vecs (tw_vec ?w) a" unfolding in_vecs_def by blast
  qed
  have on: "once (tw_vec ?w)" using tw_invD(2) [OF inv] unfolding once_def by auto
  have lv: "a \<in> set ?L \<Longrightarrow> in_vecs (tw_vec w) a" for a unfolding in_vecs_def by blast
  have i1: "tw_inv due (F \<union> set ?L) ?w"
    unfolding tw_inv_def iv
    using tw_invD [OF inv] on lv work by (auto simp: timer_ok_def split: if_splits)
  have dF: "F \<inter> set ?L = {}" using tw_invD(5) [OF inv] lv by blast
  have st: "\<forall>m \<in> insert n N. strict due m ?w"
  proof
    fix m assume m: "m \<in> insert n N"
    show "strict due m ?w"
    proof (cases "m = n")
      case True
      have "tw_now w div lvl n < due a div lvl n" if "a \<in> set (tw_vec w n k)" "k \<noteq> ?i" for a k
        using pl [OF that(1)] that(2) by (metis le_neq_implies_less)
      then show ?thesis using True by (auto simp: strict_def split: if_splits)
    next
      case False
      with m N(1) show ?thesis by (auto simp: strict_def)
    qed
  qed
  have "distinct ?L" using tw_invD(2) [OF inv] by (simp add: once_def)
  from fold_add_inv [OF i1 this dF _ L st] work n N(2) show ?thesis by (auto simp: cascade_def)
qed


lemma cascade_work [simp]: "tw_work (cascade n i w) = tw_work w"
proof -
  have "tw_work (fold internal_add_timer as v) = tw_work v" for as v
    by (induction as arbitrary: v) simp_all
  then show ?thesis by (simp add: cascade_def)
qed

lemma tw_index_lvl: "M = N + 2 \<Longrightarrow> tw_index N w = tw_now w div lvl M mod 64"
  unfolding tw_index_def unat_drop_and_63 lvl_def by (simp add: mult.commute)

lemma lvl_step: "2 \<le> n \<Longrightarrow> lvl (n + 1) dvd J \<longleftrightarrow> lvl n dvd J \<and> J div lvl n mod 64 = 0"
proof -
  assume "2 \<le> n"
  then have "n + 1 - 2 = Suc (n - 2)" by simp
  then have l: "lvl (n + 1) = lvl n * 64" by (simp add: lvl_def power_add)
  have "J mod (lvl n * 64) = lvl n * (J div lvl n mod 64) + J mod lvl n" by (rule mod_mult2_eq)
  then show ?thesis unfolding l dvd_eq_mod_eq_0 by auto
qed

lemma lvl_chain: "lvl 3 dvd J \<longleftrightarrow> lvl 2 dvd J \<and> J div lvl 2 mod 64 = 0"
  "lvl 4 dvd J \<longleftrightarrow> lvl 3 dvd J \<and> J div lvl 3 mod 64 = 0"
  "lvl 5 dvd J \<longleftrightarrow> lvl 4 dvd J \<and> J div lvl 4 mod 64 = 0"
  using lvl_step [of 2 J] lvl_step [of 3 J] lvl_step [of 4 J] by simp_all

definition cascaded :: "(addr \<Rightarrow> nat) \<Rightarrow> addr set \<Rightarrow> wheel \<Rightarrow> nat set \<Rightarrow> wheel \<Rightarrow> bool" where
  "cascaded due F w N w' \<longleftrightarrow> tw_inv due F w' \<and> tw_work w' = [] \<and> (\<forall>m \<in> N. strict due m w')
     \<and> tw_jiffies w' = tw_jiffies w \<and> tw_expires w' = tw_expires w \<and> tw_pending w' = tw_pending w"

lemma cascaded_step:
  assumes "cascaded due F w N w'" "n \<in> {2, 3, 4, 5}" "lvl n dvd tw_now w" "1 \<notin> N"
  shows "cascaded due F w (insert n N) (cascade n (tw_now w div lvl n mod 64) w')"
  using cascade_inv [of due F w' n N] assms by (auto simp: cascaded_def)

lemma cascades_inv:
  assumes inv: "tw_inv due F w" and work: "tw_work w = []"
  shows "\<exists>N. cascaded due F w N (cascades w) \<and> (\<forall>n \<in> {2, 3, 4, 5}. lvl n dvd tw_now w \<longrightarrow> n \<in> N)"
proof -
  let ?J = "tw_now w"
  have z: "unat (tw_jiffies w AND 255) = 0 \<longleftrightarrow> lvl 2 dvd ?J" by (simp add: unat_and_255_64 lvl_num dvd_eq_mod_eq_0)
  have x: "tw_index 0 w = ?J div lvl 2 mod 64" "tw_index 1 w = ?J div lvl 3 mod 64"
    "tw_index 2 w = ?J div lvl 4 mod 64" "tw_index 3 w = ?J div lvl 5 mod 64"
    by (rule tw_index_lvl; simp)+
  note ch = lvl_chain [of ?J]
  have c0: "cascaded due F w {} w" using inv work by (simp add: cascaded_def)
  show ?thesis
  proof (cases "lvl 2 dvd ?J")
    case False
    with ch z have "cascades w = w" "\<forall>n \<in> {2, 3, 4, 5}. \<not> lvl n dvd ?J" by (auto simp: cascades_def)
    with c0 show ?thesis by auto
  next
    case d2: True
    let ?w2 = "cascade 2 (?J div lvl 2 mod 64) w"
    have c2: "cascaded due F w {2} ?w2" using cascaded_step [OF c0, of 2] d2 by simp
    show ?thesis
    proof (cases "lvl 3 dvd ?J")
      case False
      with d2 ch z x have "cascades w = ?w2" "\<forall>n \<in> {3, 4, 5}. \<not> lvl n dvd ?J" by (auto simp: cascades_def Let_def)
      with c2 show ?thesis by auto
    next
      case d3: True
      let ?w3 = "cascade 3 (?J div lvl 3 mod 64) ?w2"
      have c3: "cascaded due F w {3, 2} ?w3" using cascaded_step [OF c2, of 3] d3 by simp
      show ?thesis
      proof (cases "lvl 4 dvd ?J")
        case False
        with d2 d3 ch z x have "cascades w = ?w3" "\<forall>n \<in> {4, 5}. \<not> lvl n dvd ?J" by (auto simp: cascades_def Let_def)
        with c3 show ?thesis by auto
      next
        case d4: True
        let ?w4 = "cascade 4 (?J div lvl 4 mod 64) ?w3"
        have c4: "cascaded due F w {4, 3, 2} ?w4" using cascaded_step [OF c3, of 4] d4 by simp
        show ?thesis
        proof (cases "lvl 5 dvd ?J")
          case False
          with d2 d3 d4 ch z x have "cascades w = ?w4" by (auto simp: cascades_def Let_def)
          with c4 False show ?thesis by auto
        next
          case d5: True
          with d2 d3 d4 ch z x have "cascades w = cascade 5 (?J div lvl 5 mod 64) ?w4" by (auto simp: cascades_def Let_def)
          with cascaded_step [OF c4, of 5] d5 show ?thesis by auto
        qed
      qed
    qed
  qed
qed

lemma tick_collect_sel:
  assumes c: "cascaded due {} w N (cascades w)"
  shows "tw_work (tick_collect w) = tw_vec (cascades w) 1 (tw_now w mod 256)" "tw_jiffies (tick_collect w) = tw_jiffies w + 1"
    "tw_expires (tick_collect w) = tw_expires w" "tw_pending (tick_collect w) = tw_pending (cascades w)"
    "set (tw_vec (tick_collect w) n i) = (if n = 1 \<and> i = tw_now w mod 256 then {} else set (tw_vec (cascades w) n i))"
    "once (tw_vec (tick_collect w))"
proof -
  have iv: "tw_inv due {} (cascades w)" "tw_jiffies (cascades w) = tw_jiffies w" "tw_expires (cascades w) = tw_expires w"
    using c by (auto simp: cascaded_def)
  show "tw_work (tick_collect w) = tw_vec (cascades w) 1 (tw_now w mod 256)" "tw_jiffies (tick_collect w) = tw_jiffies w + 1"
    "tw_expires (tick_collect w) = tw_expires w" "tw_pending (tick_collect w) = tw_pending (cascades w)"
    "set (tw_vec (tick_collect w) n i) = (if n = 1 \<and> i = tw_now w mod 256 then {} else set (tw_vec (cascades w) n i))"
    using iv by (auto simp: tick_collect_def Let_def unat_and_255_64)
  show "once (tw_vec (tick_collect w))"
    using tw_invD(2) [OF iv(1)] unfolding once_def by (auto simp: tick_collect_def Let_def)
qed

lemma first_vec_due:
  assumes "tw_inv due {} v" "a \<in> set (tw_vec v 1 i)"
  shows "due a = tw_now v \<longleftrightarrow> i = tw_now v mod 256" "tw_now v \<le> due a"
proof -
  have p: "tw_now v \<le> due a" "due a < tw_now v + 256" "i = due a mod 256"
    using tw_invD(3) [OF assms] by (auto simp: timer_ok_def placed_def)
  show "tw_now v \<le> due a" by (rule p(1))
  show "due a = tw_now v \<longleftrightarrow> i = tw_now v mod 256"
  proof
    assume "i = tw_now v mod 256"
    then have "(due a - tw_now v) mod 256 = 0" using p(1,3) by (metis mod_eq_dvd_iff_nat dvd_imp_mod_0)
    then show "due a = tw_now v" using p(1,2) by simp
  qed (use p(3) in simp)
qed

lemma cascaded_far:
  assumes c: "cascaded due {} w N v" and N: "\<forall>n \<in> {2, 3, 4, 5}. lvl n dvd tw_now w \<longrightarrow> n \<in> N"
    and a: "a \<in> set (tw_vec v n i)" "n \<noteq> 1"
  shows "tw_now w div lvl n < due a div lvl n" "tw_now w < due a"
proof -
  have iv: "tw_inv due {} v" "tw_jiffies v = tw_jiffies w" using c by (auto simp: cascaded_def)
  have t: "placed (tw_now w) (due a) n i" using tw_invD(3) [OF iv(1) a(1)] iv(2) by (simp add: timer_ok_def)
  then have "n \<in> {2, 3, 4, 5}" using a(2) by (auto simp: placed_def)
  then show lt: "tw_now w div lvl n < due a div lvl n"
    using t a N c iv(2) by (auto simp: placed_def cascaded_def strict_def split: if_splits)
  show "tw_now w < due a" using lt div_le_mono [of "due a" "tw_now w" "lvl n"] by (meson leD leI)
qed

lemma tick_timer_ok:
  assumes c: "cascaded due {} w N (cascades w)" and N: "\<forall>n \<in> {2, 3, 4, 5}. lvl n dvd tw_now w \<longrightarrow> n \<in> N"
    and lt: "tw_now w + 1 < 2 ^ 61" and a: "a \<in> set (tw_vec (tick_collect w) n i)"
  shows "timer_ok due (tick_collect w) n i a" "tw_now w < due a"
proof -
  have iv: "tw_inv due {} (cascades w)" "tw_jiffies (cascades w) = tw_jiffies w" "tw_expires (cascades w) = tw_expires w"
    using c by (auto simp: cascaded_def)
  note W = tick_collect_sel [OF c]
  have J: "tw_now (tick_collect w) = tw_now w + 1" unfolding W(2) using lt by (simp add: unat_word_ariths)
  have m: "a \<in> set (tw_vec (cascades w) n i)" "\<not> (n = 1 \<and> i = tw_now w mod 256)" using a by (auto simp: W(5) split: if_splits)
  have t: "timer_ok due (cascades w) n i a" using tw_invD(3) [OF iv(1) m(1)] .
  have ne: "due a \<noteq> tw_now w" "tw_now w \<le> due a" if "n = 1" using first_vec_due [OF iv(1), of a i] m that iv(2) by auto
  show "tw_now w < due a" using ne cascaded_far(2) [OF c N m(1)] by (cases "n = 1") auto
  have "placed (tw_now w + 1) (due a) n i"
    by (rule placed_next) (use t iv(2) ne(1) cascaded_far(1) [OF c N m(1)] in \<open>simp_all add: timer_ok_def\<close>)
  with t show "timer_ok due (tick_collect w) n i a" unfolding timer_ok_def J W(3) iv(3) by simp
qed

lemma tick_collect_inv:
  assumes inv: "tw_inv due {} w" and work: "tw_work w = []" and lt: "tw_now w + 1 < 2 ^ 61"
  shows "tw_inv due (set (tw_work (tick_collect w))) (tick_collect w)
    \<and> tw_now (tick_collect w) = tw_now w + 1
    \<and> set (tw_work (tick_collect w)) = {a. tw_pending w a \<and> due a = tw_now w}
    \<and> (\<forall>a. in_vecs (tw_vec (tick_collect w)) a \<longrightarrow> tw_now w < due a)
    \<and> tw_expires (tick_collect w) = tw_expires w"
proof -
  let ?v = "cascades w" and ?w = "tick_collect w"
  from cascades_inv [OF inv work] obtain N where c: "cascaded due {} w N ?v"
    and N: "\<forall>n \<in> {2, 3, 4, 5}. lvl n dvd tw_now w \<longrightarrow> n \<in> N" by blast
  have iv: "tw_inv due {} ?v" "tw_jiffies ?v = tw_jiffies w" "tw_pending ?v = tw_pending w" using c by (auto simp: cascaded_def)
  note W = tick_collect_sel [OF c]
  have J: "tw_now ?w = tw_now w + 1" unfolding W(2) using lt by (simp add: unat_word_ariths)
  have on: "once (tw_vec ?v)" by (rule tw_invD(2) [OF iv(1)])
  have vw: "in_vecs (tw_vec ?v) a \<longleftrightarrow> a \<in> set (tw_work ?w) \<or> in_vecs (tw_vec ?w) a" for a
    unfolding in_vecs_def W(1,5) by (metis empty_iff)
  have dj: "\<not> in_vecs (tw_vec ?w) a" if "a \<in> set (tw_work ?w)" for a
    using that on unfolding in_vecs_def W(1,5) once_def by (metis empty_iff)
  have di: "distinct (tw_work ?w)" using on by (simp add: W(1) once_def)
  have pw: "tw_pending ?w a \<longleftrightarrow> a \<in> set (tw_work ?w) \<or> in_vecs (tw_vec ?w) a" for a
    using vw tw_invD(4) [OF iv(1), of a] by (simp add: W(4))
  have "tw_inv due (set (tw_work ?w)) ?w"
    unfolding tw_inv_def using lt J W(6) tick_timer_ok(1) [OF c N lt] pw dj di by auto
  moreover have far: "in_vecs (tw_vec ?w) a \<Longrightarrow> tw_now w < due a" for a
    using tick_timer_ok(2) [OF c N lt] by (auto simp: in_vecs_def)
  moreover have "set (tw_work ?w) = {a. tw_pending w a \<and> due a = tw_now w}"
  proof (intro set_eqI iffI)
    fix a assume a: "a \<in> set (tw_work ?w)"
    then have "due a = tw_now w" using first_vec_due(1) [OF iv(1), of a "tw_now w mod 256"] iv(2) by (simp add: W(1))
    with a pw W(4) iv(3) show "a \<in> {a. tw_pending w a \<and> due a = tw_now w}" by simp
  next
    fix a assume "a \<in> {a. tw_pending w a \<and> due a = tw_now w}"
    then show "a \<in> set (tw_work ?w)" using pw [of a] far [of a] W(4) iv(3) by fastforce
  qed
  ultimately show ?thesis using J W(3) by blast
qed

section \<open>Calls and callbacks\<close>

abbreviation tw_ok :: "(addr \<Rightarrow> nat) \<Rightarrow> wheel \<Rightarrow> bool" where
  "tw_ok due w \<equiv> tw_inv due (set (tw_work w)) w"

fun call_ok :: "nat \<Rightarrow> timer_call \<Rightarrow> bool" where
  "call_ok J (Call_Add t e) = (unat e < J + 2 ^ 32)"
| "call_ok J (Call_Mod t e) = (unat e < J + 2 ^ 32)"
| "call_ok J (Call_Del t) = True"

fun call_target :: "timer_call \<Rightarrow> addr" where
  "call_target (Call_Add t e) = t"
| "call_target (Call_Mod t e) = t"
| "call_target (Call_Del t) = t"

lemma inv_expires:
  assumes "tw_inv due F w" "\<not> in_vecs (tw_vec w) a"
  shows "tw_inv due F (w\<lparr>tw_expires := (tw_expires w)(a := e)\<rparr>)"
proof -
  have "timer_ok due (w\<lparr>tw_expires := (tw_expires w)(a := e)\<rparr>) n i b" if "b \<in> set (tw_vec w n i)" for n i b
  proof -
    have "b \<noteq> a" using that assms(2) unfolding in_vecs_def by blast
    with tw_invD(3) [OF assms(1) that] show ?thesis by (simp add: timer_ok_def)
  qed
  with assms(1) show ?thesis unfolding tw_inv_def by simp
qed

lemma detach_facts:
  "tw_work (detach_timer a w) = removeAll a (tw_work w)" "tw_jiffies (detach_timer a w) = tw_jiffies w"
  "tw_expires (detach_timer a w) = tw_expires w" "tw_pending (detach_timer a w) = (tw_pending w)(a := False)"
  "\<not> in_vecs (tw_vec (detach_timer a w)) a"
  by (simp_all add: detach_timer_def in_vecs_removeAll)

lemma ok_detach: "tw_ok due w \<Longrightarrow> tw_ok due (detach_timer a w)"
  using inv_detach [of due "set (tw_work w)" w a] by (simp add: detach_facts)

lemma ok_not_pending: "tw_ok due w \<Longrightarrow> \<not> tw_pending w a \<Longrightarrow> \<not> in_vecs (tw_vec w) a \<and> a \<notin> set (tw_work w)"
  using tw_invD(4) [of due "set (tw_work w)" w a] by blast

lemma mod_raw_ok:
  assumes ok: "tw_ok due w" and e: "unat e < tw_now w + 2 ^ 32"
  shows "tw_inv (due(t := max (tw_now w) (unat e))) (set (tw_work w) - {t}) (fst (mod_timer_raw t e w))
    \<and> tw_jiffies (fst (mod_timer_raw t e w)) = tw_jiffies w
    \<and> tw_work (fst (mod_timer_raw t e w)) = removeAll t (tw_work w)
    \<and> tw_expires (fst (mod_timer_raw t e w)) = (tw_expires w)(t := e)
    \<and> tw_pending (fst (mod_timer_raw t e w)) = (tw_pending w)(t := True)
    \<and> snd (mod_timer_raw t e w) = (if tw_pending w t then 1 else 0)"
proof -
  let ?v = "if tw_pending w t then detach_timer t w else w"
  let ?u = "?v\<lparr>tw_expires := (tw_expires ?v)(t := e)\<rparr>"
  have v: "tw_ok due ?v" using ok ok_detach by simp
  have nv: "\<not> in_vecs (tw_vec ?v) t" "t \<notin> set (tw_work ?v)" "tw_work ?v = removeAll t (tw_work w)"
    using ok_not_pending [OF ok, of t] by (auto simp: detach_facts)
  have j: "tw_jiffies ?v = tw_jiffies w" "tw_expires ?v = tw_expires w" by (simp_all add: detach_facts)
  have u: "tw_inv due (set (tw_work ?v)) ?u" using inv_expires [OF v nv(1)] by simp
  have e2: "unat (tw_expires ?u t) < 2 ^ 62" "unat (tw_expires ?u t) < tw_now ?u + 2 ^ 32"
    using tw_invD(1) [OF ok] e j by simp_all
  have "tw_inv (due(t := max (tw_now ?u) (unat (tw_expires ?u t)))) (set (tw_work ?v) - {t}) (internal_add_timer t ?u)"
    by (rule inv_add(1) [OF u]) (use nv e2 in simp_all)
  then have i: "tw_inv (due(t := max (tw_now w) (unat e))) (set (tw_work w) - {t}) (internal_add_timer t ?u)"
    using nv(3) j by simp
  have m: "mod_timer_raw t e w = (internal_add_timer t ?u, if tw_pending w t then 1 else 0)"
    by (simp add: mod_timer_raw_def timer_pending_def Let_def)
  show ?thesis
    unfolding m fst_conv snd_conv using i nv(3) j
    by (simp add: internal_add_timer_def detach_facts set_removeAll)
qed

lemma do_call_ok:
  assumes ok: "tw_ok due w" and c: "call_ok (tw_now w) c"
  shows "\<exists>due'. tw_ok due' (do_call c w) \<and> tw_jiffies (do_call c w) = tw_jiffies w
     \<and> (tw_work (do_call c w) = tw_work w \<or> tw_work (do_call c w) = removeAll (call_target c) (tw_work w))
     \<and> (\<forall>a. a \<noteq> call_target c \<longrightarrow> due' a = due a \<and> tw_pending (do_call c w) a = tw_pending w a)"
proof (cases c)
  case (Call_Add t e)
  let ?m = "mod_timer_raw t e w"
  have eq: "do_call c w = fst ?m"
  proof -
    have "mod_timer_raw t e (w\<lparr>tw_expires := (tw_expires w)(t := e)\<rparr>) = ?m"
      by (simp add: mod_timer_raw_def timer_pending_def detach_timer_def Let_def)
    with Call_Add show ?thesis by (simp add: add_timer_def)
  qed
  have e: "unat e < tw_now w + 2 ^ 32" using c Call_Add by simp
  from mod_raw_ok [OF ok this, of t] Call_Add show ?thesis
    unfolding eq by (intro exI [of _ "due(t := max (tw_now w) (unat e))"]) simp
next
  case (Call_Mod t e)
  show ?thesis
  proof (cases "tw_expires w t = e \<and> tw_pending w t")
    case True
    with Call_Mod ok show ?thesis by (auto simp: mod_timer_def timer_pending_def)
  next
    case False
    then have eq: "do_call c w = fst (mod_timer_raw t e w)" using Call_Mod by (auto simp: mod_timer_def timer_pending_def)
    have e: "unat e < tw_now w + 2 ^ 32" using c Call_Mod by simp
    from mod_raw_ok [OF ok this, of t] Call_Mod show ?thesis
      unfolding eq by (intro exI [of _ "due(t := max (tw_now w) (unat e))"]) simp
  qed
next
  case (Call_Del t)
  show ?thesis
  proof (cases "tw_pending w t")
    case True
    with Call_Del ok_detach [OF ok, of t] show ?thesis
      by (intro exI [of _ due]) (simp add: del_timer_def timer_pending_def detach_facts)
  next
    case False
    with Call_Del ok show ?thesis by (intro exI [of _ due]) (simp add: del_timer_def timer_pending_def)
  qed
qed

lemma call_code [simp]:
  "tw_function (do_call c w) = tw_function w" "tw_data (do_call c w) = tw_data w"
  by (cases c; simp add: add_timer_def mod_timer_def mod_timer_raw_def del_timer_def detach_timer_def internal_add_timer_def Let_def)+

lemma calls_code [simp]:
  "tw_function (fold do_call cs w) = tw_function w" "tw_data (fold do_call cs w) = tw_data w"
  by (induction cs arbitrary: w) simp_all

lemma do_calls_ok:
  assumes "tw_ok due w" "\<forall>c \<in> set cs. call_ok (tw_now w) c"
  shows "\<exists>due'. tw_ok due' (fold do_call cs w) \<and> tw_jiffies (fold do_call cs w) = tw_jiffies w
     \<and> set (tw_work (fold do_call cs w)) \<subseteq> set (tw_work w)
     \<and> (\<forall>a. a \<notin> call_target ` set cs \<longrightarrow> due' a = due a \<and> tw_pending (fold do_call cs w) a = tw_pending w a
          \<and> (a \<in> set (tw_work w) \<longrightarrow> a \<in> set (tw_work (fold do_call cs w))))"
  using assms
proof (induction cs arbitrary: due w)
  case Nil
  then show ?case by auto
next
  case (Cons c cs)
  from do_call_ok [OF Cons.prems(1), of c] Cons.prems(2) obtain due1 where
    d: "tw_ok due1 (do_call c w)" "tw_jiffies (do_call c w) = tw_jiffies w" "set (tw_work (do_call c w)) \<subseteq> set (tw_work w)"
    "\<And>a. a \<noteq> call_target c \<Longrightarrow> due1 a = due a \<and> tw_pending (do_call c w) a = tw_pending w a
        \<and> (a \<in> set (tw_work w) \<longrightarrow> a \<in> set (tw_work (do_call c w)))"
    by auto
  from Cons.IH [OF d(1)] Cons.prems(2) d(2) obtain due2 where
    e: "tw_ok due2 (fold do_call cs (do_call c w))" "tw_jiffies (fold do_call cs (do_call c w)) = tw_jiffies w"
    "set (tw_work (fold do_call cs (do_call c w))) \<subseteq> set (tw_work (do_call c w))"
    "\<And>a. a \<notin> call_target ` set cs \<Longrightarrow> due2 a = due1 a \<and> tw_pending (fold do_call cs (do_call c w)) a = tw_pending (do_call c w) a
        \<and> (a \<in> set (tw_work (do_call c w)) \<longrightarrow> a \<in> set (tw_work (fold do_call cs (do_call c w))))"
    by auto
  show ?case
    unfolding fold_simps using e(1,2) d(3) e(3) d(4) e(4) by (intro exI [of _ due2]) auto
qed

text \<open>The timers that the callbacks of some timers add, change or delete.\<close>

definition touched :: "(nat \<Rightarrow> u64 \<Rightarrow> timer_call list) \<Rightarrow> wheel \<Rightarrow> addr list \<Rightarrow> addr set" where
  "touched handler w fired = (\<Union>t \<in> set fired. call_target ` set (handler (tw_function w t) (tw_data w t)))"

lemma touched_code:
  "tw_function v = tw_function w \<Longrightarrow> tw_data v = tw_data w \<Longrightarrow> touched handler v fired = touched handler w fired"
  by (simp add: touched_def)

lemma touched_append: "touched handler w (f @ g) = touched handler w f \<union> touched handler w g"
  by (simp add: touched_def)

lemma detach_code [simp]: "tw_function (detach_timer t w) = tw_function w" "tw_data (detach_timer t w) = tw_data w"
  by (simp_all add: detach_timer_def)

text \<open>What becomes of a timer that no callback touches while a list is worked off.\<close>

definition work_done :: "wheel \<Rightarrow> (addr \<Rightarrow> nat) \<Rightarrow> wheel \<Rightarrow> (addr \<Rightarrow> nat) \<Rightarrow> addr list \<Rightarrow> addr \<Rightarrow> bool" where
  "work_done w due w' due' fired a \<longleftrightarrow> due' a = due a \<and> (a \<in> set (tw_work w) \<longrightarrow> a \<in> set fired)
     \<and> tw_pending w' a = (tw_pending w a \<and> a \<notin> set (tw_work w))"

lemma run_work_step:
  assumes "tw_work w = t # ts" "run_work handler (fold do_call (handler (tw_function w t) (tw_data w t)) (detach_timer t w)) = (w', fired)"
  shows "run_work handler w = (w', t # fired)"
  using assms by (simp add: run_work.simps [of handler w])

lemma run_work_ok:
  assumes "tw_ok due w" "\<forall>fn data. \<forall>c \<in> set (handler fn data). call_ok (tw_now w) c"
  shows "\<exists>due' w' fired. run_work handler w = (w', fired) \<and> tw_ok due' w' \<and> tw_work w' = []
     \<and> tw_jiffies w' = tw_jiffies w \<and> tw_function w' = tw_function w \<and> tw_data w' = tw_data w
     \<and> distinct fired \<and> set fired \<subseteq> set (tw_work w)
     \<and> (\<forall>a. a \<notin> touched handler w fired \<longrightarrow> work_done w due w' due' fired a)"
  using assms
proof (induction handler w arbitrary: due rule: run_work.induct)
  case (1 handler w)
  show ?case
  proof (cases "tw_work w")
    case Nil
    with "1.prems"(1) show ?thesis by (auto simp: run_work.simps [of handler w] work_done_def)
  next
    case (Cons t ts)
    let ?cs = "handler (tw_function w t) (tw_data w t)"
    let ?v = "fold do_call ?cs (detach_timer t w)"
    have w0: "tw_ok due (detach_timer t w)" using ok_detach [OF "1.prems"(1)] .
    have "\<forall>c \<in> set ?cs. call_ok (tw_now (detach_timer t w)) c"
      using "1.prems"(2) by (simp add: detach_facts)
    from do_calls_ok [OF w0 this] obtain due1 where
      d: "tw_ok due1 ?v" "tw_jiffies ?v = tw_jiffies w" "set (tw_work ?v) \<subseteq> set (tw_work w) - {t}"
      and un: "\<And>a. a \<notin> call_target ` set ?cs \<Longrightarrow> due1 a = due a \<and> tw_pending ?v a = (tw_pending w a \<and> a \<noteq> t)
          \<and> (a \<in> set (tw_work w) \<longrightarrow> a \<noteq> t \<longrightarrow> a \<in> set (tw_work ?v))"
      by (auto simp: detach_facts)
    have h: "\<forall>fn data. \<forall>c \<in> set (handler fn data). call_ok (tw_now ?v) c" using "1.prems"(2) d(2) by simp
    from "1.IH" [OF Cons refl refl refl d(1) h] obtain due2 w2 fired where
      r: "run_work handler ?v = (w2, fired)" "tw_ok due2 w2" "tw_work w2 = []" "tw_jiffies w2 = tw_jiffies ?v"
        "tw_function w2 = tw_function w" "tw_data w2 = tw_data w"
        "distinct fired" "set fired \<subseteq> set (tw_work ?v)"
        "\<And>a. a \<notin> touched handler w fired \<Longrightarrow> work_done ?v due1 w2 due2 fired a"
      using touched_code [of ?v w handler] by auto
    have "work_done w due w2 due2 (t # fired) a" if a: "a \<notin> touched handler w (t # fired)" for a
    proof -
      have "a \<notin> call_target ` set ?cs" "a \<notin> touched handler w fired" using a by (auto simp: touched_def)
      with un [of a] r(9) [of a] d(3) Cons show ?thesis unfolding work_done_def by (cases "a = t") auto
    qed
    with r d run_work_step [OF Cons r(1)] Cons show ?thesis
      by (intro exI [of _ due2] exI [of _ w2] exI [of _ "t # fired"]) auto
  qed
qed

section \<open>Runs\<close>

lemma time_after_eq_nat:
  assumes "unat a < 2 ^ 62" "unat b < 2 ^ 62"
  shows "time_after_eq a b \<longleftrightarrow> unat b \<le> unat a"
proof (cases "unat b \<le> unat a")
  case True
  then have "unat (a - b) = unat a - unat b" by (simp add: unat_sub word_le_nat_alt)
  then have "\<not> sint (a - b) < 0" unfolding sint_neg_iff using assms(1) by simp
  with True show ?thesis by (simp add: time_after_eq_def)
next
  case False
  then have "unat (a - b) = unat a + 2 ^ 64 - unat b" using unat_sub_if' [of a b] by simp
  then have "sint (a - b) < 0" unfolding sint_neg_iff using assms(2) by simp
  with False show ?thesis by (simp add: time_after_eq_def)
qed

lemma call_ok_mono: "call_ok J c \<Longrightarrow> J \<le> K \<Longrightarrow> call_ok K c"
  by (cases c) auto

text \<open>
  What becomes of a timer that no callback touches up to the tick \<open>J\<close>: it is fired if it was due before \<open>J\<close>, and stays pending if it is due
  later.
\<close>

definition kept_until :: "nat \<Rightarrow> wheel \<Rightarrow> (addr \<Rightarrow> nat) \<Rightarrow> wheel \<Rightarrow> (addr \<Rightarrow> nat) \<Rightarrow> addr list \<Rightarrow> addr \<Rightarrow> bool" where
  "kept_until J w due w' due' fired a \<longleftrightarrow>
     due' a = due a \<and> (a \<in> set fired \<longleftrightarrow> tw_pending w a \<and> due a < J) \<and> count_list fired a \<le> 1
     \<and> (tw_pending w' a \<longleftrightarrow> tw_pending w a \<and> J \<le> due a)"

lemma placed_due:
  assumes "placed J D n i"
  shows "J \<le> D"
proof (cases "n = 1")
  case True
  with assms show ?thesis by (simp add: placed_def)
next
  case False
  have "J div lvl n \<le> D div lvl n \<and> (lvl n dvd J \<or> J div lvl n < D div lvl n)"
    using assms False by (auto simp: placed_def split: if_splits)
  then consider "lvl n dvd J" "J div lvl n \<le> D div lvl n" | "J div lvl n < D div lvl n" by blast
  then show ?thesis
  proof cases
    case 1
    then have "J = J div lvl n * lvl n" by simp
    also have "\<dots> \<le> D div lvl n * lvl n" using 1(2) by (rule mult_le_mono1)
    finally show ?thesis using div_times_less_eq_dividend order_trans by blast
  next
    case 2
    then show ?thesis by (meson div_le_mono linorder_not_le nat_le_linear)
  qed
qed

lemma pending_due:
  assumes "tw_inv due {} w" "tw_pending w a"
  shows "tw_now w \<le> due a" "unat (tw_expires w a) \<le> due a"
proof -
  obtain n i where "a \<in> set (tw_vec w n i)" using tw_invD(4) [OF assms(1), of a] assms(2) by (auto simp: in_vecs_def)
  then have "timer_ok due w n i a" by (rule tw_invD(3) [OF assms(1)])
  then show "tw_now w \<le> due a" "unat (tw_expires w a) \<le> due a" using placed_due by (auto simp: timer_ok_def)
qed

lemma cascade_code [simp]: "tw_function (cascade n i w) = tw_function w" "tw_data (cascade n i w) = tw_data w"
proof -
  have "tw_function (fold internal_add_timer as v) = tw_function v \<and> tw_data (fold internal_add_timer as v) = tw_data v" for as v
    by (induction as arbitrary: v) (simp_all add: internal_add_timer_def)
  then show "tw_function (cascade n i w) = tw_function w" "tw_data (cascade n i w) = tw_data w" by (simp_all add: cascade_def)
qed

lemma tick_collect_same:
  assumes "tw_inv due {} w" "tw_work w = []"
  shows "tw_pending (tick_collect w) = tw_pending w" "tw_function (tick_collect w) = tw_function w" "tw_data (tick_collect w) = tw_data w"
proof -
  obtain N where c: "cascaded due {} w N (cascades w)" using cascades_inv [OF assms] by blast
  then show "tw_pending (tick_collect w) = tw_pending w" using tick_collect_sel(4) [OF c] by (simp add: cascaded_def)
  show "tw_function (tick_collect w) = tw_function w" "tw_data (tick_collect w) = tw_data w"
    by (simp_all add: tick_collect_def cascades_def Let_def)
qed

lemma distinct_count_list_le: "distinct xs \<Longrightarrow> count_list xs a \<le> 1"
  by (induction xs) (auto simp: count_list_0_iff)

lemma run_tick_ok:
  assumes ok: "tw_inv due {} w" "tw_work w = []" and lt: "tw_now w + 1 < 2 ^ 61"
    and h: "\<forall>fn data. \<forall>c \<in> set (handler fn data). call_ok (tw_now w) c"
  shows "\<exists>due' w' fired. run_tick handler w = (w', fired) \<and> tw_inv due' {} w' \<and> tw_work w' = []
     \<and> tw_now w' = tw_now w + 1 \<and> tw_function w' = tw_function w \<and> tw_data w' = tw_data w
     \<and> distinct fired \<and> set fired \<subseteq> {a. tw_pending w a \<and> due a = tw_now w}
     \<and> (\<forall>a. a \<notin> touched handler w fired \<longrightarrow> kept_until (tw_now w + 1) w due w' due' fired a)"
proof -
  note c = tick_collect_inv [OF ok lt] and s = tick_collect_same [OF ok]
  have "\<forall>fn data. \<forall>c \<in> set (handler fn data). call_ok (tw_now (tick_collect w)) c"
    using h c call_ok_mono by (metis le_add1)
  from run_work_ok [OF _ this] c s obtain due' w' fired where
    r: "run_work handler (tick_collect w) = (w', fired)" "tw_ok due' w'" "tw_work w' = []"
    "tw_jiffies w' = tw_jiffies (tick_collect w)" "tw_function w' = tw_function w" "tw_data w' = tw_data w"
    "distinct fired" "set fired \<subseteq> set (tw_work (tick_collect w))"
    "\<And>a. a \<notin> touched handler w fired \<Longrightarrow> work_done (tick_collect w) due w' due' fired a"
    using touched_code [of "tick_collect w" w handler] by metis
  have "kept_until (tw_now w + 1) w due w' due' fired a" if a: "a \<notin> touched handler w fired" for a
    using r(9) [OF a] r(7,8) c s(1) pending_due [OF ok(1), of a] distinct_count_list_le [of fired a]
    by (auto simp: work_done_def kept_until_def)
  with r c show ?thesis by (intro exI [of _ due'] exI [of _ w'] exI [of _ fired]) (simp add: run_tick_def)
qed

lemma kept_trans:
  assumes "kept_until J w due w1 due1 f1 a" "kept_until K w1 due1 w2 due2 f2 a" "J \<le> K"
  shows "kept_until K w due w2 due2 (f1 @ f2) a"
  using assms unfolding kept_until_def by (auto simp: count_list_0_iff [symmetric])

text \<open>
  \<open>n\<close> readings that are not behind the wheel, each advancing it by a tick, and one that is behind it.
\<close>

definition readings_end :: "u64 list \<Rightarrow> nat \<Rightarrow> nat \<Rightarrow> bool" where
  "readings_end js J n \<longleftrightarrow> n < length js \<and> (\<forall>k < n. J + k \<le> unat (js ! k)) \<and> unat (js ! n) < J + n"

lemma run_timers_ok:
  assumes "tw_inv due {} w" "tw_work w = []" "readings_end js (tw_now w) n" "\<forall>j \<in> set js. unat j + 1 < 2 ^ 61"
    and "tw_now w < 2 ^ 61" "\<forall>fn data. \<forall>c \<in> set (handler fn data). call_ok (tw_now w) c"
  shows "\<exists>due' w' fired. run_timers handler js w = Some (w', fired)
     \<and> tw_inv due' {} w' \<and> tw_work w' = [] \<and> tw_now w' = tw_now w + n \<and> tw_function w' = tw_function w \<and> tw_data w' = tw_data w
     \<and> (\<forall>a. a \<notin> touched handler w fired \<longrightarrow> kept_until (tw_now w + n) w due w' due' fired a)"
  using assms
proof (induction n arbitrary: due w js)
  case 0
  then obtain j js' where j: "js = j # js'" "unat j < tw_now w" by (cases js) (auto simp: readings_end_def)
  have "\<not> time_after_eq j (tw_jiffies w)" using time_after_eq_nat [of j "tw_jiffies w"] "0.prems"(5) j(2) by simp
  moreover have "kept_until (tw_now w) w due w due [] a" for a
    using pending_due [OF "0.prems"(1), of a] by (auto simp: kept_until_def)
  ultimately show ?case using 0 j by auto
next
  case (Suc n)
  then obtain j js' where j: "js = j # js'" "tw_now w \<le> unat j" by (cases js) (auto simp: readings_end_def)
  have b: "tw_now w + 1 < 2 ^ 61" "unat j < 2 ^ 62" using Suc.prems(4) j by auto
  then have t: "time_after_eq j (tw_jiffies w)" using time_after_eq_nat [of j "tw_jiffies w"] j(2) by simp
  from run_tick_ok [OF Suc.prems(1,2) b(1) Suc.prems(6)] obtain due1 w1 f1 where
    w1: "run_tick handler w = (w1, f1)" "tw_inv due1 {} w1" "tw_work w1 = []" "tw_now w1 = tw_now w + 1"
    "tw_function w1 = tw_function w" "tw_data w1 = tw_data w"
    "\<And>a. a \<notin> touched handler w f1 \<Longrightarrow> kept_until (tw_now w + 1) w due w1 due1 f1 a" by blast
  have h: "\<forall>fn data. \<forall>c \<in> set (handler fn data). call_ok (tw_now w1) c"
    using Suc.prems(6) w1(4) call_ok_mono by (metis le_add1)
  have re: "readings_end js' (tw_now w1) n" "\<forall>j \<in> set js'. unat j + 1 < 2 ^ 61" "tw_now w1 < 2 ^ 61"
    using Suc.prems(3,4) j(1) b(1) w1(4) by (auto simp: readings_end_def)
  from Suc.IH [OF w1(2,3) re h] obtain due2 w2 f2 where
    w2: "run_timers handler js' w1 = Some (w2, f2)" "tw_inv due2 {} w2" "tw_work w2 = []" "tw_now w2 = tw_now w + Suc n"
    "tw_function w2 = tw_function w" "tw_data w2 = tw_data w"
    "\<And>a. a \<notin> touched handler w f2 \<Longrightarrow> kept_until (tw_now w + Suc n) w1 due1 w2 due2 f2 a"
    using w1(4-6) touched_code [OF w1(5,6), of handler] by auto
  have "kept_until (tw_now w + Suc n) w due w2 due2 (f1 @ f2) a" if "a \<notin> touched handler w (f1 @ f2)" for a
    using that kept_trans [OF w1(7) w2(7)] by (simp add: touched_append)
  with t w1(1) w2 j(1) show ?case by auto
qed

lemma run_timers_on:
  assumes "tw_inv due {} w" "tw_work w = []" "\<forall>j \<in> set js. unat j + 1 < 2 ^ 61"
    and "\<forall>fn data. \<forall>c \<in> set (handler fn data). call_ok (tw_now w) c"
    and "\<forall>k < length js. tw_now w + k \<le> unat (js ! k)"
  shows "run_timers handler js w = None"
  using assms
proof (induction js arbitrary: due w)
  case (Cons j js)
  have j: "tw_now w \<le> unat j" "unat j + 1 < 2 ^ 61" using Cons.prems(3,5) by auto
  have t: "time_after_eq j (tw_jiffies w)" using time_after_eq_nat [of j "tw_jiffies w"] j by simp
  from run_tick_ok [OF Cons.prems(1,2) _ Cons.prems(4)] j obtain due1 w1 f1 where
    w1: "run_tick handler w = (w1, f1)" "tw_inv due1 {} w1" "tw_work w1 = []" "tw_now w1 = tw_now w + 1" by fastforce
  have h: "\<forall>fn data. \<forall>c \<in> set (handler fn data). call_ok (tw_now w1) c"
    using Cons.prems(4) w1(4) call_ok_mono by (metis le_add1)
  have "tw_now w1 + k \<le> unat (js ! k)" if "k < length js" for k
    using Cons.prems(5) [rule_format, of "Suc k"] that w1(4) by simp
  with Cons.IH [OF w1(2,3) _ h] Cons.prems(3) t w1(1) show ?case by simp
qed simp

lemma cascade_num: "tw_num (cascade n i w) = tw_num w + of_nat (length (tw_vec w n i))"
proof -
  have "tw_num (fold internal_add_timer as v) = tw_num v + of_nat (length as)" for as v
    by (induction as arbitrary: v) (simp_all add: internal_add_timer_def)
  then show ?thesis by (simp add: cascade_def)
qed

definition fresh_wheel :: wheel where
  "fresh_wheel = \<lparr>tw_expires = (\<lambda>_. 0), tw_function = (\<lambda>_. 0), tw_data = (\<lambda>_. 0), tw_pending = (\<lambda>_. False),
     tw_vec = (\<lambda>_ _. []), tw_work = [], tw_jiffies = 0, tw_num = 0\<rparr>"

lemma fresh_wheel_ok: "tw_inv due {} fresh_wheel" "tw_work fresh_wheel = []" "tw_now fresh_wheel = 0"
  by (simp_all add: tw_inv_def fresh_wheel_def once_def in_vecs_def)

text \<open>Two timers due at once; the data of a timer is its address.\<close>

definition two_timers :: wheel where
  "two_timers = fst (mod_timer_raw 6 0 (fst (mod_timer_raw 5 0 (fresh_wheel\<lparr>tw_data := (\<lambda>a. of_nat a)\<rparr>))))"

lemma two_timers_ok:
  "tw_inv ((\<lambda>_. 1)(5 := 0, 6 := 0)) {} two_timers" "tw_work two_timers = []" "tw_now two_timers = 0"
  "tw_pending two_timers = (\<lambda>_. False)(5 := True, 6 := True)"
proof -
  let ?w0 = "fresh_wheel\<lparr>tw_data := (\<lambda>a. of_nat a)\<rparr>"
  have e: "unat (0 :: u64) < tw_now v + 2 ^ 32" for v by simp
  have ok: "tw_ok (\<lambda>_. 1) ?w0" by (simp add: tw_inv_def fresh_wheel_def once_def in_vecs_def)
  note m1 = mod_raw_ok [OF ok e, of 5]
  let ?w1 = "fst (mod_timer_raw 5 0 ?w0)"
  have ok1: "tw_ok ((\<lambda>_. 1)(5 := 0)) ?w1" using m1 by (simp add: fresh_wheel_def)
  note m2 = mod_raw_ok [OF ok1 e, of 6]
  show "tw_inv ((\<lambda>_. 1)(5 := 0, 6 := 0)) {} two_timers" "tw_work two_timers = []" "tw_now two_timers = 0"
    "tw_pending two_timers = (\<lambda>_. False)(5 := True, 6 := True)"
    using m1 m2 by (simp_all add: two_timers_def fresh_wheel_def)
qed

section \<open>Properties of the timer wheel\<close>

text \<open>
  C3: a tick fires the right timers. In a consistent wheel a tick takes out exactly the pending timers
  that are due at it and leaves only later ones in the vectors. Then the callbacks run, which may add,
  change and delete timers (at most 2 to the 32 ticks ahead): the work ends, every timer is fired at
  most once, only timers due at this tick are fired, and the wheel is consistent at the next tick. A timer
  that none of the callbacks run touches is fired exactly if it was due at this tick, and otherwise stays
  pending and due when it was; no timer pending afterwards is due before its expiry.
\<close>

theorem timer_tick_exact:
  assumes "tw_inv due {} w" "tw_work w = []" "tw_now w + 1 < 2 ^ 61"
    and "\<forall>fn data. \<forall>c \<in> set (handler fn data). call_ok (tw_now w) c"
  shows "set (tw_work (tick_collect w)) = {a. tw_pending w a \<and> due a = tw_now w}
    \<and> (\<forall>a. in_vecs (tw_vec (tick_collect w)) a \<longrightarrow> tw_now w < due a)
    \<and> (\<exists>due' w' fired. run_tick handler w = (w', fired) \<and> tw_inv due' {} w' \<and> tw_work w' = []
         \<and> tw_now w' = tw_now w + 1 \<and> distinct fired \<and> set fired \<subseteq> {a. tw_pending w a \<and> due a = tw_now w}
         \<and> (\<forall>a. a \<notin> touched handler w fired \<longrightarrow>
              due' a = due a \<and> (a \<in> set fired \<longleftrightarrow> tw_pending w a \<and> due a = tw_now w)
              \<and> (tw_pending w' a \<longleftrightarrow> tw_pending w a \<and> tw_now w < due a))
         \<and> (\<forall>a. tw_pending w' a \<longrightarrow> unat (tw_expires w' a) \<le> due' a))"
proof -
  note c = tick_collect_inv [OF assms(1-3)]
  from run_tick_ok [OF assms] obtain due' w' fired where
    r: "run_tick handler w = (w', fired)" "tw_inv due' {} w'" "tw_work w' = []" "tw_now w' = tw_now w + 1"
       "distinct fired" "set fired \<subseteq> {a. tw_pending w a \<and> due a = tw_now w}"
    and k: "\<And>a. a \<notin> touched handler w fired \<Longrightarrow> kept_until (tw_now w + 1) w due w' due' fired a" by blast
  have "due' a = due a \<and> (a \<in> set fired \<longleftrightarrow> tw_pending w a \<and> due a = tw_now w) \<and> (tw_pending w' a \<longleftrightarrow> tw_pending w a \<and> tw_now w < due a)"
    if "a \<notin> touched handler w fired" for a
    using k [OF that] pending_due(1) [OF assms(1), of a] by (auto simp: kept_until_def)
  with c r pending_due(2) [OF r(2)] show ?thesis by blast
qed

theorem timer_tick_exact_witness:
  "\<exists>w' fired. run_tick (\<lambda>_ d. if d = 5 then [Call_Mod 7 9] else []) two_timers = (w', fired) \<and> set fired = {5, 6}"
proof -
  let ?h = "\<lambda>_ d. if d = (5 :: u64) then [Call_Mod 7 9] else []"
  note i = two_timers_ok
  have ok3: "\<forall>fn data. \<forall>c \<in> set (?h fn data). call_ok (tw_now two_timers) c" by simp
  from timer_tick_exact [OF i(1,2) _ ok3] i(3) obtain w' fired where
    r: "run_tick ?h two_timers = (w', fired)" "set fired \<subseteq> {a. tw_pending two_timers a \<and> ((\<lambda>_. 1)(5 := 0, 6 := 0)) a = (0 :: nat)}"
    "\<And>a. a \<notin> touched ?h two_timers fired \<Longrightarrow> a \<in> set fired \<longleftrightarrow> tw_pending two_timers a \<and> ((\<lambda>_. 1)(5 := 0, 6 := 0)) a = (0 :: nat)"
    by auto
  have "touched ?h two_timers fired \<subseteq> {7}" by (auto simp: touched_def split: if_splits)
  then have "5 \<notin> touched ?h two_timers fired" "6 \<notin> touched ?h two_timers fired" by auto
  then have "5 \<in> set fired" "6 \<in> set fired" using r(3) i(4) by simp_all
  with r(1,2) i(4) show ?thesis by (intro exI [of _ w'] exI [of _ fired]) (auto split: if_splits)
qed

text \<open>
  C21: setting and deleting timers. \<open>mod_timer\<close> and \<open>add_timer\<close> make a timer pending and due at its new
  expiry, or at the current tick if that has passed, and report whether it was pending before (1 and
  nothing else happens when the expiry does not change); \<open>del_timer\<close> makes it not pending. All keep the
  wheel consistent, and a timer is never due before its expiry.
\<close>

theorem timer_set_and_delete:
  assumes "tw_ok due w" "unat e < tw_now w + 2 ^ 32"
  shows "(let (w', ret) = mod_timer t e w in
           (if tw_expires w t = e \<and> tw_pending w t then w' = w \<and> ret = 1
            else tw_ok (due(t := max (tw_now w) (unat e))) w' \<and> tw_pending w' = (tw_pending w)(t := True)
               \<and> tw_expires w' = (tw_expires w)(t := e) \<and> ret = (if tw_pending w t then 1 else 0)))
       \<and> (let w' = add_timer t (w\<lparr>tw_expires := (tw_expires w)(t := e)\<rparr>) in
           tw_ok (due(t := max (tw_now w) (unat e))) w' \<and> tw_pending w' = (tw_pending w)(t := True))
       \<and> (let (w', ret) = del_timer t w in
           tw_ok due w' \<and> tw_pending w' = (tw_pending w)(t := False) \<and> ret = (if tw_pending w t then 1 else 0))
       \<and> (\<forall>n i. \<forall>a \<in> set (tw_vec w n i). unat (tw_expires w a) \<le> due a)"
proof (intro conjI)
  note m = mod_raw_ok [OF assms, of t]
  obtain v r where vr: "mod_timer_raw t e w = (v, r)" by fastforce
  have v: "tw_ok (due(t := max (tw_now w) (unat e))) v" "tw_pending v = (tw_pending w)(t := True)"
    "tw_expires v = (tw_expires w)(t := e)" "r = (if tw_pending w t then 1 else 0)"
    using m vr by simp_all
  have mt: "mod_timer t e w = (if tw_expires w t = e \<and> tw_pending w t then (w, 1) else (v, r))"
    by (simp add: mod_timer_def timer_pending_def vr)
  show "let (w', ret) = mod_timer t e w in
           (if tw_expires w t = e \<and> tw_pending w t then w' = w \<and> ret = 1
            else tw_ok (due(t := max (tw_now w) (unat e))) w' \<and> tw_pending w' = (tw_pending w)(t := True)
               \<and> tw_expires w' = (tw_expires w)(t := e) \<and> ret = (if tw_pending w t then 1 else 0))"
  proof (cases "tw_expires w t = e \<and> tw_pending w t")
    case False
    then have "mod_timer t e w = (v, r)" using mt unfolding if_not_P [OF False] by blast
    with v show ?thesis unfolding if_not_P [OF False] by (simp only: Let_def prod.case)
  qed (simp add: mt)
  have "mod_timer_raw t e (w\<lparr>tw_expires := (tw_expires w)(t := e)\<rparr>) = mod_timer_raw t e w"
    by (simp add: mod_timer_raw_def timer_pending_def detach_timer_def Let_def)
  then have "add_timer t (w\<lparr>tw_expires := (tw_expires w)(t := e)\<rparr>) = v" by (simp add: add_timer_def vr)
  with v show "let w' = add_timer t (w\<lparr>tw_expires := (tw_expires w)(t := e)\<rparr>) in
           tw_ok (due(t := max (tw_now w) (unat e))) w' \<and> tw_pending w' = (tw_pending w)(t := True)"
    by (simp only: Let_def)
  have np: "\<not> tw_pending w t \<Longrightarrow> (tw_pending w)(t := False) = tw_pending w" by (simp add: fun_eq_iff)
  show "let (w', ret) = del_timer t w in
           tw_ok due w' \<and> tw_pending w' = (tw_pending w)(t := False) \<and> ret = (if tw_pending w t then 1 else 0)"
    using ok_detach [OF assms(1), of t] assms(1) np
    by (cases "tw_pending w t") (auto simp: del_timer_def timer_pending_def detach_facts(4) fun_upd_idem)
  show "\<forall>n i. \<forall>a \<in> set (tw_vec w n i). unat (tw_expires w a) \<le> due a"
    using tw_invD(3) [OF assms(1)] by (auto simp: timer_ok_def)
qed

theorem timer_set_and_delete_witness:
  "tw_pending (add_timer 7 (fresh_wheel\<lparr>tw_expires := (tw_expires fresh_wheel)(7 := 1000)\<rparr>)) 7"
proof -
  have "tw_ok (\<lambda>_. 0) fresh_wheel" "unat (1000 :: u64) < tw_now fresh_wheel + 2 ^ 32"
    using fresh_wheel_ok by simp_all
  from timer_set_and_delete [OF this, of 7] show ?thesis by (simp add: Let_def)
qed

text \<open>
  C20: catching up. \<open>__run_timers\<close> reads the clock before every tick. It ends at the first reading that is behind the
  wheel, after one tick for every reading before; as long as no reading is behind it goes on. When it ends, the wheel is consistent;
  every timer that no callback touched was fired exactly once if it was due before the tick reached, and not at
  all and still due when it was otherwise. If the clock stands at \<open>now\<close>, the wheel ends one tick past it.
\<close>

theorem timers_catch_up:
  assumes "tw_inv due {} w" "tw_work w = []" "tw_now w < 2 ^ 61" "\<forall>j \<in> set js. unat j + 1 < 2 ^ 61"
    and "\<forall>fn data. \<forall>c \<in> set (handler fn data). call_ok (tw_now w) c"
  shows "(\<forall>n. n < length js \<longrightarrow> (\<forall>k < n. tw_now w + k \<le> unat (js ! k)) \<longrightarrow> unat (js ! n) < tw_now w + n \<longrightarrow>
      (\<exists>due' w' fired. run_timers handler js w = Some (w', fired)
         \<and> tw_inv due' {} w' \<and> tw_work w' = [] \<and> tw_now w' = tw_now w + n
         \<and> (\<forall>a. a \<notin> touched handler w fired \<longrightarrow>
              due' a = due a \<and> count_list fired a = (if tw_pending w a \<and> due a < tw_now w + n then 1 else 0)
              \<and> (tw_pending w' a \<longleftrightarrow> tw_pending w a \<and> tw_now w + n \<le> due a))))
    \<and> ((\<forall>k < length js. tw_now w + k \<le> unat (js ! k)) \<longrightarrow> run_timers handler js w = None)
    \<and> (\<forall>now. js = replicate (unat now + 2 - tw_now w) now \<longrightarrow> tw_now w \<le> unat now + 1 \<longrightarrow>
         (\<exists>w' fired. run_timers handler js w = Some (w', fired) \<and> tw_now w' = unat now + 1))"
proof (intro conjI allI impI)
  fix n assume n: "n < length js" "\<forall>k < n. tw_now w + k \<le> unat (js ! k)" "unat (js ! n) < tw_now w + n"
  from run_timers_ok [OF assms(1,2) _ assms(4,3,5), of n] n obtain due' w' fired where
    r: "run_timers handler js w = Some (w', fired)" "tw_inv due' {} w'" "tw_work w' = []" "tw_now w' = tw_now w + n"
    and k: "\<And>a. a \<notin> touched handler w fired \<Longrightarrow> kept_until (tw_now w + n) w due w' due' fired a"
    by (auto simp: readings_end_def)
  have "count_list fired a = (if tw_pending w a \<and> due a < tw_now w + n then 1 else 0)" if "a \<notin> touched handler w fired" for a
    using k [OF that] count_list_0_iff [of fired a] by (auto simp: kept_until_def le_Suc_eq)
  with r k show "\<exists>due' w' fired. run_timers handler js w = Some (w', fired)
         \<and> tw_inv due' {} w' \<and> tw_work w' = [] \<and> tw_now w' = tw_now w + n
         \<and> (\<forall>a. a \<notin> touched handler w fired \<longrightarrow>
              due' a = due a \<and> count_list fired a = (if tw_pending w a \<and> due a < tw_now w + n then 1 else 0)
              \<and> (tw_pending w' a \<longleftrightarrow> tw_pending w a \<and> tw_now w + n \<le> due a))"
    by (intro exI [of _ due'] exI [of _ w'] exI [of _ fired]) (auto simp: kept_until_def)
next
  assume "\<forall>k < length js. tw_now w + k \<le> unat (js ! k)"
  then show "run_timers handler js w = None" by (rule run_timers_on [OF assms(1,2,4,5)])
next
  fix now assume js: "js = replicate (unat now + 2 - tw_now w) now" and le: "tw_now w \<le> unat now + 1"
  have "readings_end js (tw_now w) (unat now + 1 - tw_now w)" using js le by (auto simp: readings_end_def)
  from run_timers_ok [OF assms(1,2) this assms(4,3,5)] le
  show "\<exists>w' fired. run_timers handler js w = Some (w', fired) \<and> tw_now w' = unat now + 1" by auto
qed

theorem timers_catch_up_witness:
  "\<exists>w' fired. run_timers (\<lambda>_ _. []) (replicate 5 3) two_timers = Some (w', fired) \<and> tw_now w' = 4"
proof -
  have js: "replicate 5 3 = replicate (unat (3 :: u64) + 2 - tw_now two_timers) (3 :: u64)"
    unfolding two_timers_ok(3) by simp
  have p: "tw_now two_timers < 2 ^ 61" "\<forall>j \<in> set (replicate 5 (3 :: u64)). unat j + 1 < 2 ^ 61"
    using two_timers_ok(3) by simp_all
  have h: "\<forall>fn data. \<forall>c \<in> set ((\<lambda>_ _. []) fn data). call_ok (tw_now two_timers) c" by simp
  have le: "tw_now two_timers \<le> unat (3 :: u64) + 1" using two_timers_ok(3) by simp
  from timers_catch_up [OF two_timers_ok(1,2) p h, THEN conjunct2, THEN conjunct2, rule_format, OF js le]
  show ?thesis by simp
qed

text \<open>
  The counter of timers. Cascading moves timers between vectors, so the pending timers stay the
  same, but \<open>jhl_timer_num\<close> grows by the number of timers moved.
\<close>

lemma timer_counter_drifts:
  assumes "tw_inv due F w" "n \<in> {2, 3, 4, 5}" "lvl n dvd tw_now w" "tw_work w = []"
  shows "let i = tw_now w div lvl n mod 64 in
      tw_pending (cascade n i w) = tw_pending w
      \<and> tw_num (cascade n i w) = tw_num w + of_nat (length (tw_vec w n i))"
  using cascade_inv [OF assms, of "{}"] cascade_num by (simp add: Let_def)

definition far_wheel :: wheel where
  "far_wheel = fresh_wheel\<lparr>tw_jiffies := 256, tw_vec := (\<lambda>n i. if n = 2 \<and> i = 1 then [5] else []),
     tw_expires := (\<lambda>_. 300), tw_pending := (\<lambda>a. a = 5), tw_num := 1\<rparr>"

lemma far_wheel_ok: "tw_inv (\<lambda>_. 300) {} far_wheel"
  by (auto simp: tw_inv_def far_wheel_def once_def in_vecs_def timer_ok_def placed_def lvl_num fresh_wheel_def)

lemma timer_counter_drifts_witness:
  "tw_num (cascade 2 1 far_wheel) = 2 \<and> tw_pending (cascade 2 1 far_wheel) = tw_pending far_wheel"
proof -
  have f: "tw_now far_wheel = 256" "tw_work far_wheel = []" "tw_num far_wheel = 1" "tw_vec far_wheel 2 1 = [5]"
    by (simp_all add: far_wheel_def fresh_wheel_def)
  have d: "lvl 2 dvd tw_now far_wheel" "tw_now far_wheel div lvl 2 mod 64 = 1" by (simp_all add: f lvl_num)
  from timer_counter_drifts [OF far_wheel_ok _ d(1) f(2)] d(2) f show ?thesis by (simp add: Let_def)
qed

text \<open>
  the clock. Every reading advances the seconds of \<open>jiffies\<close> by at most two, forward even when the
  wall clock is set back, and follows the wall clock exactly while that steps by at most two seconds.
\<close>

lemma clock_steps:
  "let (c', j) = jiffies_get tv_sec tv_usec c in
     unat (ll_jiffies_second c' - ll_jiffies_second c) \<le> 2
     \<and> tv_sec - ll_start_second c' = ll_jiffies_second c'
     \<and> j = tv_usec div 1000 + ll_jiffies_second c' * 1000
     \<and> (ll_start_second c' = ll_start_second c \<or> ll_jiffies_second c' = ll_jiffies_second c + 2)"
  by (auto simp: jiffies_get_def Let_def word_less_nat_alt)

end
