(* ===== verification/Mem_Tracker.thy ===== *)
theory Mem_Tracker
  imports Hash_Table
begin

text \<open>
  The allocation tracker of \<^verbatim>\<open>TCP_C/mem.c\<close>, through which \<open>wys_malloc\<close>, \<open>wys_realloc\<close> and
  \<open>wys_free\<close> of the whole program go: 1024 chains of \<open>mem_info\<close> nodes hashed by the low ten
  bits of the address of the block, and the total number of bytes allocated.

  The state holds the heap itself (the bytes of every allocated block), the \<open>mem_info\<close> nodes,
  the chains and \<open>total_mem_size\<close>. What the C library's \<open>malloc\<close> and \<open>realloc\<close> return is an
  argument (\<open>None\<close> is a failed call); that a returned address is not in use is the hypothesis
  \<open>fresh\<close> of the lemmas. Releasing a block that is not allocated is a fault.

  The invariant \<open>mem_ok\<close> says that the tracker and the heap agree: one node per block, in the
  chain of its address, with the length of the block, and a total that is the sum of the
  sizes (in 32 bits). The listing \<open>wys_show_mem_info\<close> and the dump \<open>wys_hex_dump\<close> are
  modelled as the rows and lines they print.
\<close>

section \<open>State and operations\<close>

abbreviation (input) MEM_HASH_MAX :: nat where "MEM_HASH_MAX \<equiv> 1024"
abbreviation (input) MEM_HASH_MASK :: u32 where "MEM_HASH_MASK \<equiv> 0x3FF"
abbreviation (input) FNAME_MAX_LEN :: nat where "FNAME_MAX_LEN \<equiv> 32"

record mem_info =
  mi_addr :: addr
  mi_size :: u32
  mi_line :: u32
  mi_fname :: string

record mem_state =
  heap :: "addr \<Rightarrow> u8 list option"
  infos :: "addr \<Rightarrow> mem_info option"
  meminfo_hash :: "nat \<Rightarrow> addr list"
  total_mem_size :: s32

text \<open>\<open>MEM_HASH_INDEX((_u32) addr)\<close>\<close>

definition get_hash :: "addr \<Rightarrow> nat" where
  "get_hash p = unat ((of_nat p :: u32) AND MEM_HASH_MASK)"

definition wys_mem_init :: "mem_state \<Rightarrow> mem_state" where
  "wys_mem_init s = s\<lparr>meminfo_hash := (\<lambda>i. if i < MEM_HASH_MAX then [] else meminfo_hash s i)\<rparr>"

text \<open>The C library: \<open>free\<close> and the effect of a successful \<open>malloc\<close> and \<open>realloc\<close>.\<close>

definition lib_free :: "addr \<Rightarrow> mem_state \<Rightarrow> mem_state res" where
  "lib_free p s = (if heap s p = None then Inl Use_After_Free else Inr (s\<lparr>heap := (heap s)(p := None)\<rparr>))"

definition lib_free_info :: "addr \<Rightarrow> mem_state \<Rightarrow> mem_state res" where
  "lib_free_info i s = (if infos s i = None then Inl Use_After_Free else Inr (s\<lparr>infos := (infos s)(i := None)\<rparr>))"

definition resized :: "u8 list \<Rightarrow> u32 \<Rightarrow> (nat \<Rightarrow> u8) \<Rightarrow> u8 list" where
  "resized bs sz junk = take (unat sz) bs @ map junk [length bs..<unat sz]"

definition lib_realloc :: "addr \<Rightarrow> u32 \<Rightarrow> addr \<Rightarrow> (nat \<Rightarrow> u8) \<Rightarrow> mem_state \<Rightarrow> mem_state res" where
  "lib_realloc p sz a junk s =
     (case heap s p of
        None \<Rightarrow> Inl Use_After_Free
      | Some bs \<Rightarrow> Inr (s\<lparr>heap := ((heap s)(p := None))(a \<mapsto> resized bs sz junk)\<rparr>))"

text \<open>\<open>strncpy\<close> of 32 bytes and the terminator written to the last of them.\<close>

definition fname_copy :: "string \<Rightarrow> string" where
  "fname_copy fname = take (FNAME_MAX_LEN - 1) fname"

definition enter_hash :: "addr \<Rightarrow> mem_state \<Rightarrow> mem_state res" where
  "enter_hash i s =
     (case infos s i of
        None \<Rightarrow> Inl (if i = NULL_p then Null_Deref else Use_After_Free)
      | Some n \<Rightarrow> let h = get_hash (mi_addr n)
                 in Inr (s\<lparr>meminfo_hash := (meminfo_hash s)(h := i # meminfo_hash s h)\<rparr>))"

definition out_hash :: "addr \<Rightarrow> mem_state \<Rightarrow> mem_state res" where
  "out_hash i s =
     (case infos s i of
        None \<Rightarrow> Inl (if i = NULL_p then Null_Deref else Use_After_Free)
      | Some _ \<Rightarrow> Inr (s\<lparr>meminfo_hash := (\<lambda>h. removeAll i (meminfo_hash s h))\<rparr>))"

definition find_info :: "addr \<Rightarrow> mem_state \<Rightarrow> addr option res" where
  "find_info p s = ht_scan (\<lambda>n. mi_addr n = p) (infos s) (meminfo_hash s (get_hash p))"

text \<open>\<open>_malloc\<close>: \<open>m1\<close> and \<open>m2\<close> are the results of its two calls of \<open>malloc\<close>.\<close>

definition mem_malloc ::
  "addr option \<Rightarrow> addr option \<Rightarrow> u32 \<Rightarrow> string \<Rightarrow> u32 \<Rightarrow> mem_state \<Rightarrow> (addr \<times> mem_state) res" where
  "mem_malloc m1 m2 sz fname line s =
     (case m1 of
        None \<Rightarrow> Inr (NULL_p, s)
      | Some a \<Rightarrow>
          let s1 = s\<lparr>heap := (heap s)(a \<mapsto> replicate (unat sz) 0)\<rparr> in
          (case m2 of
             None \<Rightarrow> res_bind (lib_free a s1) (\<lambda>s2. Inr (NULL_p, s2))
           | Some i \<Rightarrow>
               let s2 = s1\<lparr>infos := (infos s1)(i \<mapsto> \<lparr>mi_addr = a, mi_size = sz, mi_line = line,
                                                      mi_fname = fname_copy fname\<rparr>),
                           total_mem_size := total_mem_size s1 + sz\<rparr>
               in res_bind (enter_hash i s2) (\<lambda>s3. Inr (a, s3))))"

text \<open>
  Reading \<open>info->size\<close>, and the sequence \<open>_out_hash\<close>, \<open>total_mem_size -= info->size\<close>,
  \<open>free(info)\<close>, \<open>free(ptr)\<close> that \<open>_realloc\<close> has twice; \<open>_free\<close> does the subtraction first.
\<close>

definition info_at :: "addr \<Rightarrow> mem_state \<Rightarrow> mem_info res" where
  "info_at i s =
     (case infos s i of None \<Rightarrow> Inl (if i = NULL_p then Null_Deref else Use_After_Free) | Some n \<Rightarrow> Inr n)"

definition ptr_of :: "addr option \<Rightarrow> addr" where
  "ptr_of r = (case r of None \<Rightarrow> NULL_p | Some a \<Rightarrow> a)"

definition release_block :: "addr \<Rightarrow> addr \<Rightarrow> mem_state \<Rightarrow> mem_state res" where
  "release_block i p s =
     res_bind (out_hash i s) (\<lambda>s1.
     res_bind (info_at i s1) (\<lambda>n.
     res_bind (lib_free_info i (s1\<lparr>total_mem_size := total_mem_size s1 - mi_size n\<rparr>)) (\<lambda>s2.
     lib_free p s2)))"

definition mem_free :: "addr \<Rightarrow> mem_state \<Rightarrow> mem_state res" where
  "mem_free p s =
     (if p = NULL_p then Inr s
      else res_bind (find_info p s) (\<lambda>r.
        case r of
          None \<Rightarrow> Inr s
        | Some i \<Rightarrow>
            res_bind (info_at i s) (\<lambda>n.
            res_bind (out_hash i (s\<lparr>total_mem_size := total_mem_size s - mi_size n\<rparr>)) (\<lambda>s1.
            res_bind (lib_free_info i s1) (\<lambda>s2. lib_free p s2)))))"

text \<open>
  \<open>_realloc\<close>: \<open>r\<close> is the result of \<open>realloc\<close> and \<open>junk\<close> what the bytes past the old end hold.
\<close>

definition mem_realloc ::
  "addr option \<Rightarrow> addr option \<Rightarrow> addr option \<Rightarrow> (nat \<Rightarrow> u8) \<Rightarrow> addr \<Rightarrow> u32 \<Rightarrow> string \<Rightarrow> u32 \<Rightarrow> mem_state
   \<Rightarrow> (addr \<times> mem_state) res" where
  "mem_realloc m1 m2 r junk p sz fname line s =
     (if p = NULL_p then mem_malloc m1 m2 sz fname line s
      else if sz = 0 then
        res_bind (find_info p s) (\<lambda>q.
        res_bind (release_block (ptr_of q) p s) (\<lambda>s1. Inr (NULL_p, s1)))
      else
        res_bind (find_info p s) (\<lambda>q.
        case q of
          None \<Rightarrow> Inr (NULL_p, s)
        | Some i \<Rightarrow>
            res_bind (info_at i s) (\<lambda>n.
            if mi_size n = sz then Inr (mi_addr n, s)
            else
              (case r of
                 None \<Rightarrow>
                   res_bind (find_info p s) (\<lambda>q2.
                   res_bind (release_block (ptr_of q2) p s) (\<lambda>s1. Inr (NULL_p, s1)))
               | Some a \<Rightarrow>
                   res_bind (lib_realloc p sz a junk s) (\<lambda>s1.
                   let s2 = s1\<lparr>total_mem_size := total_mem_size s1 + (sz - mi_size n)\<rparr> in
                   if a = mi_addr n then
                     Inr (a, s2\<lparr>infos := (infos s2)(i \<mapsto> n\<lparr>mi_size := sz\<rparr>)\<rparr>)
                   else
                     res_bind (out_hash i s2) (\<lambda>s3.
                     res_bind (enter_hash i
                       (s3\<lparr>infos := (infos s3)(i \<mapsto> \<lparr>mi_addr = a, mi_size = sz, mi_line = line,
                                                      mi_fname = fname_copy fname\<rparr>)\<rparr>))
                       (\<lambda>s4. Inr (a, s4))))))))"

text \<open>The rows of \<open>wys_show_mem_info\<close>: what each \<open>INFO\<close> of the loop is given.\<close>

record mem_row =
  row_addr :: u32
  row_size :: u32
  row_line :: u32
  row_fname :: string

definition mem_row_of :: "mem_info \<Rightarrow> mem_row" where
  "mem_row_of n = \<lparr>row_addr = of_nat (mi_addr n), row_size = mi_size n, row_line = mi_line n,
                   row_fname = take 16 (mi_fname n)\<rparr>"

fun show_chain :: "(addr \<Rightarrow> mem_info option) \<Rightarrow> addr list \<Rightarrow> mem_row list res" where
  "show_chain st [] = Inr []"
| "show_chain st (i # is) =
     (case st i of
        None \<Rightarrow> Inl Use_After_Free
      | Some n \<Rightarrow> res_bind (show_chain st is) (\<lambda>rs. Inr (mem_row_of n # rs)))"

fun show_chains :: "mem_state \<Rightarrow> nat list \<Rightarrow> mem_row list res" where
  "show_chains s [] = Inr []"
| "show_chains s (b # bs) =
     res_bind (show_chain (infos s) (meminfo_hash s b)) (\<lambda>rs.
     res_bind (show_chains s bs) (\<lambda>rs'. Inr (rs @ rs')))"

definition wys_show_mem_info :: "mem_state \<Rightarrow> (s32 \<times> mem_row list) res" where
  "wys_show_mem_info s =
     res_bind (show_chains s [0..<MEM_HASH_MAX]) (\<lambda>rs. Inr (total_mem_size s, rs))"

section \<open>The invariant\<close>

definition mem_ok :: "mem_state \<Rightarrow> bool" where
  "mem_ok s \<longleftrightarrow>
     finite (dom (infos s)) \<and> infos s NULL_p = None \<and> heap s NULL_p = None
     \<and> (\<forall>p bs. heap s p = Some bs \<longrightarrow> (\<exists>i n. infos s i = Some n \<and> mi_addr n = p))
     \<and> (\<forall>i j n m. infos s i = Some n \<longrightarrow> infos s j = Some m \<longrightarrow> mi_addr n = mi_addr m \<longrightarrow> i = j)
     \<and> (\<forall>i n. infos s i = Some n \<longrightarrow>
           (\<exists>bs. heap s (mi_addr n) = Some bs \<and> length bs = unat (mi_size n)))
     \<and> (\<forall>b. distinct (meminfo_hash s b))
     \<and> (\<forall>i b. i \<in> set (meminfo_hash s b) \<longleftrightarrow> (\<exists>n. infos s i = Some n \<and> get_hash (mi_addr n) = b))
     \<and> total_mem_size s = (\<Sum>i \<in> dom (infos s). mi_size (the (infos s i)))"

text \<open>What the C library promises of an address it returns.\<close>

definition fresh :: "mem_state \<Rightarrow> addr \<Rightarrow> bool" where
  "fresh s a \<longleftrightarrow> a \<noteq> NULL_p \<and> heap s a = None \<and> infos s a = None"

definition mem_empty :: mem_state where
  "mem_empty = \<lparr>heap = (\<lambda>_. None), infos = (\<lambda>_. None), meminfo_hash = (\<lambda>_. []), total_mem_size = 0\<rparr>"

lemma get_hash_less [simp]: "get_hash p < MEM_HASH_MAX"
proof -
  have "get_hash p = unat (of_nat p :: u32) mod 2 ^ 10"
    unfolding get_hash_def using unat_and_mask [of "of_nat p :: u32" 10] by (simp add: mask_eq_exp_minus_1)
  then show ?thesis by simp
qed

lemma mem_ok_empty [simp]: "mem_ok mem_empty"
  by (simp add: mem_ok_def mem_empty_def)

lemma mem_empty_heap: "heap mem_empty p = None" "infos mem_empty i = None"
  by (simp_all add: mem_empty_def)

lemma mem_okD:
  assumes "mem_ok s"
  shows "finite (dom (infos s))" "infos s NULL_p = None" "heap s NULL_p = None"
    "heap s p = Some bs \<Longrightarrow> \<exists>i n. infos s i = Some n \<and> mi_addr n = p"
    "infos s i = Some n \<Longrightarrow> infos s j = Some m \<Longrightarrow> mi_addr n = mi_addr m \<Longrightarrow> i = j"
    "infos s i = Some n \<Longrightarrow> \<exists>bs. heap s (mi_addr n) = Some bs \<and> length bs = unat (mi_size n)"
    "distinct (meminfo_hash s b)"
    "i \<in> set (meminfo_hash s b) \<longleftrightarrow> (\<exists>n. infos s i = Some n \<and> get_hash (mi_addr n) = b)"
    "total_mem_size s = (\<Sum>i \<in> dom (infos s). mi_size (the (infos s i)))"
  using assms unfolding mem_ok_def by blast+

lemma mem_okI:
  assumes "finite (dom (infos s))" "infos s NULL_p = None" "heap s NULL_p = None"
    and "\<And>p bs. heap s p = Some bs \<Longrightarrow> \<exists>i n. infos s i = Some n \<and> mi_addr n = p"
    and "\<And>i j n m. infos s i = Some n \<Longrightarrow> infos s j = Some m \<Longrightarrow> mi_addr n = mi_addr m \<Longrightarrow> i = j"
    and "\<And>i n. infos s i = Some n \<Longrightarrow> \<exists>bs. heap s (mi_addr n) = Some bs \<and> length bs = unat (mi_size n)"
    and "\<And>b. distinct (meminfo_hash s b)"
    and "\<And>i b. i \<in> set (meminfo_hash s b) \<longleftrightarrow> (\<exists>n. infos s i = Some n \<and> get_hash (mi_addr n) = b)"
    and "total_mem_size s = (\<Sum>i \<in> dom (infos s). mi_size (the (infos s i)))"
  shows "mem_ok s"
  unfolding mem_ok_def using assms by blast

lemma mem_ok_block:
  assumes "mem_ok s" "infos s i = Some n"
  obtains bs where "heap s (mi_addr n) = Some bs" "length bs = unat (mi_size n)" "mi_addr n \<noteq> NULL_p"
  using mem_okD(3,6) [OF assms(1)] assms(2) by (metis option.distinct(1))

lemma mem_ok_addr: "mem_ok s \<Longrightarrow> infos s i = Some n \<Longrightarrow> heap s p = None \<Longrightarrow> mi_addr n \<noteq> p"
  using mem_okD(6) by (metis option.distinct(1))

lemmas mem_ok_inj = mem_okD(5)

lemma mem_ok_nonnull:
  "mem_ok s \<Longrightarrow> infos s i = Some n \<Longrightarrow> i \<noteq> NULL_p"
  "mem_ok s \<Longrightarrow> heap s p = Some bs \<Longrightarrow> p \<noteq> NULL_p"
  using mem_okD(2,3) [of s] by (metis option.distinct(1))+

lemma find_info_chain:
  assumes "mem_ok s"
  shows "find_info p s = Inr (List.find (\<lambda>i. mi_addr (the (infos s i)) = p) (meminfo_hash s (get_hash p)))"
  unfolding find_info_def by (intro ht_scan_find) (auto simp: mem_okD(8) [OF assms])

lemma find_info_hit:
  assumes "mem_ok s" "infos s i = Some n" "mi_addr n = p"
  shows "find_info p s = Inr (Some i)"
proof -
  let ?P = "\<lambda>i. mi_addr (the (infos s i)) = p"
  have i: "i \<in> set (meminfo_hash s (get_hash p))" "?P i"
    using assms(2,3) by (auto simp: mem_okD(8) [OF assms(1)])
  then obtain j where j: "List.find ?P (meminfo_hash s (get_hash p)) = Some j"
    by (cases "List.find ?P (meminfo_hash s (get_hash p))") (simp_all add: find_None_iff)
  from find_Some_in [OF this] obtain m where "infos s j = Some m" "mi_addr m = p"
    by (auto simp: mem_okD(8) [OF assms(1)])
  with mem_ok_inj [OF assms(1) this(1) assms(2)] assms(3) have "j = i" by simp
  with j show ?thesis by (simp add: find_info_chain [OF assms(1)])
qed

lemma find_info_miss:
  assumes "mem_ok s" "heap s p = None"
  shows "find_info p s = Inr None"
proof -
  have "List.find (\<lambda>i. mi_addr (the (infos s i)) = p) (meminfo_hash s (get_hash p)) = None"
    using mem_ok_addr [OF assms(1) _ assms(2)] by (fastforce simp: find_None_iff mem_okD(8) [OF assms(1)])
  then show ?thesis by (simp add: find_info_chain [OF assms(1)])
qed

lemma tracked:
  assumes "mem_ok s" "heap s p = Some bs"
  obtains i n where "infos s i = Some n" "mi_addr n = p" "i \<noteq> NULL_p" "length bs = unat (mi_size n)"
proof -
  obtain i n where i: "infos s i = Some n" "mi_addr n = p" using mem_okD(4) [OF assms] by blast
  show thesis
  proof (rule that [OF i])
    show "i \<noteq> NULL_p" using mem_ok_nonnull(1) [OF assms(1) i(1)] .
    show "length bs = unat (mi_size n)" using mem_okD(6) [OF assms(1) i(1)] i(2) assms(2) by auto
  qed
qed

text \<open>The three changes of the state the operations are made of.\<close>

definition put_block :: "addr \<Rightarrow> mem_info \<Rightarrow> u8 list \<Rightarrow> mem_state \<Rightarrow> mem_state" where
  "put_block i n bs s =
     s\<lparr>heap := (heap s)(mi_addr n \<mapsto> bs), infos := (infos s)(i \<mapsto> n),
       meminfo_hash := (meminfo_hash s)(get_hash (mi_addr n) := i # meminfo_hash s (get_hash (mi_addr n))),
       total_mem_size := total_mem_size s + mi_size n\<rparr>"

definition drop_block :: "addr \<Rightarrow> mem_info \<Rightarrow> mem_state \<Rightarrow> mem_state" where
  "drop_block i n s =
     s\<lparr>heap := (heap s)(mi_addr n := None), infos := (infos s)(i := None),
       meminfo_hash := (\<lambda>h. removeAll i (meminfo_hash s h)),
       total_mem_size := total_mem_size s - mi_size n\<rparr>"

definition grow_block :: "addr \<Rightarrow> mem_info \<Rightarrow> u32 \<Rightarrow> u8 list \<Rightarrow> mem_state \<Rightarrow> mem_state" where
  "grow_block i n sz bs s =
     s\<lparr>heap := (heap s)(mi_addr n \<mapsto> bs), infos := (infos s)(i \<mapsto> n\<lparr>mi_size := sz\<rparr>),
       total_mem_size := total_mem_size s + (sz - mi_size n)\<rparr>"

lemma block_sel [simp]:
  "heap (put_block i n bs s) = (heap s)(mi_addr n \<mapsto> bs)"
  "infos (put_block i n bs s) = (infos s)(i \<mapsto> n)"
  "total_mem_size (put_block i n bs s) = total_mem_size s + mi_size n"
  "heap (drop_block i n s) = (heap s)(mi_addr n := None)"
  "infos (drop_block i n s) = (infos s)(i := None)"
  "meminfo_hash (drop_block i n s) h = removeAll i (meminfo_hash s h)"
  "total_mem_size (drop_block i n s) = total_mem_size s - mi_size n"
  "heap (grow_block i n sz bs s) = (heap s)(mi_addr n \<mapsto> bs)"
  "infos (grow_block i n sz bs s) = (infos s)(i \<mapsto> n\<lparr>mi_size := sz\<rparr>)"
  "meminfo_hash (grow_block i n sz bs s) = meminfo_hash s"
  "total_mem_size (grow_block i n sz bs s) = total_mem_size s + (sz - mi_size n)"
  by (simp_all add: put_block_def drop_block_def grow_block_def)

lemma put_block_hash [simp]:
  "meminfo_hash (put_block i n bs s) h =
     (if h = get_hash (mi_addr n) then i # meminfo_hash s h else meminfo_hash s h)"
  by (simp add: put_block_def)

lemma sum_upd_fresh:
  assumes "finite (dom f)" "f i = None"
  shows "(\<Sum>j \<in> dom (f(i \<mapsto> n)). g (the ((f(i \<mapsto> n)) j))) = (\<Sum>j \<in> dom f. g (the (f j))) + (g n :: u32)"
proof -
  have "(\<Sum>j \<in> dom f. g (the ((f(i \<mapsto> n)) j))) = (\<Sum>j \<in> dom f. g (the (f j)))"
    using assms(2) by (intro sum.cong) auto
  with assms show ?thesis by (simp add: sum.insert domIff add.commute)
qed

lemma sum_upd_drop:
  assumes "finite (dom f)" "f i = Some n"
  shows "(\<Sum>j \<in> dom (f(i := None)). g (the ((f(i := None)) j))) = (\<Sum>j \<in> dom f. g (the (f j))) - (g n :: u32)"
proof -
  have "(\<Sum>j \<in> dom f. g (the (f j))) = g n + (\<Sum>j \<in> dom f - {i}. g (the (f j)))"
    using assms by (subst sum.remove [of _ i]) auto
  moreover have "(\<Sum>j \<in> dom f - {i}. g (the ((f(i := None)) j))) = (\<Sum>j \<in> dom f - {i}. g (the (f j)))"
    by (intro sum.cong) auto
  ultimately show ?thesis by simp
qed

lemma mem_ok_put:
  assumes ok: "mem_ok s" and i: "infos s i = None" "i \<noteq> NULL_p"
    and a: "heap s (mi_addr n) = None" "mi_addr n \<noteq> NULL_p" and bs: "length bs = unat (mi_size n)"
  shows "mem_ok (put_block i n bs s)"
proof -
  have na: "mi_addr m \<noteq> mi_addr n" if "infos s j = Some m" for j m
    using mem_ok_addr [OF ok that a(1)] .
  have nb: "i \<notin> set (meminfo_hash s b)" for b using i(1) by (simp add: mem_okD(8) [OF ok])
  show ?thesis
  proof (rule mem_okI)
    fix p cs assume *: "heap (put_block i n bs s) p = Some cs"
    show "\<exists>j m. infos (put_block i n bs s) j = Some m \<and> mi_addr m = p"
    proof (cases "p = mi_addr n")
      case False
      with * obtain j m where j: "infos s j = Some m" "mi_addr m = p" using mem_okD(4) [OF ok, of p cs] by auto
      with i(1) have "j \<noteq> i" by auto
      with j show ?thesis by auto
    qed auto
  next
    fix j k m m' assume "infos (put_block i n bs s) j = Some m" "infos (put_block i n bs s) k = Some m'" "mi_addr m = mi_addr m'"
    then show "j = k" using na mem_ok_inj [OF ok] by (auto split: if_splits)
  next
    fix j m assume "infos (put_block i n bs s) j = Some m"
    then show "\<exists>cs. heap (put_block i n bs s) (mi_addr m) = Some cs \<and> length cs = unat (mi_size m)"
      using mem_okD(6) [OF ok, of j m] bs na by (cases "j = i") auto
  next
    fix j b
    show "j \<in> set (meminfo_hash (put_block i n bs s) b)
        \<longleftrightarrow> (\<exists>m. infos (put_block i n bs s) j = Some m \<and> get_hash (mi_addr m) = b)"
      using i(1) by (auto simp: mem_okD(8) [OF ok])
  qed (use mem_okD [OF ok] i a nb sum_upd_fresh [of "infos s" i mi_size n] in auto)
qed

lemma mem_ok_drop:
  assumes ok: "mem_ok s" and i: "infos s i = Some n"
  shows "mem_ok (drop_block i n s)"
proof -
  have na: "mi_addr m \<noteq> mi_addr n" if "infos s j = Some m" "j \<noteq> i" for j m
    using mem_ok_inj [OF ok that(1) i] that(2) by blast
  show ?thesis
  proof (rule mem_okI)
    fix p cs assume "heap (drop_block i n s) p = Some cs"
    then have p: "heap s p = Some cs" "p \<noteq> mi_addr n" by (auto split: if_splits)
    then obtain j m where j: "infos s j = Some m" "mi_addr m = p" using mem_okD(4) [OF ok] by blast
    with i p(2) have "j \<noteq> i" by auto
    with j show "\<exists>j m. infos (drop_block i n s) j = Some m \<and> mi_addr m = p" by auto
  next
    fix j k m m' assume "infos (drop_block i n s) j = Some m" "infos (drop_block i n s) k = Some m'" "mi_addr m = mi_addr m'"
    then show "j = k" using mem_ok_inj [OF ok] by (auto split: if_splits)
  next
    fix j m assume "infos (drop_block i n s) j = Some m"
    then show "\<exists>cs. heap (drop_block i n s) (mi_addr m) = Some cs \<and> length cs = unat (mi_size m)"
      using mem_okD(6) [OF ok, of j m] na by (auto split: if_splits)
  next
    fix j b
    show "j \<in> set (meminfo_hash (drop_block i n s) b)
        \<longleftrightarrow> (\<exists>m. infos (drop_block i n s) j = Some m \<and> get_hash (mi_addr m) = b)"
      by (auto simp: mem_okD(8) [OF ok])
  qed (use mem_okD [OF ok] i sum_upd_drop [of "infos s" i n mi_size] in \<open>auto simp: distinct_removeAll\<close>)
qed

lemma mem_ok_grow:
  assumes ok: "mem_ok s" and i: "infos s i = Some n" and bs: "length bs = unat sz"
  shows "mem_ok (grow_block i n sz bs s)"
proof -
  let ?f = "(infos s)(i \<mapsto> n\<lparr>mi_size := sz\<rparr>)"
  have na: "mi_addr m \<noteq> mi_addr n" if "infos s j = Some m" "j \<noteq> i" for j m
    using mem_ok_inj [OF ok that(1) i] that(2) by blast
  have d: "dom ?f = dom (infos s)" using i by auto
  have old: "\<exists>m'. infos s j = Some m' \<and> mi_addr m' = mi_addr m" if "?f j = Some m" for j m
    using that i by (auto split: if_splits)
  have nw: "\<exists>m'. ?f j = Some m' \<and> mi_addr m' = mi_addr m" if "infos s j = Some m" for j m
    using that i by auto
  have tot: "(\<Sum>j \<in> dom ?f. mi_size (the (?f j)))
      = (\<Sum>j \<in> dom (infos s). mi_size (the (infos s j))) + (sz - mi_size n)"
    using sum_upd_fresh [of "(infos s)(i := None)" i mi_size "n\<lparr>mi_size := sz\<rparr>"]
      sum_upd_drop [of "infos s" i n mi_size] mem_okD(1) [OF ok] i by simp
  have h: "mi_addr n \<noteq> NULL_p" using mem_ok_block [OF ok i] by blast
  show ?thesis
  proof (rule mem_okI)
    fix p cs assume "heap (grow_block i n sz bs s) p = Some cs"
    then have "\<exists>j m. infos s j = Some m \<and> mi_addr m = p"
      using mem_okD(4) [OF ok, of p cs] i by (cases "p = mi_addr n") auto
    then show "\<exists>j m. infos (grow_block i n sz bs s) j = Some m \<and> mi_addr m = p" unfolding block_sel using nw by metis
  next
    fix j k m m' assume "infos (grow_block i n sz bs s) j = Some m" "infos (grow_block i n sz bs s) k = Some m'" "mi_addr m = mi_addr m'"
    then have "?f j = Some m" "?f k = Some m'" "mi_addr m = mi_addr m'" by simp_all
    with old [of j m] old [of k m'] show "j = k" using mem_ok_inj [OF ok] by metis
  next
    fix j m assume "infos (grow_block i n sz bs s) j = Some m"
    then show "\<exists>cs. heap (grow_block i n sz bs s) (mi_addr m) = Some cs \<and> length cs = unat (mi_size m)"
      using mem_okD(6) [OF ok, of j m] bs na by (cases "j = i") auto
  next
    fix j b
    show "j \<in> set (meminfo_hash (grow_block i n sz bs s) b) \<longleftrightarrow> (\<exists>m. infos (grow_block i n sz bs s) j = Some m \<and> get_hash (mi_addr m) = b)"
      unfolding block_sel mem_okD(8) [OF ok] using old nw by metis
  next
    show "infos (grow_block i n sz bs s) NULL_p = None" using mem_okD(2) [OF ok] mem_ok_nonnull(1) [OF ok i] by simp
    show "heap (grow_block i n sz bs s) NULL_p = None" using mem_okD(3) [OF ok] h by simp
    show "finite (dom (infos (grow_block i n sz bs s)))" using mem_okD(1) [OF ok] by simp
    show "distinct (meminfo_hash (grow_block i n sz bs s) b)" for b using mem_okD(7) [OF ok] by simp
    show "total_mem_size (grow_block i n sz bs s)
        = (\<Sum>j \<in> dom (infos (grow_block i n sz bs s)). mi_size (the (infos (grow_block i n sz bs s) j)))"
      unfolding block_sel tot mem_okD(9) [OF ok] ..
  qed
qed

section \<open>The operations\<close>

lemma length_resized [simp]: "length (resized bs sz junk) = unat sz"
  by (simp add: resized_def)

lemma mem_malloc_ok:
  assumes "mem_ok s" "fresh s a" "fresh s i" "a \<noteq> i"
  shows "mem_malloc (Some a) (Some i) sz fname line s = Inr (a, put_block i
           \<lparr>mi_addr = a, mi_size = sz, mi_line = line, mi_fname = fname_copy fname\<rparr> (replicate (unat sz) 0) s)"
    and "mem_ok (put_block i
           \<lparr>mi_addr = a, mi_size = sz, mi_line = line, mi_fname = fname_copy fname\<rparr> (replicate (unat sz) 0) s)"
  using assms by (simp add: mem_malloc_def enter_hash_def put_block_def fresh_def Let_def)
    (use assms in \<open>simp add: mem_ok_put fresh_def\<close>)

lemma tracked_heap:
  assumes "mem_ok s" "infos s i = Some n" "mi_addr n = p"
  shows "heap s p \<noteq> None \<and> p \<noteq> NULL_p"
proof -
  obtain bs where "heap s (mi_addr n) = Some bs" "mi_addr n \<noteq> NULL_p" by (rule mem_ok_block [OF assms(1,2)])
  with assms(3) show ?thesis by simp
qed

lemma release_block_ok:
  assumes "mem_ok s" "infos s i = Some n" "mi_addr n = p"
  shows "release_block i p s = Inr (drop_block i n s)"
  using tracked_heap [OF assms] assms(2,3)
  by (auto simp: release_block_def out_hash_def info_at_def lib_free_info_def lib_free_def drop_block_def)

lemma mem_free_ok:
  assumes "mem_ok s" "infos s i = Some n" "mi_addr n = p"
  shows "mem_free p s = Inr (drop_block i n s)"
  using tracked_heap [OF assms] assms(2,3) find_info_hit [OF assms]
  by (auto simp: mem_free_def out_hash_def info_at_def lib_free_info_def lib_free_def drop_block_def)

lemma mem_realloc_moved:
  assumes ok: "mem_ok s" and i: "infos s i = Some n" "mi_addr n = p" and h: "heap s p = Some bs"
    and sz: "sz \<noteq> 0" "sz \<noteq> mi_size n" and a: "a \<noteq> p"
  shows "mem_realloc m1 m2 (Some a) junk p sz fname line s =
    Inr (a, put_block i \<lparr>mi_addr = a, mi_size = sz, mi_line = line, mi_fname = fname_copy fname\<rparr>
              (resized bs sz junk) (drop_block i n s))"
proof -
  have p: "p \<noteq> NULL_p" using mem_ok_nonnull(2) [OF ok h] .
  show ?thesis
    using find_info_hit [OF ok i] i h sz a p
    by (auto simp: mem_realloc_def info_at_def lib_realloc_def Let_def out_hash_def enter_hash_def
        put_block_def drop_block_def fun_eq_iff)
qed

lemma mem_realloc_in_place:
  assumes ok: "mem_ok s" and i: "infos s i = Some n" "mi_addr n = p" and h: "heap s p = Some bs"
    and sz: "sz \<noteq> 0" "sz \<noteq> mi_size n"
  shows "mem_realloc m1 m2 (Some p) junk p sz fname line s =
    Inr (p, grow_block i n sz (resized bs sz junk) s)"
proof -
  have p: "p \<noteq> NULL_p" using mem_ok_nonnull(2) [OF ok h] .
  show ?thesis
    using find_info_hit [OF ok i] i h sz p
    by (auto simp: mem_realloc_def info_at_def lib_realloc_def Let_def grow_block_def)
qed

lemma mem_realloc_same:
  assumes ok: "mem_ok s" and i: "infos s i = Some n" "mi_addr n = p" and p: "p \<noteq> NULL_p"
    and sz: "sz \<noteq> 0" "sz = mi_size n"
  shows "mem_realloc m1 m2 r junk p sz fname line s = Inr (p, s)"
  using find_info_hit [OF ok i] i sz p by (auto simp: mem_realloc_def info_at_def)

lemma mem_realloc_released:
  assumes ok: "mem_ok s" and i: "infos s i = Some n" "mi_addr n = p" and p: "p \<noteq> NULL_p"
    and sz: "sz = 0 \<or> (r = None \<and> sz \<noteq> mi_size n)"
  shows "mem_realloc m1 m2 r junk p sz fname line s = Inr (NULL_p, drop_block i n s)"
  using find_info_hit [OF ok i] i sz p release_block_ok [OF ok i]
  by (auto simp: mem_realloc_def info_at_def ptr_of_def)

section \<open>The listing\<close>

lemma show_chain_rows:
  "(\<And>i. i \<in> set is \<Longrightarrow> st i \<noteq> None) \<Longrightarrow> show_chain st is = Inr (map (\<lambda>i. mem_row_of (the (st i))) is)"
  by (induction "is") (auto split: option.splits)

lemma show_chains_rows:
  "mem_ok s \<Longrightarrow> show_chains s bs = Inr (map (\<lambda>i. mem_row_of (the (infos s i))) (concat (map (meminfo_hash s) bs)))"
  by (induction bs) (auto simp: mem_okD(8) intro!: show_chain_rows)

lemma distinct_concat_map:
  assumes "distinct xs" "\<And>x. distinct (f x)" "\<And>x y z. z \<in> set (f x) \<Longrightarrow> z \<in> set (f y) \<Longrightarrow> x = y"
  shows "distinct (concat (map f xs))"
  using assms(1)
proof (induction xs)
  case (Cons x xs)
  have "set (f x) \<inter> set (concat (map f xs)) = {}" using Cons.prems assms(3) by fastforce
  with Cons assms(2) show ?case by simp
qed simp

lemma mem_ok_all_infos:
  assumes "mem_ok s"
  shows "mset (concat (map (meminfo_hash s) [0..<MEM_HASH_MAX])) = mset_set (dom (infos s))"
proof -
  let ?is = "concat (map (meminfo_hash s) [0..<MEM_HASH_MAX])"
  have "distinct ?is"
    by (rule distinct_concat_map) (auto simp: mem_okD(7,8) [OF assms])
  moreover have "set ?is = dom (infos s)"
    by (auto simp: mem_okD(8) [OF assms])
  ultimately show ?thesis by (metis mset_set_set)
qed

lemma card_blocks:
  assumes "mem_ok s"
  shows "card (dom (heap s)) = card (dom (infos s))"
proof -
  have "dom (heap s) = (\<lambda>i. mi_addr (the (infos s i))) ` dom (infos s)" (is "_ = ?A")
  proof
    show "dom (heap s) \<subseteq> ?A"
    proof
      fix p assume "p \<in> dom (heap s)"
      then obtain i n where "infos s i = Some n" "mi_addr n = p" using mem_okD(4) [OF assms] by blast
      then show "p \<in> ?A" by (intro image_eqI [of _ _ i]) auto
    qed
    show "?A \<subseteq> dom (heap s)" using tracked_heap [OF assms _ refl] by fastforce
  qed
  moreover have "inj_on (\<lambda>i. mi_addr (the (infos s i))) (dom (infos s))"
    using mem_ok_inj [OF assms] by (auto simp: inj_on_def)
  ultimately show ?thesis by (simp add: card_image)
qed

section \<open>The hexadecimal dump\<close>

text \<open>
  \<open>wys_hex_dump\<close>: the line is built in the 80 bytes of \<open>binstr\<close> by \<open>sprintf\<close> at the offset \<open>l\<close>;
  a write past the end, which the code does not test for, is a fault. The state of the loop
  is the buffer up to the terminator, the offset and the lines printed so far.
\<close>

definition hexdigit :: "nat \<Rightarrow> char" where
  "hexdigit n = (if n < 10 then char_of (48 + n) else char_of (55 + n))"

definition fmt_X :: "nat \<Rightarrow> nat \<Rightarrow> string" where
  "fmt_X w n = map (\<lambda>k. hexdigit (n div 16 ^ k mod 16)) (rev [0..<w])"

definition sprintf_at :: "string \<times> nat \<Rightarrow> string \<Rightarrow> (string \<times> nat) res" where
  "sprintf_at bl t = (case bl of (b, l) \<Rightarrow>
     if l + length t < 0x50 then Inr (take l b @ t, l + length t) else Inl Out_Of_Bounds)"

definition dump_char :: "u8 \<Rightarrow> char" where
  "dump_char v = (if 33 < unat v \<and> unat v \<le> 126 then char_of (unat v) else CHR ''.'')"

definition buf_at :: "u8 list \<Rightarrow> nat \<Rightarrow> u8 res" where
  "buf_at buf i = (if i < length buf then Inr (buf ! i) else Inl Out_Of_Bounds)"

fun dump_chars :: "u8 list \<Rightarrow> nat list \<Rightarrow> string \<times> nat \<Rightarrow> (string \<times> nat) res" where
  "dump_chars buf [] bl = Inr bl"
| "dump_chars buf (j # js) bl =
     res_bind (buf_at buf j) (\<lambda>v. res_bind (sprintf_at bl [dump_char v]) (\<lambda>bl'. dump_chars buf js bl'))"

fun dump_pad :: "string \<Rightarrow> nat \<Rightarrow> string \<times> nat \<Rightarrow> (string \<times> nat) res" where
  "dump_pad t 0 bl = Inr bl"
| "dump_pad t (Suc k) bl = res_bind (sprintf_at bl t) (\<lambda>bl'. dump_pad t k bl')"

definition dump_step ::
  "s32 \<Rightarrow> u8 list \<Rightarrow> nat \<Rightarrow> (string \<times> nat) \<times> string list \<Rightarrow> ((string \<times> nat) \<times> string list) res" where
  "dump_step addr0 buf i st = (case st of (bl, out) \<Rightarrow>
     res_bind (buf_at buf i) (\<lambda>v.
     if i mod 16 = 0 then
       res_bind (sprintf_at (fst bl, 0)
          (''| '' @ fmt_X 8 (unat (addr0 + of_nat i)) @ '' | '' @ fmt_X 2 (unat v) @ '' '')) (\<lambda>bl1.
       Inr (bl1, out))
     else if i mod 16 = 15 then
       res_bind (sprintf_at bl (fmt_X 2 (unat v) @ '' | '')) (\<lambda>bl1.
       res_bind (dump_chars buf [i - 15..<Suc i] bl1) (\<lambda>bl2.
       Inr (([], snd bl2), out @ [fst bl2])))
     else
       res_bind (sprintf_at bl (fmt_X 2 (unat v) @ '' '')) (\<lambda>bl1. Inr (bl1, out))))"

fun dump_loop ::
  "s32 \<Rightarrow> u8 list \<Rightarrow> nat list \<Rightarrow> (string \<times> nat) \<times> string list \<Rightarrow> ((string \<times> nat) \<times> string list) res" where
  "dump_loop addr0 buf [] st = Inr st"
| "dump_loop addr0 buf (i # is) st = res_bind (dump_step addr0 buf i st) (\<lambda>st'. dump_loop addr0 buf is st')"

definition wys_hex_dump :: "s32 \<Rightarrow> u8 list \<Rightarrow> s32 \<Rightarrow> string list res" where
  "wys_hex_dump addr0 buf len =
     (let i = nat (sint len) in
      res_bind (dump_loop addr0 buf [0..<i] (([], 0), [])) (\<lambda>(bl, out).
      if i mod 16 \<noteq> 0 then
        let k = 16 - i mod 16 in
        res_bind (dump_pad ''   '' k bl) (\<lambda>bl1.
        res_bind (sprintf_at bl1 ''| '') (\<lambda>bl2.
        res_bind (dump_chars buf [i - (16 - k)..<i] bl2) (\<lambda>bl3.
        res_bind (dump_pad '' '' k bl3) (\<lambda>bl4.
        Inr (out @ [fst bl4])))))
      else Inr out))"

text \<open>What a line of the dump is: the address, sixteen columns of digits, sixteen characters.\<close>

definition dump_line :: "s32 \<Rightarrow> u8 list \<Rightarrow> string" where
  "dump_line a bs =
     ''| '' @ fmt_X 8 (unat a) @ '' | '' @ concat (map (\<lambda>v. fmt_X 2 (unat v) @ '' '') bs)
     @ replicate (3 * (16 - length bs)) (CHR '' '') @ ''| '' @ map dump_char bs
     @ replicate (16 - length bs) (CHR '' '')"

definition dump_lines :: "s32 \<Rightarrow> u8 list \<Rightarrow> string list" where
  "dump_lines a bs =
     map (\<lambda>k. dump_line (a + of_nat (16 * k)) (take 16 (drop (16 * k) bs))) [0..<(length bs + 15) div 16]"

definition dump_part :: "s32 \<Rightarrow> u8 list \<Rightarrow> nat \<Rightarrow> nat \<Rightarrow> string" where
  "dump_part a buf q r =
     ''| '' @ fmt_X 8 (unat (a + of_nat (16 * q))) @ '' | ''
     @ concat (map (\<lambda>v. fmt_X 2 (unat v) @ '' '') (take r (drop (16 * q) buf)))"

lemma length_fmt_X [simp]: "length (fmt_X w n) = w"
  by (simp add: fmt_X_def)

lemma length_concat_hex [simp]: "length (concat (map (\<lambda>v. fmt_X 2 (unat v) @ '' '') bs)) = 3 * length bs"
  by (induction bs) simp_all

lemma length_dump_line: "length bs \<le> 16 \<Longrightarrow> length (dump_line a bs) = 79"
  by (simp add: dump_line_def)

lemma length_dump_part: "16 * q + r \<le> length buf \<Longrightarrow> length (dump_part a buf q r) = 13 + 3 * r"
  by (simp add: dump_part_def)

lemma dump_part_Suc:
  "16 * q + r < length buf \<Longrightarrow>
     dump_part a buf q (Suc r) = dump_part a buf q r @ fmt_X 2 (unat (buf ! (16 * q + r))) @ '' ''"
  by (simp add: dump_part_def take_Suc_conv_app_nth)

lemma dump_chars_ok:
  "length b + length js < 80 \<Longrightarrow> (\<And>j. j \<in> set js \<Longrightarrow> j < length buf) \<Longrightarrow>
     dump_chars buf js (b, length b)
     = Inr (b @ map (\<lambda>j. dump_char (buf ! j)) js, length b + length js)"
proof (induction js arbitrary: b)
  case (Cons j js)
  show ?case using Cons.prems Cons.IH [of "b @ [dump_char (buf ! j)]"]
    by (simp add: buf_at_def sprintf_at_def)
qed simp

lemma dump_pad_ok:
  "length b + k * length t < 80 \<Longrightarrow>
     dump_pad t k (b, length b) = Inr (b @ concat (replicate k t), length b + k * length t)"
proof (induction k arbitrary: b)
  case (Suc k)
  show ?case using Suc.prems Suc.IH [of "b @ t"] by (simp add: sprintf_at_def algebra_simps)
qed simp

lemma dump_loop_append:
  "dump_loop a buf (is @ js) st = res_bind (dump_loop a buf is st) (dump_loop a buf js)"
  by (induction "is" arbitrary: st) (simp_all add: res_bind_def split: sum.splits)

lemma map_nth_slice:
  "i + n \<le> length buf \<Longrightarrow> map (\<lambda>j. f (buf ! j)) [i..<i + n] = map f (take n (drop i buf))"
  by (rule nth_equalityI) simp_all

definition dump_inv :: "s32 \<Rightarrow> u8 list \<Rightarrow> nat \<Rightarrow> (string \<times> nat) \<times> string list \<Rightarrow> bool" where
  "dump_inv a buf i st \<longleftrightarrow> (case st of ((b, l), out) \<Rightarrow>
     out = map (\<lambda>k. dump_line (a + of_nat (16 * k)) (take 16 (drop (16 * k) buf))) [0..<i div 16]
     \<and> (i mod 16 \<noteq> 0 \<longrightarrow> b = dump_part a buf (i div 16) (i mod 16) \<and> l = length b))"

lemma dump_line_part:
  assumes "length bs = 16 * q + r" "r \<le> 16" "take r (drop (16 * q) buf) = drop (16 * q) bs"
  shows "dump_line (a + of_nat (16 * q)) (drop (16 * q) bs) =
     dump_part a buf q r @ replicate (3 * (16 - r)) (CHR '' '') @ ''| '' @ map dump_char (drop (16 * q) bs)
     @ replicate (16 - r) (CHR '' '')"
  using assms by (simp add: dump_line_def dump_part_def)

lemma dump_step_inv:
  assumes inv: "dump_inv a buf i st" and i: "i < length buf"
  shows "\<exists>st'. dump_step a buf i st = Inr st' \<and> dump_inv a buf (Suc i) st'"
proof -
  obtain b l out where st: "st = ((b, l), out)" by (metis prod.exhaust)
  define q r where qr: "q = i div 16" "r = i mod 16"
  have i_eq: "i = 16 * q + r" and r: "r < 16" by (simp_all add: qr)
  have out: "out = map (\<lambda>k. dump_line (a + of_nat (16 * k)) (take 16 (drop (16 * k) buf))) [0..<q]"
    and b: "r \<noteq> 0 \<Longrightarrow> b = dump_part a buf q r \<and> l = length b"
    using inv by (simp_all add: dump_inv_def st qr)
  have at: "buf_at buf i = Inr (buf ! i)" using i by (simp add: buf_at_def)
  have lp: "length (dump_part a buf q r) = 13 + 3 * r" using i i_eq by (intro length_dump_part) simp
  have ps: "dump_part a buf q (Suc r) = dump_part a buf q r @ fmt_X 2 (unat (buf ! i)) @ '' ''"
    using i i_eq by (simp add: dump_part_Suc)
  consider (zero) "r = 0" | (full) "r = 15" | (mid) "r \<noteq> 0" "r \<noteq> 15" by blast
  then show ?thesis
  proof cases
    case zero
    have "Suc i div 16 = q" "Suc i mod 16 = 1" "buf_at buf (16 * q) = Inr (buf ! (16 * q))"
      using zero i_eq at by simp_all
    then show ?thesis using zero ps out
      by (auto simp: dump_step_def st at qr(2) [symmetric] sprintf_at_def dump_inv_def dump_part_def i_eq)
  next
    case mid
    have "Suc i div 16 = q" "Suc i mod 16 = Suc r" using mid r i_eq by simp_all
    then show ?thesis using mid ps out b lp r
      by (auto simp: dump_step_def st at qr(2) [symmetric] sprintf_at_def dump_inv_def)
  next
    case full
    have d: "Suc i div 16 = Suc q" "Suc i mod 16 = 0" using full i_eq by simp_all
    have i15: "i - 15 = 16 * q" "Suc i = 16 * q + 16" using full i_eq by simp_all
    let ?b1 = "dump_part a buf q 15 @ fmt_X 2 (unat (buf ! i)) @ '' | ''"
    have l1: "length ?b1 = 63" using lp full by simp
    have cs: "dump_chars buf [i - 15..<Suc i] (?b1, length ?b1)
        = Inr (?b1 @ map (\<lambda>j. dump_char (buf ! j)) [i - 15..<Suc i], length ?b1 + 16)"
      using l1 i i15 by (subst dump_chars_ok) auto
    have "?b1 @ map (\<lambda>j. dump_char (buf ! j)) [i - 15..<Suc i]
        = dump_line (a + of_nat (16 * q)) (take 16 (drop (16 * q) buf))"
      using ps full i15 map_nth_slice [of "16 * q" 16 buf dump_char] i
      by (simp add: dump_line_def dump_part_def add.commute)
    then show ?thesis using full b lp out d cs l1
      by (auto simp: dump_step_def st at qr(2) [symmetric] sprintf_at_def dump_inv_def)
  qed
qed

lemma dump_loop_inv:
  "i \<le> length buf \<Longrightarrow> \<exists>st. dump_loop a buf [0..<i] (([], 0), []) = Inr st \<and> dump_inv a buf i st"
proof (induction i)
  case 0
  show ?case by (simp add: dump_inv_def)
next
  case (Suc i)
  then obtain st where "dump_loop a buf [0..<i] (([], 0), []) = Inr st" "dump_inv a buf i st" by auto
  with dump_step_inv [OF this(2)] Suc.prems show ?case by (auto simp: dump_loop_append)
qed

lemma div_add15: "(16 * q + r + 15) div 16 = (if r = 0 then q else Suc q)" if "r < 16" for q r :: nat
proof (cases "r = 0")
  case False
  then have "16 * q + r + 15 = 16 * Suc q + (r - 1)" by simp
  then have "(16 * q + r + 15) div 16 = Suc q + (r - 1) div 16" by (metis add.commute div_mult_self2 zero_neq_numeral)
  with False that show ?thesis by simp
qed simp

lemma wys_hex_dump_lines:
  assumes n: "n = nat (sint len)" "n \<le> length buf"
  shows "wys_hex_dump a buf len = Inr (dump_lines a (take n buf))"
proof -
  define q r where qr: "q = n div 16" "r = n mod 16"
  have n_eq: "n = 16 * q + r" and r: "r < 16" by (simp_all add: qr)
  obtain b l out where lp: "dump_loop a buf [0..<n] (([], 0), []) = Inr ((b, l), out)"
    and inv: "dump_inv a buf n ((b, l), out)" using dump_loop_inv [OF n(2)] by (metis prod.exhaust)
  have chunk: "take 16 (drop (16 * k) buf) = take 16 (drop (16 * k) (take n buf))" if "k < q" for k
  proof -
    have "16 * k + 16 \<le> n" using that n_eq by simp
    then show ?thesis by (simp add: drop_take)
  qed
  have out: "out = map (\<lambda>k. dump_line (a + of_nat (16 * k)) (take 16 (drop (16 * k) (take n buf)))) [0..<q]"
    using inv chunk by (simp add: dump_inv_def qr(1) [symmetric])
  have cnt: "(length (take n buf) + 15) div 16 = (if r = 0 then q else Suc q)"
    using n(2) div_add15 [OF r, of q] by (simp add: n_eq)
  show ?thesis
  proof (cases "r = 0")
    case True
    then show ?thesis using lp out cnt by (simp add: wys_hex_dump_def n(1) [symmetric] qr(2) [symmetric] dump_lines_def)
  next
    case False
    have b: "b = dump_part a buf q r" "l = length b" using inv False by (simp_all add: dump_inv_def qr)
    have lb: "length b = 13 + 3 * r" unfolding b using n(2) n_eq by (intro length_dump_part) simp
    let ?k = "16 - r"
    let ?b1 = "b @ concat (replicate ?k ''   '')"
    let ?b2 = "?b1 @ ''| ''"
    let ?b3 = "?b2 @ map (\<lambda>j. dump_char (buf ! j)) [n - r..<n]"
    have l1: "length ?b1 = 61" using lb r by (simp add: sum_list_replicate length_concat)
    have p1: "dump_pad ''   '' ?k (b, l) = Inr (?b1, length ?b1)"
      using dump_pad_ok [of b ?k "''   ''"] lb r b(2) l1 by simp
    have p2: "sprintf_at (?b1, length ?b1) ''| '' = Inr (?b2, length ?b2)"
      using l1 by (simp add: sprintf_at_def)
    have p3: "dump_chars buf [n - r..<n] (?b2, length ?b2) = Inr (?b3, length ?b3)"
      using dump_chars_ok [of ?b2 "[n - r..<n]" buf] l1 n(2) n_eq r by simp
    have l3: "length ?b3 = 63 + r" using l1 n_eq by simp
    have p4: "dump_pad '' '' ?k (?b3, length ?b3) = Inr (?b3 @ concat (replicate ?k '' ''), 79)"
      using dump_pad_ok [of ?b3 ?k "'' ''"] l3 r by simp
    have sl: "map (\<lambda>j. dump_char (buf ! j)) [n - r..<n] = map dump_char (drop (16 * q) (take n buf))"
      using map_nth_slice [of "16 * q" r buf dump_char] n(2) n_eq by (simp add: drop_take)
    have rp: "concat (replicate k '' '') = replicate k (CHR '' '')"
      "concat (replicate k ''   '') = replicate (3 * k) (CHR '' '')" for k
      by (induction k) (simp_all add: numeral_3_eq_3)
    have line: "?b3 @ concat (replicate ?k '' '') = dump_line (a + of_nat (16 * q)) (drop (16 * q) (take n buf))"
      using dump_line_part [of "take n buf" q r buf a] n(2) n_eq r
      unfolding sl rp b by (simp add: drop_take)
    have tk: "take 16 (drop (16 * q) (take n buf)) = drop (16 * q) (take n buf)" using n_eq r by simp
    show ?thesis
      using False lp out cnt line tk p1 p2 p3 p4 r
      unfolding wys_hex_dump_def n(1) [symmetric] Let_def qr(2) [symmetric] dump_lines_def
      by (simp del: append_assoc)
  qed
qed

section \<open>Properties\<close>

definition mem_one :: mem_state where
  "mem_one = put_block 8192 \<lparr>mi_addr = 4096, mi_size = 2, mi_line = 7, mi_fname = ''f''\<rparr> [5, 6] mem_empty"

lemma mem_one_ok: "mem_ok mem_one"
  unfolding mem_one_def by (rule mem_ok_put) (simp_all add: mem_empty_heap)

lemma mem_one_heap: "heap mem_one = [4096 \<mapsto> [5, 6]]" "infos mem_one p \<noteq> None \<longleftrightarrow> p = 8192"
  "total_mem_size mem_one = 2"
  by (simp_all add: mem_one_def mem_empty_def)

text \<open>
  C9: Allocation and release. From a consistent tracker, \<open>_malloc\<close> with two fresh addresses
  returns a block of \<open>size\<close> zero bytes that no other block overlaps, adds \<open>size\<close> to the total
  and keeps the tracker consistent; when either of its allocations fails it returns NULL and
  leaves no trace (the block already obtained is given back). \<open>_free\<close> of an allocated block
  removes exactly that block and its bytes from the total; of any other pointer (NULL, a
  block released before) it changes nothing.
\<close>

theorem mem_alloc_free:
  assumes "mem_ok s" "fresh s a" "fresh s i" "a \<noteq> i"
  shows "(\<exists>s1. mem_malloc (Some a) (Some i) sz fname line s = Inr (a, s1) \<and> mem_ok s1
            \<and> heap s1 = (heap s)(a \<mapsto> replicate (unat sz) 0)
            \<and> total_mem_size s1 = total_mem_size s + sz)
    \<and> mem_malloc None m2 sz fname line s = Inr (NULL_p, s)
    \<and> mem_malloc (Some a) None sz fname line s = Inr (NULL_p, s)
    \<and> (\<forall>p bs. heap s p = Some bs \<longrightarrow>
          (\<exists>s1. mem_free p s = Inr s1 \<and> mem_ok s1 \<and> heap s1 = (heap s)(p := None)
             \<and> total_mem_size s1 = total_mem_size s - of_nat (length bs)
             \<and> mem_free p s1 = Inr s1))
    \<and> (\<forall>p. heap s p = None \<longrightarrow> mem_free p s = Inr s)"
proof (intro conjI allI impI)
  show "\<exists>s1. mem_malloc (Some a) (Some i) sz fname line s = Inr (a, s1) \<and> mem_ok s1
            \<and> heap s1 = (heap s)(a \<mapsto> replicate (unat sz) 0)
            \<and> total_mem_size s1 = total_mem_size s + sz"
    using mem_malloc_ok [OF assms, where sz = sz and fname = fname and line = line] by simp
  show "mem_malloc None m2 sz fname line s = Inr (NULL_p, s)" by (simp add: mem_malloc_def)
  show "mem_malloc (Some a) None sz fname line s = Inr (NULL_p, s)"
    using assms(2) by (simp add: mem_malloc_def lib_free_def Let_def fresh_def fun_upd_idem)
  show miss: "mem_free p s = Inr s" if "heap s p = None" for p
    using find_info_miss [OF assms(1) that] by (simp add: mem_free_def)
  fix p bs assume h: "heap s p = Some bs"
  then obtain j n where j: "infos s j = Some n" "mi_addr n = p" "length bs = unat (mi_size n)"
    using tracked [OF assms(1)] by metis
  have ok: "mem_ok (drop_block j n s)" using mem_ok_drop [OF assms(1) j(1)] .
  have "mem_free p (drop_block j n s) = Inr (drop_block j n s)"
    using find_info_miss [OF ok, of p] j(2) by (simp add: mem_free_def)
  with ok mem_free_ok [OF assms(1) j(1,2)] j
  show "\<exists>s1. mem_free p s = Inr s1 \<and> mem_ok s1 \<and> heap s1 = (heap s)(p := None)
      \<and> total_mem_size s1 = total_mem_size s - of_nat (length bs) \<and> mem_free p s1 = Inr s1"
    by (intro exI [of _ "drop_block j n s"]) simp
qed

theorem mem_alloc_free_witness:
  "\<exists>s1. mem_malloc (Some 4096) (Some 8192) 3 ''f'' 7 mem_empty = Inr (4096, s1) \<and> mem_ok s1
      \<and> heap s1 4096 = Some (replicate 3 0) \<and> total_mem_size s1 = 3"
  using mem_alloc_free [of mem_empty 4096 8192 3 "''f''" 7 None]
  by (auto simp: fresh_def mem_empty_def mem_ok_empty [unfolded mem_empty_def])

text \<open>
  Resizing. For an allocated block and a new non-zero size, a successful \<open>realloc\<close> (in
  place or to a fresh address) gives a block of the new size that starts with the old bytes,
  corrects the total by the difference and keeps the tracker consistent; the same size
  changes nothing. Size 0 releases the block, and so does a failed \<open>realloc\<close>: the caller's
  block is gone, where the C function would have kept it.
\<close>

lemma mem_resize:
  assumes "mem_ok s" "heap s p = Some bs" "a = p \<or> fresh s a" "sz \<noteq> 0" "sz \<noteq> of_nat (length bs)"
  shows "(\<exists>s1 cs. mem_realloc m1 m2 (Some a) junk p sz fname line s = Inr (a, s1) \<and> mem_ok s1
            \<and> heap s1 = ((heap s)(p := None))(a \<mapsto> cs) \<and> length cs = unat sz
            \<and> (\<forall>k < min (length bs) (unat sz). cs ! k = bs ! k)
            \<and> total_mem_size s1 = total_mem_size s + (sz - of_nat (length bs)))
    \<and> (bs \<noteq> [] \<longrightarrow> mem_realloc m1 m2 r junk p (of_nat (length bs)) fname line s = Inr (p, s))
    \<and> (\<exists>s1. mem_realloc m1 m2 None junk p sz fname line s = Inr (NULL_p, s1)
          \<and> mem_realloc m1 m2 r junk p 0 fname line s = Inr (NULL_p, s1)
          \<and> mem_ok s1 \<and> heap s1 = (heap s)(p := None)
          \<and> total_mem_size s1 = total_mem_size s - of_nat (length bs))"
proof -
  obtain i n where i: "infos s i = Some n" "mi_addr n = p" "length bs = unat (mi_size n)"
    using tracked [OF assms(1,2)] by metis
  have nsz: "sz \<noteq> mi_size n" using assms(5) i(3) by auto
  have p: "p \<noteq> NULL_p" by (rule mem_ok_nonnull(2) [OF assms(1,2)])
  let ?cs = "resized bs sz junk"
  have pre: "\<forall>k < min (length bs) (unat sz). ?cs ! k = bs ! k"
    by (simp add: resized_def nth_append)
  have A: "\<exists>s1. mem_realloc m1 m2 (Some a) junk p sz fname line s = Inr (a, s1) \<and> mem_ok s1
            \<and> heap s1 = ((heap s)(p := None))(a \<mapsto> ?cs)
            \<and> total_mem_size s1 = total_mem_size s + (sz - of_nat (length bs))"
  proof (cases "a = p")
    case True
    with mem_realloc_in_place [OF assms(1) i(1,2) assms(2,4) nsz] mem_ok_grow [OF assms(1) i(1), of ?cs sz] i
    show ?thesis by simp
  next
    case False
    let ?n = "\<lparr>mi_addr = a, mi_size = sz, mi_line = line, mi_fname = fname_copy fname\<rparr>"
    have "fresh s a" using False assms(3) by simp
    then have "mem_ok (put_block i ?n ?cs (drop_block i n s))"
      using mem_ok_drop [OF assms(1) i(1)] mem_ok_nonnull(1) [OF assms(1) i(1)]
      by (intro mem_ok_put) (simp_all add: fresh_def)
    with mem_realloc_moved [OF assms(1) i(1,2) assms(2,4) nsz False] i show ?thesis by simp
  qed
  have B: "mem_realloc m1 m2 r junk p (of_nat (length bs)) fname line s = Inr (p, s)" if "bs \<noteq> []"
  proof -
    have "0 < unat (mi_size n)" using i(3) that by (metis length_greater_0_conv)
    with i(3) show ?thesis by (intro mem_realloc_same [OF assms(1) i(1,2) p]) auto
  qed
  have C: "mem_ok (drop_block i n s)" by (rule mem_ok_drop [OF assms(1) i(1)])
  have D: "mem_realloc m1 m2 None junk p sz fname line s = Inr (NULL_p, drop_block i n s)"
    "mem_realloc m1 m2 r junk p 0 fname line s = Inr (NULL_p, drop_block i n s)"
    using nsz by (simp_all add: mem_realloc_released [OF assms(1) i(1,2) p])
  show ?thesis
  proof (intro conjI impI)
    show "\<exists>s1 cs. mem_realloc m1 m2 (Some a) junk p sz fname line s = Inr (a, s1) \<and> mem_ok s1
            \<and> heap s1 = ((heap s)(p := None))(a \<mapsto> cs) \<and> length cs = unat sz
            \<and> (\<forall>k < min (length bs) (unat sz). cs ! k = bs ! k)
            \<and> total_mem_size s1 = total_mem_size s + (sz - of_nat (length bs))"
      using A pre length_resized by blast
  qed (use B C D i in \<open>auto intro!: exI [of _ "drop_block i n s"]\<close>)
qed

lemma mem_resize_witness:
  "\<exists>s1 cs. mem_realloc None None (Some 12288) (\<lambda>_. 9) 4096 3 ''g'' 8 mem_one = Inr (12288, s1) \<and> mem_ok s1
      \<and> heap s1 = [12288 \<mapsto> cs] \<and> length cs = 3 \<and> total_mem_size s1 = 3"
  using mem_resize [of mem_one 4096 "[5, 6]" 12288 3 None None "\<lambda>_. 9" "''g''" 8 None]
    mem_one_ok mem_one_heap(2) [of 12288]
  by (auto simp: mem_one_heap(1,3) fresh_def)

text \<open>
  The listing. In a consistent tracker \<open>wys_show_mem_info\<close> prints one row per allocated
  block, with its address and size, no row twice, and the sizes it prints add up (in 32
  bits) to the total it prints.
\<close>

lemma mem_listing_complete:
  assumes "mem_ok s"
  shows "\<exists>rs. wys_show_mem_info s = Inr (total_mem_size s, rs)
      \<and> mset rs = image_mset (\<lambda>i. mem_row_of (the (infos s i))) (mset_set (dom (infos s)))
      \<and> card (dom (heap s)) = length rs
      \<and> sum_list (map row_size rs) = total_mem_size s"
proof -
  let ?f = "\<lambda>i. mem_row_of (the (infos s i))"
  define js where js: "js = concat (map (meminfo_hash s) [0..<MEM_HASH_MAX])"
  have ms: "mset js = mset_set (dom (infos s))" unfolding js by (rule mem_ok_all_infos [OF assms])
  have "length js = card (dom (infos s))" using arg_cong [OF ms, of size] by simp
  moreover have "sum_list (map row_size (map ?f js)) = total_mem_size s"
  proof -
    have "sum_list (map row_size (map ?f js)) = sum_mset (image_mset (\<lambda>i. mi_size (the (infos s i))) (mset js))"
      by (simp add: mem_row_of_def comp_def sum_mset_sum_list flip: mset_map)
    then show ?thesis unfolding ms mem_okD(9) [OF assms] by (simp add: sum_unfold_sum_mset)
  qed
  moreover have "wys_show_mem_info s = Inr (total_mem_size s, map ?f js)"
    unfolding wys_show_mem_info_def show_chains_rows [OF assms] js by (simp only: res_bind_simps)
  ultimately show ?thesis using ms card_blocks [OF assms] by (auto simp: mset_map)
qed

lemma mem_listing_complete_witness:
  "\<exists>rs. wys_show_mem_info mem_one = Inr (2, rs) \<and> length rs = 1 \<and> sum_list (map row_size rs) = 2"
  using mem_listing_complete [OF mem_one_ok] by (auto simp: mem_one_heap)

text \<open>
  The dump. For \<open>len\<close> bytes of a buffer at least that long \<open>wys_hex_dump\<close> prints one line
  per sixteen bytes, each the address, the bytes in hexadecimal and their printable
  characters; every line has 79 characters, so that the 80 bytes of \<open>binstr\<close> are exactly
  enough and no \<open>sprintf\<close> writes past them.
\<close>

lemma hex_dump_fits:
  assumes "nat (sint len) \<le> length buf"
  shows "wys_hex_dump a buf len = Inr (dump_lines a (take (nat (sint len)) buf))
    \<and> (\<forall>t \<in> set (dump_lines a (take (nat (sint len)) buf)). length t = 79)"
  using wys_hex_dump_lines [OF refl assms] by (auto simp: dump_lines_def length_dump_line)

lemma hex_dump_fits_witness:
  "wys_hex_dump 0x1000 [0x41, 0x0A] 2 = Inr (dump_lines 0x1000 [0x41, 0x0A])"
  using hex_dump_fits [of 2 "[0x41, 0x0A]" "0x1000"] by simp

text \<open>
  A release through \<open>_realloc(ptr, 0)\<close> of a pointer the tracker does not know, a double
  free, is reported and then dereferences the NULL the search returned; \<open>_free\<close> of the same
  pointer only reports it.
\<close>

lemma realloc_zero_of_unknown:
  assumes "mem_ok s" "heap s p = None" "p \<noteq> NULL_p"
  shows "mem_realloc m1 m2 r junk p 0 fname line s = Inl Null_Deref \<and> mem_free p s = Inr s"
  using find_info_miss [OF assms(1,2)] mem_okD(2) [OF assms(1)] assms(3)
  by (simp add: mem_realloc_def mem_free_def ptr_of_def release_block_def out_hash_def)

lemma realloc_zero_of_unknown_witness:
  "mem_realloc None None None (\<lambda>_. 0) 4096 0 ''f'' 7 mem_empty = Inl Null_Deref"
  using realloc_zero_of_unknown [of mem_empty 4096 None None None "\<lambda>_. 0" "''f''" 7]
  by (simp add: mem_empty_heap)

end
