(* ===== verification/Thread_Pool.thy ===== *)
theory Thread_Pool
  imports Prelude
begin

text \<open>
  The thread pool of \<^verbatim>\<open>TCP_C/thread.c\<close> as a transition system: \<open>thread_routine\<close> of every
  worker, any number of callers of \<open>pool_add_task\<close> and one caller of \<open>pool_destroy\<close>, whose
  steps interleave. A step is what the code does between two accesses of shared state that
  another thread can come in between: taking the mutex, one read of \<open>shutdown\<close> (which is
  written without the mutex), the part of a critical section that only touches what the mutex
  protects, and the calls on the condition variable (waiting releases the mutex and sleeps in
  one step; sleepers may wake spuriously).

  A failed \<open>assert\<close> is recorded in the state. Three histories record the tasks added, taken by
  a worker and finished. What is assumed of the callers: one thread calls \<open>pool_destroy\<close>, and
  no call of \<open>pool_add_task\<close> is in progress once the pool is being freed. The program aborts
  when there is no memory for a task; that case is left out. A second call of \<open>pool_destroy\<close>,
  which returns at once, changes nothing and is no step.

  The invariants give mutual exclusion, that no assertion fails, that tasks are taken in the
  order they were added and run exactly once, and that an added task is never left behind by
  sleeping workers. The last section has the run in which \<open>pool_destroy\<close> waits forever.
\<close>

section \<open>State and steps\<close>

datatype 't wpc =
    W_Lock
  | W_Loop
  | W_Shut
  | W_Wait
  | W_Sleep
  | W_Wake
  | W_Test
  | W_Take
  | W_Run 't
  | W_Exit

datatype 't cpc = C_Idle | C_Lock 't | C_Add 't | C_Signal

datatype dpc = D_Idle | D_Bcast | D_Join nat | D_Freed

datatype actor = Worker nat | Client nat

record 't pool =
  lock :: "actor option"
  queue :: "'t list"
  shutdown :: bool
  max_thread_num :: nat
  cur_task_list_size :: s32
  wpcs :: "nat \<Rightarrow> 't wpc"
  cpcs :: "nat \<Rightarrow> 't cpc"
  dpc_of :: dpc
  crashed :: "fault option"
  added :: "'t list"
  taken :: "'t list"
  finished :: "'t list"
  dropped :: "'t list"

text \<open>
  \<open>thread_pool_init\<close>: whether its two allocations succeed is an argument. The pool is handed
  out before the second one, which is why a failure returns a pool without threads.
\<close>

definition new_pool :: "nat \<Rightarrow> 't pool" where
  "new_pool n = \<lparr>lock = None, queue = [], shutdown = False, max_thread_num = n, cur_task_list_size = 0,
     wpcs = (\<lambda>_. W_Lock), cpcs = (\<lambda>_. C_Idle), dpc_of = D_Idle, crashed = None,
     added = [], taken = [], finished = [], dropped = []\<rparr>"

definition thread_pool_init :: "bool \<Rightarrow> bool \<Rightarrow> nat \<Rightarrow> int \<times> 't pool option" where
  "thread_pool_init pool_mem ids_mem n =
     (if \<not> pool_mem then (-1, None)
      else if \<not> ids_mem then (-1, Some (new_pool 0))
      else (0, Some (new_pool n)))"

text \<open>The critical section of \<open>pool_add_task\<close> (append at the end of the list) and of a worker.\<close>

definition append_task :: "'t \<Rightarrow> 't pool \<Rightarrow> 't pool" where
  "append_task t s =
     s\<lparr>queue := queue s @ [t], cur_task_list_size := cur_task_list_size s + 1, added := added s @ [t]\<rparr>"

definition take_task :: "nat \<Rightarrow> 't pool \<Rightarrow> 't pool" where
  "take_task w s =
     (if cur_task_list_size s = 0 then s\<lparr>crashed := Some Assert_Failed\<rparr>
      else (case queue s of
              [] \<Rightarrow> s\<lparr>crashed := Some Assert_Failed\<rparr>
            | t # ts \<Rightarrow> s\<lparr>queue := ts, cur_task_list_size := cur_task_list_size s - 1,
                          taken := taken s @ [t], wpcs := (wpcs s)(w := W_Run t), lock := None\<rparr>))"

definition wake_all :: "('n \<Rightarrow> 't wpc) \<Rightarrow> 'n \<Rightarrow> 't wpc" where
  "wake_all f w = (if f w = W_Sleep then W_Wake else f w)"

datatype 't label = L_Work nat | L_Spurious nat | L_Call nat | L_Add nat | L_Destroy

inductive step :: "'t pool \<Rightarrow> 't label \<Rightarrow> 't pool \<Rightarrow> bool" where
  w_lock: "w < max_thread_num s \<Longrightarrow> wpcs s w = W_Lock \<Longrightarrow> lock s = None \<Longrightarrow>
     step s (L_Work w) (s\<lparr>lock := Some (Worker w), wpcs := (wpcs s)(w := W_Loop)\<rparr>)"
| w_loop: "w < max_thread_num s \<Longrightarrow> wpcs s w = W_Loop \<Longrightarrow>
     step s (L_Work w)
       (s\<lparr>wpcs := (wpcs s)(w := if cur_task_list_size s = 0 then W_Shut else W_Test)\<rparr>)"
| w_shut: "w < max_thread_num s \<Longrightarrow> wpcs s w = W_Shut \<Longrightarrow>
     step s (L_Work w) (s\<lparr>wpcs := (wpcs s)(w := if shutdown s then W_Test else W_Wait)\<rparr>)"
| w_wait: "w < max_thread_num s \<Longrightarrow> wpcs s w = W_Wait \<Longrightarrow>
     step s (L_Work w) (s\<lparr>lock := None, wpcs := (wpcs s)(w := W_Sleep)\<rparr>)"
| w_spurious: "w < max_thread_num s \<Longrightarrow> wpcs s w = W_Sleep \<Longrightarrow>
     step s (L_Spurious w) (s\<lparr>wpcs := (wpcs s)(w := W_Wake)\<rparr>)"
| w_wake: "w < max_thread_num s \<Longrightarrow> wpcs s w = W_Wake \<Longrightarrow> lock s = None \<Longrightarrow>
     step s (L_Work w) (s\<lparr>lock := Some (Worker w), wpcs := (wpcs s)(w := W_Loop)\<rparr>)"
| w_exit: "w < max_thread_num s \<Longrightarrow> wpcs s w = W_Test \<Longrightarrow> shutdown s \<Longrightarrow>
     step s (L_Work w) (s\<lparr>lock := None, wpcs := (wpcs s)(w := W_Exit)\<rparr>)"
| w_go: "w < max_thread_num s \<Longrightarrow> wpcs s w = W_Test \<Longrightarrow> \<not> shutdown s \<Longrightarrow>
     step s (L_Work w) (s\<lparr>wpcs := (wpcs s)(w := W_Take)\<rparr>)"
| w_take: "w < max_thread_num s \<Longrightarrow> wpcs s w = W_Take \<Longrightarrow> step s (L_Work w) (take_task w s)"
| w_run: "w < max_thread_num s \<Longrightarrow> wpcs s w = W_Run t \<Longrightarrow>
     step s (L_Work w) (s\<lparr>finished := finished s @ [t], wpcs := (wpcs s)(w := W_Lock)\<rparr>)"
| c_call: "cpcs s c = C_Idle \<Longrightarrow> dpc_of s \<noteq> D_Freed \<Longrightarrow>
     step s (L_Call c) (s\<lparr>cpcs := (cpcs s)(c := C_Lock t)\<rparr>)"
| c_lock: "cpcs s c = C_Lock t \<Longrightarrow> lock s = None \<Longrightarrow> dpc_of s \<noteq> D_Freed \<Longrightarrow>
     step s (L_Add c) (s\<lparr>lock := Some (Client c), cpcs := (cpcs s)(c := C_Add t)\<rparr>)"
| c_add: "cpcs s c = C_Add t \<Longrightarrow> dpc_of s \<noteq> D_Freed \<Longrightarrow>
     step s (L_Add c) ((append_task t s)\<lparr>lock := None, cpcs := (cpcs s)(c := C_Signal)\<rparr>)"
| c_signal: "cpcs s c = C_Signal \<Longrightarrow> dpc_of s \<noteq> D_Freed \<Longrightarrow> w < max_thread_num s \<Longrightarrow> wpcs s w = W_Sleep \<Longrightarrow>
     step s (L_Add c) (s\<lparr>wpcs := (wpcs s)(w := W_Wake), cpcs := (cpcs s)(c := C_Idle)\<rparr>)"
| c_nobody: "cpcs s c = C_Signal \<Longrightarrow> dpc_of s \<noteq> D_Freed \<Longrightarrow> \<forall>w < max_thread_num s. wpcs s w \<noteq> W_Sleep \<Longrightarrow>
     step s (L_Add c) (s\<lparr>cpcs := (cpcs s)(c := C_Idle)\<rparr>)"
| d_start: "dpc_of s = D_Idle \<Longrightarrow> \<not> shutdown s \<Longrightarrow>
     step s L_Destroy (s\<lparr>shutdown := True, dpc_of := D_Bcast\<rparr>)"
| d_bcast: "dpc_of s = D_Bcast \<Longrightarrow>
     step s L_Destroy (s\<lparr>wpcs := wake_all (wpcs s), dpc_of := D_Join 0\<rparr>)"
| d_join: "dpc_of s = D_Join i \<Longrightarrow> i < max_thread_num s \<Longrightarrow> wpcs s i = W_Exit \<Longrightarrow>
     step s L_Destroy (s\<lparr>dpc_of := D_Join (Suc i)\<rparr>)"
| d_free: "dpc_of s = D_Join i \<Longrightarrow> \<not> i < max_thread_num s \<Longrightarrow>
     step s L_Destroy (s\<lparr>dropped := queue s, queue := [], dpc_of := D_Freed\<rparr>)"

inductive reach :: "nat \<Rightarrow> 't pool \<Rightarrow> bool" for n where
  start: "reach n (new_pool n)"
| next_step: "reach n s \<Longrightarrow> step s l s' \<Longrightarrow> reach n s'"

section \<open>Invariants\<close>

fun holds_w :: "'t wpc \<Rightarrow> bool" where
  "holds_w W_Loop = True"
| "holds_w W_Shut = True"
| "holds_w W_Wait = True"
| "holds_w W_Test = True"
| "holds_w W_Take = True"
| "holds_w _ = False"

fun holds_c :: "'t cpc \<Rightarrow> bool" where
  "holds_c (C_Add t) = True"
| "holds_c _ = False"

definition inv_lock :: "'t pool \<Rightarrow> bool" where
  "inv_lock s \<longleftrightarrow>
     (\<forall>w < max_thread_num s. holds_w (wpcs s w) \<longleftrightarrow> lock s = Some (Worker w))
     \<and> (\<forall>c. holds_c (cpcs s c) \<longleftrightarrow> lock s = Some (Client c))"

text \<open>What a worker has seen of the queue and of \<open>shutdown\<close> is still true at its next step.\<close>

fun seen_ok :: "s32 \<Rightarrow> bool \<Rightarrow> 't wpc \<Rightarrow> bool" where
  "seen_ok cur shut W_Shut = (cur = 0)"
| "seen_ok cur shut W_Wait = (cur = 0)"
| "seen_ok cur shut W_Test = (cur \<noteq> 0 \<or> shut)"
| "seen_ok cur shut W_Take = (cur \<noteq> 0)"
| "seen_ok cur shut W_Exit = shut"
| "seen_ok cur shut _ = True"

definition inv_seen :: "'t pool \<Rightarrow> bool" where
  "inv_seen s \<longleftrightarrow> (\<forall>w < max_thread_num s. seen_ok (cur_task_list_size s) (shutdown s) (wpcs s w))"

definition inv_cur :: "'t pool \<Rightarrow> bool" where
  "inv_cur s \<longleftrightarrow>
     (dpc_of s \<noteq> D_Freed \<longrightarrow> cur_task_list_size s = of_nat (length (queue s)) \<and> dropped s = [])
     \<and> (shutdown s \<longleftrightarrow> dpc_of s \<noteq> D_Idle) \<and> crashed s = None"

definition inv_join :: "'t pool \<Rightarrow> bool" where
  "inv_join s \<longleftrightarrow>
     (\<forall>w < (case dpc_of s of D_Join i \<Rightarrow> min i (max_thread_num s) | D_Freed \<Rightarrow> max_thread_num s | _ \<Rightarrow> 0).
        wpcs s w = W_Exit)"

fun run_of :: "'t wpc \<Rightarrow> 't multiset" where
  "run_of (W_Run t) = {#t#}"
| "run_of _ = {#}"

definition inv_flow :: "'t pool \<Rightarrow> bool" where
  "inv_flow s \<longleftrightarrow> added s = taken s @ dropped s @ queue s
     \<and> mset (taken s) = mset (finished s) + (\<Sum>w < max_thread_num s. run_of (wpcs s w))"

text \<open>An added task is never left to sleeping workers only.\<close>

definition inv_wake :: "'t pool \<Rightarrow> bool" where
  "inv_wake s \<longleftrightarrow>
     (length (added s) < 2 ^ 31 \<and> 0 < max_thread_num s \<and> \<not> shutdown s \<and> queue s \<noteq> [] \<longrightarrow>
        (\<exists>w < max_thread_num s. wpcs s w \<noteq> W_Sleep) \<or> (\<exists>c. cpcs s c = C_Signal))"

lemma wake_all_eq [simp]:
  "wake_all f w = W_Exit \<longleftrightarrow> f w = W_Exit" "wake_all f w = W_Shut \<longleftrightarrow> f w = W_Shut"
  "wake_all f w = W_Wait \<longleftrightarrow> f w = W_Wait" "wake_all f w = W_Test \<longleftrightarrow> f w = W_Test"
  "wake_all f w = W_Take \<longleftrightarrow> f w = W_Take" "wake_all f w \<noteq> W_Sleep"
  "holds_w (wake_all f w) = holds_w (f w)" "run_of (wake_all f w) = run_of (f w)"
  by (simp_all add: wake_all_def)

lemma step_max: "step s l s' \<Longrightarrow> max_thread_num s' = max_thread_num s"
  by (induction rule: step.induct) (auto simp: take_task_def append_task_def split: list.splits)

lemma inv_lock_new [simp]: "inv_lock (new_pool n)"
  by (simp add: inv_lock_def new_pool_def)

lemma inv_lockD:
  "inv_lock s \<Longrightarrow> w < max_thread_num s \<Longrightarrow> holds_w (wpcs s w) \<longleftrightarrow> lock s = Some (Worker w)"
  "inv_lock s \<Longrightarrow> holds_c (cpcs s c) \<longleftrightarrow> lock s = Some (Client c)"
  by (simp_all add: inv_lock_def)

lemma inv_lock_step:
  assumes "step s l s'" "inv_lock s"
  shows "inv_lock s'"
  using assms
  by (induction rule: step.induct)
    (auto simp: inv_lock_def append_task_def take_task_def split: list.splits if_splits,
     (metis holds_c.simps)+)

text \<open>Only the holder of the mutex is inside a critical section.\<close>

lemma one_holder:
  assumes "inv_lock s" "w < max_thread_num s" "holds_w (wpcs s w)"
  shows "v < max_thread_num s \<Longrightarrow> holds_w (wpcs s v) \<Longrightarrow> v = w" "\<not> holds_c (cpcs s c)"
  using inv_lockD [OF assms(1)] assms(2,3) by auto

lemma client_holder:
  assumes "inv_lock s" "holds_c (cpcs s c)"
  shows "v < max_thread_num s \<Longrightarrow> \<not> holds_w (wpcs s v)"
  using inv_lockD [OF assms(1)] assms(2) by auto

lemma seen_ok_outside: "\<not> holds_w p \<Longrightarrow> seen_ok cur shut p = seen_ok cur' shut p"
  by (cases p) simp_all

lemma seen_ok_shut: "seen_ok cur False p \<Longrightarrow> seen_ok cur True p"
  by (cases p) simp_all

lemma seen_ok_wake [simp]: "seen_ok cur shut (wake_all f w) = seen_ok cur shut (f w)"
  by (simp add: wake_all_def)

lemma take_task_ok:
  assumes "inv_join s" "inv_cur s" "inv_seen s" "w < max_thread_num s" "wpcs s w = W_Take"
  obtains t ts where "queue s = t # ts" "take_task w s = s\<lparr>queue := ts,
      cur_task_list_size := cur_task_list_size s - 1, taken := taken s @ [t],
      wpcs := (wpcs s)(w := W_Run t), lock := None\<rparr>" "dpc_of s \<noteq> D_Freed"
proof -
  have d: "dpc_of s \<noteq> D_Freed" using assms(1,4,5) by (auto simp: inv_join_def)
  have c: "cur_task_list_size s \<noteq> 0" using assms(3-5) by (metis inv_seen_def seen_ok.simps(4))
  with assms(2) d obtain t ts where "queue s = t # ts" by (cases "queue s") (auto simp: inv_cur_def)
  with c d show thesis by (intro that) (auto simp: take_task_def)
qed

lemma inv_seen_step:
  assumes "step s l s'" "inv_lock s" "inv_cur s" "inv_join s" "inv_seen s"
  shows "inv_seen s'"
  using assms
proof (induction rule: step.induct)
  case (w_take w s)
  obtain t ts where t: "take_task w s = s\<lparr>queue := ts,
      cur_task_list_size := cur_task_list_size s - 1, taken := taken s @ [t],
      wpcs := (wpcs s)(w := W_Run t), lock := None\<rparr>"
    using take_task_ok [of s w] w_take by metis
  have "seen_ok (cur_task_list_size s - 1) (shutdown s) (wpcs s v)" if "v < max_thread_num s" "v \<noteq> w" for v
  proof -
    have "\<not> holds_w (wpcs s v)" using one_holder(1) [of s w v] w_take that by auto
    from seen_ok_outside [OF this] show ?thesis using w_take that unfolding inv_seen_def by metis
  qed
  then show ?case by (simp add: t inv_seen_def)
next
  case (c_add s c t)
  have "seen_ok (cur_task_list_size s + 1) (shutdown s) (wpcs s v)" if "v < max_thread_num s" for v
  proof -
    have "\<not> holds_w (wpcs s v)" using client_holder [of s c v] c_add that by auto
    from seen_ok_outside [OF this] show ?thesis using c_add that unfolding inv_seen_def by metis
  qed
  then show ?case by (simp add: append_task_def inv_seen_def)
next
  case (d_start s)
  then show ?case by (auto simp: inv_seen_def intro: seen_ok_shut)
next
  case (w_go w s)
  then show ?case by (fastforce simp: inv_seen_def)
next
  case (w_loop w s)
  then show ?case by (auto simp: inv_seen_def)
next
  case (w_shut w s)
  then have "cur_task_list_size s = 0" by (metis inv_seen_def seen_ok.simps(1))
  with w_shut show ?case by (auto simp: inv_seen_def)
qed (simp_all add: inv_seen_def)

lemma inv_cur_step:
  assumes "step s l s'" "inv_cur s" "inv_join s" "inv_seen s"
  shows "inv_cur s'"
  using assms
proof (induction rule: step.induct)
  case (w_take w s)
  then obtain t ts where t: "queue s = t # ts" "take_task w s = s\<lparr>queue := ts,
      cur_task_list_size := cur_task_list_size s - 1, taken := taken s @ [t],
      wpcs := (wpcs s)(w := W_Run t), lock := None\<rparr>"
    using take_task_ok [of s w] by metis
  then show ?case using w_take by (simp add: inv_cur_def)
qed (auto simp: inv_cur_def append_task_def)

lemma inv_join_step:
  assumes "step s l s'" "inv_join s"
  shows "inv_join s'"
  using assms
proof (induction rule: step.induct)
  case (d_join s i)
  then show ?case by (auto simp: inv_join_def less_Suc_eq)
qed (auto simp: inv_join_def append_task_def take_task_def split: dpc.splits list.splits)

lemma sum_run_upd:
  "w < n \<Longrightarrow> (\<Sum>v < n. run_of ((f(w := p)) v)) + run_of (f w) = (\<Sum>v < (n::nat). run_of (f v)) + run_of p"
  by (simp add: sum.remove [of "{..<n}" w] ac_simps)

lemma sum_run_same:
  "run_of p = run_of (f w) \<Longrightarrow> (\<Sum>v < (n::nat). run_of ((f(w := p)) v)) = (\<Sum>v < n. run_of (f v))"
  by (rule sum.cong) auto

lemma inv_flow_step:
  assumes "step s l s'" "inv_flow s" "inv_cur s" "inv_join s" "inv_seen s"
  shows "inv_flow s'"
  using assms
proof (induction rule: step.induct)
  case (w_take w s)
  then obtain t ts where t: "queue s = t # ts" "take_task w s = s\<lparr>queue := ts,
      cur_task_list_size := cur_task_list_size s - 1, taken := taken s @ [t],
      wpcs := (wpcs s)(w := W_Run t), lock := None\<rparr>" "dpc_of s \<noteq> D_Freed"
    using take_task_ok [of s w] by metis
  then show ?case using w_take sum_run_upd [of w "max_thread_num s" "wpcs s" "W_Run t"]
    by (simp add: inv_flow_def inv_cur_def del: fun_upd_apply)
next
  case (w_run w s t)
  then show ?case using sum_run_upd [of w "max_thread_num s" "wpcs s" W_Lock]
    by (simp add: inv_flow_def del: fun_upd_apply)
next
  case (c_add s c t)
  then show ?case by (simp add: inv_flow_def inv_cur_def append_task_def)
next
  case (d_free s i)
  then show ?case by (simp add: inv_flow_def inv_cur_def)
qed (simp_all add: inv_flow_def sum_run_same del: fun_upd_apply)

lemma inv_wake_step:
  assumes "step s l s'" "inv_wake s" "inv_lock s" "inv_flow s" "inv_cur s" "inv_join s" "inv_seen s"
  shows "inv_wake s'"
  using assms
proof (induction rule: step.induct)
  case (w_wait w s)
  have "length (queue s) \<le> length (added s)" using w_wait by (simp add: inv_flow_def)
  moreover have "cur_task_list_size s = 0" using w_wait by (metis inv_seen_def seen_ok.simps(2))
  ultimately have "queue s = []" if "length (added s) < 2 ^ 31" "\<not> shutdown s"
    using that w_wait unat_of_nat32 [of "length (queue s)"] by (auto simp: inv_cur_def)
  then show ?case by (auto simp: inv_wake_def)
next
  case (w_take w s)
  then obtain t where "take_task w s = s\<lparr>queue := tl (queue s),
      cur_task_list_size := cur_task_list_size s - 1, taken := taken s @ [t],
      wpcs := (wpcs s)(w := W_Run t), lock := None\<rparr>"
    using take_task_ok [of s w] by (metis list.sel(3))
  then show ?case using w_take by (auto simp: inv_wake_def)
next
  case (c_add s c t)
  then show ?case by (auto simp: inv_wake_def append_task_def)
next
  case (c_signal s c w)
  then show ?case by (auto simp: inv_wake_def)
next
  case (c_call s c t)
  then show ?case unfolding inv_wake_def by simp (metis cpc.distinct)
next
  case (c_lock s c t)
  then show ?case unfolding inv_wake_def by simp (metis cpc.distinct)
next
  case (d_free s i)
  then show ?case by (simp add: inv_wake_def)
qed (auto simp: inv_wake_def)

lemma pool_invariants:
  assumes "reach n s"
  shows "inv_lock s \<and> inv_cur s \<and> inv_join s \<and> inv_seen s \<and> inv_flow s \<and> inv_wake s \<and> max_thread_num s = n"
  using assms
proof (induction rule: reach.induct)
  case start
  show ?case
    by (simp add: inv_lock_def inv_cur_def inv_join_def inv_seen_def inv_flow_def inv_wake_def new_pool_def)
next
  case (next_step s l s')
  then show ?case
    using inv_lock_step inv_cur_step inv_join_step inv_seen_step inv_flow_step inv_wake_step step_max by metis
qed

definition prefix_of_added :: "'t list \<Rightarrow> 't list \<Rightarrow> bool" where
  "prefix_of_added ts as \<longleftrightarrow> take (length ts) as = ts"

text \<open>A run given by its labels and states.\<close>

lemma reach_step: "reach n s \<Longrightarrow> step s l s' \<Longrightarrow> s' = t \<Longrightarrow> reach n t"
  using next_step by blast

section \<open>Runs\<close>

text \<open>A run of one worker and one caller: the task is added while the worker sleeps.\<close>

definition asleep :: "nat pool" where
  "asleep = (new_pool 1)\<lparr>wpcs := (wpcs (new_pool 1))(0 := W_Sleep)\<rparr>"

definition ready_to_wait :: "nat pool" where
  "ready_to_wait = (new_pool 1)\<lparr>lock := Some (Worker 0), wpcs := (wpcs (new_pool 1))(0 := W_Wait)\<rparr>"

lemma ready_to_wait_reach: "reach 1 ready_to_wait"
proof -
  let ?s = "\<lambda>p. (new_pool 1 :: nat pool)\<lparr>lock := Some (Worker 0), wpcs := (wpcs (new_pool 1))(0 := p)\<rparr>"
  have "reach 1 (?s W_Loop)"
    by (rule reach_step [OF start w_lock [of 0]]) (simp_all add: new_pool_def)
  then have "reach 1 (?s W_Shut)"
    by (rule reach_step [OF _ w_loop [of 0]]) (simp_all add: new_pool_def)
  then have "reach 1 (?s W_Wait)"
    by (rule reach_step [OF _ w_shut [of 0]]) (simp_all add: new_pool_def)
  then show ?thesis by (simp add: ready_to_wait_def)
qed

lemma asleep_reach: "reach 1 asleep"
  by (rule reach_step [OF ready_to_wait_reach w_wait [of 0]])
    (simp_all add: ready_to_wait_def asleep_def new_pool_def)

definition task_waiting :: "nat pool" where
  "task_waiting = asleep\<lparr>queue := [7], cur_task_list_size := 1, added := [7],
                        cpcs := (cpcs asleep)(0 := C_Signal)\<rparr>"

lemma task_waiting_reach: "reach 1 task_waiting"
proof -
  have "reach 1 (asleep\<lparr>cpcs := (cpcs asleep)(0 := C_Lock 7)\<rparr>)"
    by (rule reach_step [OF asleep_reach c_call [of _ 0]]) (simp_all add: asleep_def new_pool_def)
  then have "reach 1 (asleep\<lparr>cpcs := (cpcs asleep)(0 := C_Add 7), lock := Some (Client 0)\<rparr>)"
    by (rule reach_step [OF _ c_lock [of _ 0]]) (simp_all add: asleep_def new_pool_def)
  then show ?thesis
    by (rule reach_step [OF _ c_add [of _ 0]]) (simp_all add: asleep_def new_pool_def task_waiting_def append_task_def)
qed

text \<open>A run of one worker and the destroyer, which sets \<open>shutdown\<close> after the worker has read it.\<close>

definition stuck :: "nat pool" where
  "stuck = asleep\<lparr>shutdown := True, dpc_of := D_Join 0\<rparr>"

lemma stuck_reach: "reach 1 stuck"
proof -
  have "reach 1 (ready_to_wait\<lparr>shutdown := True, dpc_of := D_Bcast\<rparr>)"
    by (rule reach_step [OF ready_to_wait_reach d_start]) (simp_all add: ready_to_wait_def new_pool_def)
  then have "reach 1 (ready_to_wait\<lparr>shutdown := True, dpc_of := D_Join 0\<rparr>)"
    by (rule reach_step [OF _ d_bcast])
      (simp_all add: ready_to_wait_def new_pool_def wake_all_def fun_eq_iff)
  then show ?thesis
    by (rule reach_step [OF _ w_wait [of 0]]) (simp_all add: ready_to_wait_def stuck_def asleep_def new_pool_def)
qed

lemma stuck_steps: "step stuck l s' \<Longrightarrow> l \<in> range L_Spurious \<union> range L_Call"
  by (erule step.cases) (auto simp: stuck_def asleep_def new_pool_def)

section \<open>Properties\<close>

text \<open>
  C4: In every interleaving of workers, callers and \<open>pool_destroy\<close>: at most one thread is in a
  critical section; \<open>cur_task_list_size\<close> is the length of the list until the pool is freed;
  no \<open>assert\<close> of \<open>thread_routine\<close> fails, although \<open>shutdown\<close> is written without the mutex;
  tasks are taken in the order they were added; and the tasks taken are, each exactly once,
  those finished and those being run. The pool is freed only after every worker has left.
\<close>

theorem pool_safe:
  assumes "reach n s"
  shows "crashed s = None
    \<and> (\<forall>v < n. \<forall>w < n. holds_w (wpcs s v) \<and> holds_w (wpcs s w) \<longrightarrow> v = w)
    \<and> (dpc_of s \<noteq> D_Freed \<longrightarrow> cur_task_list_size s = of_nat (length (queue s))
         \<and> added s = taken s @ queue s)
    \<and> prefix_of_added (taken s) (added s)
    \<and> mset (taken s) = mset (finished s) + (\<Sum>w < n. run_of (wpcs s w))
    \<and> (dpc_of s = D_Freed \<longrightarrow> (\<forall>w < n. wpcs s w = W_Exit))"
proof -
  note I = pool_invariants [OF assms]
  have "v = w" if "v < n" "w < n" "holds_w (wpcs s v)" "holds_w (wpcs s w)" for v w
    using one_holder(1) [of s w v] I that by auto
  moreover have "added s = taken s @ queue s" if "dpc_of s \<noteq> D_Freed"
    using I that by (simp add: inv_flow_def inv_cur_def)
  moreover have "prefix_of_added (taken s) (added s)" using I by (auto simp: prefix_of_added_def inv_flow_def)
  ultimately show ?thesis using I by (auto simp: inv_cur_def inv_flow_def inv_join_def)
qed

theorem pool_safe_witness:
  "crashed asleep = None \<and> cur_task_list_size asleep = of_nat (length (queue asleep))"
  using pool_safe [OF asleep_reach] by (simp add: asleep_def new_pool_def)

text \<open>
  C22: No added task is left behind: while the pool is not being shut down and fewer than
  \<open>2 ^ 31\<close> tasks were added, a non-empty list means that some worker is awake, or that the
  caller that will signal one has not done so yet.
\<close>

theorem pool_no_task_stranded:
  assumes "reach n s" "0 < n" "\<not> shutdown s" "queue s \<noteq> []" "length (added s) < 2 ^ 31"
  shows "(\<exists>w < n. wpcs s w \<noteq> W_Sleep \<and> wpcs s w \<noteq> W_Exit) \<or> (\<exists>c. cpcs s c = C_Signal)"
proof -
  note I = pool_invariants [OF assms(1)]
  have "wpcs s w \<noteq> W_Exit" if "w < n" for w
    using I assms(3) that by (metis inv_seen_def seen_ok.simps(5))
  moreover have "(\<exists>w < n. wpcs s w \<noteq> W_Sleep) \<or> (\<exists>c. cpcs s c = C_Signal)"
    using I assms(2-5) unfolding inv_wake_def by metis
  ultimately show ?thesis by blast
qed

theorem pool_no_task_stranded_witness:
  "queue task_waiting = [7] \<and> ((\<exists>w < 1. wpcs task_waiting w \<noteq> W_Sleep \<and> wpcs task_waiting w \<noteq> W_Exit)
     \<or> (\<exists>c. cpcs task_waiting c = C_Signal))"
  using pool_no_task_stranded [OF task_waiting_reach]
  by (simp add: task_waiting_def asleep_def new_pool_def)

text \<open>
  C35: \<open>pool_destroy\<close> may wait forever. It sets \<open>shutdown\<close> and broadcasts without the mutex; a
  worker that has read \<open>shutdown\<close> as 0 but does not wait yet misses the broadcast. The state
  where it then sleeps and \<open>pool_destroy\<close> waits for it in \<open>pthread_join\<close> is reachable, and
  neither can go on: the only steps left are spurious wake-ups and new calls of
  \<open>pool_add_task\<close>.
\<close>

theorem pool_destroy_can_hang:
  "\<exists>s :: nat pool. reach 1 s \<and> shutdown s \<and> dpc_of s = D_Join 0 \<and> wpcs s 0 = W_Sleep
     \<and> {l. \<exists>s'. step s l s'} \<subseteq> range L_Spurious \<union> range L_Call"
proof (intro exI conjI subsetI)
  show "reach 1 stuck" by (rule stuck_reach)
  show "shutdown stuck" "dpc_of stuck = D_Join 0" "wpcs stuck 0 = W_Sleep"
    by (simp_all add: stuck_def asleep_def new_pool_def)
  show "l \<in> range L_Spurious \<union> range L_Call" if "l \<in> {l. \<exists>s'. step stuck l s'}" for l
    using that stuck_steps by blast
qed

end
