(* ===== verification/List_Sort.thy ===== *)
theory List_Sort
  imports Kernel_List "HOL-Library.Multiset"
begin

text \<open>
  Sorting of intrusive lists: \<open>list_quick_sort\<close> of \<^verbatim>\<open>TCP_C/hash.c\<close> with its helpers and the macro
  \<open>sort_list_to_new_list\<close> of \<^verbatim>\<open>TCP_C/hash.h\<close>, which relinks the nodes of one list in order into
  another.

  Both work on the pointers of theory \<open>Kernel_List\<close>. A loop follows pointers until it meets one, and
  need not end on a heap that is not a list, so that the loops and the recursion are partial
  functions, of which the lemmas show that they return. A node is the address of its
  \<open>list_head\<close>; the members the comparisons read are functions of that address.

  Quick sort partitions the nodes between two pointers into those smaller than the first node and
  the others. It stops where the node before it is \<open>end\<close>; as \<open>end\<close> itself may be swapped to the
  front, this works for two kinds of ranges only: those that reach to the end of the list, and those
  whose last node is greater than every other. The ranges of the recursion are of these kinds if the
  first one is.
\<close>

section \<open>Definitions\<close>

text \<open>The members \<open>list_commen_compare\<close> reads, and the three kinds of list it knows.\<close>

record sort_mem =
  msg_time :: "addr \<Rightarrow> u64"
  act_time :: "addr \<Rightarrow> u64"
  group_gid :: "addr \<Rightarrow> s32"

definition LIST_QQ_WK_MSG_SORT :: s32 where "LIST_QQ_WK_MSG_SORT = 0"
definition LIST_DETAIL_WK_ACT_SORT :: s32 where "LIST_DETAIL_WK_ACT_SORT = 1"
definition LIST_GROUP_BASE_INFO_SORT :: s32 where "LIST_GROUP_BASE_INFO_SORT = 2"

definition list_commen_compare_fun :: "sort_mem \<Rightarrow> s32 \<Rightarrow> addr \<Rightarrow> addr \<Rightarrow> s32" where
  "list_commen_compare_fun m compare_type a b =
     (if compare_type = LIST_QQ_WK_MSG_SORT then ucast (msg_time m a - msg_time m b)
      else if compare_type = LIST_DETAIL_WK_ACT_SORT then ucast (act_time m a - act_time m b)
      else if compare_type = LIST_GROUP_BASE_INFO_SORT then group_gid m a - group_gid m b
      else 0)"

definition list_swap :: "addr \<Rightarrow> addr \<Rightarrow> list_heap \<Rightarrow> list_heap" where
  "list_swap a b h =
     (if a = b then h
      else let pos = (if b \<noteq> nxt h b then Some (nxt h b) else None) in
        if a = nxt h b then list_move_tail a b (list_del_init a h)
        else if a = prv h b then (let h = list_del_init a h in list_move_tail a (nxt h b) h)
        else
          let h = list_del_init b h;
              h = list_move_tail b (nxt h a) h;
              h = list_del_init a h
          in (case pos of Some p \<Rightarrow> list_move_tail a p h | None \<Rightarrow> h))"

partial_function (option) partition_loop ::
  "(addr \<Rightarrow> addr \<Rightarrow> s32) \<Rightarrow> addr \<Rightarrow> addr \<Rightarrow> addr \<Rightarrow> addr \<Rightarrow> addr \<Rightarrow> list_heap \<Rightarrow> (addr \<times> addr \<times> list_heap) option"
where
  "partition_loop cmp head begin end' p q h =
     (if prv h q \<noteq> end' \<and> q \<noteq> head then
        (if sint (cmp q begin) < 0 then
           (if nxt h p \<noteq> q then
              partition_loop cmp head begin end'
                (nxt (list_swap (nxt h p) q h) (prv h (nxt h p))) (nxt h q) (list_swap (nxt h p) q h)
            else partition_loop cmp head begin end' (nxt h p) (nxt h q) h)
         else partition_loop cmp head begin end' p (nxt h q) h)
      else Some (p, q, h))"

declare partition_loop.simps [code]

text \<open>The node returned, the new \<open>begin\<close> and \<open>end\<close>, and the heap.\<close>

definition list_get_partion ::
  "(addr \<Rightarrow> addr \<Rightarrow> s32) \<Rightarrow> addr \<Rightarrow> addr \<Rightarrow> addr \<Rightarrow> list_heap \<Rightarrow> (addr \<times> addr \<times> addr \<times> list_heap) option" where
  "list_get_partion cmp head begin end' h =
     map_option (\<lambda>(p, q, h).
         let h = (if p \<noteq> begin then list_swap p begin h else h)
         in (begin, p, prv h q, h))
       (partition_loop cmp head begin end' begin (nxt h begin) h)"

partial_function (option) list_quick_sort ::
  "(addr \<Rightarrow> addr \<Rightarrow> s32) \<Rightarrow> addr \<Rightarrow> addr \<Rightarrow> addr \<Rightarrow> list_heap \<Rightarrow> list_heap option" where
  "list_quick_sort cmp head begin end' h =
     (if begin \<noteq> end' then
        Option.bind (list_get_partion cmp head begin end' h) (\<lambda>(partion, begin, end', h).
        Option.bind (if begin \<noteq> partion then list_quick_sort cmp head begin partion h else Some h) (\<lambda>h.
          if nxt h partion \<noteq> end' \<and> nxt h partion \<noteq> head
          then list_quick_sort cmp head (nxt h partion) end' h
          else Some h))
      else Some h)"

declare list_quick_sort.simps [code]

text \<open>\<open>sort_list_to_new_list\<close>: the node of the new list to insert before, and the loop over the old list.\<close>

partial_function (option) insert_pos ::
  "(addr \<Rightarrow> 'k :: linorder) \<Rightarrow> addr \<Rightarrow> addr \<Rightarrow> addr \<Rightarrow> list_heap \<Rightarrow> addr option" where
  "insert_pos key src new_list sort_pos h =
     (if sort_pos \<noteq> new_list then
        (if key src \<le> key sort_pos then Some sort_pos
         else insert_pos key src new_list (nxt h sort_pos) h)
      else Some new_list)"

partial_function (option) sort_loop ::
  "(addr \<Rightarrow> 'k :: linorder) \<Rightarrow> addr \<Rightarrow> addr \<Rightarrow> addr \<Rightarrow> addr \<Rightarrow> list_heap \<Rightarrow> list_heap option" where
  "sort_loop key src_list new_list pos temp_pos h =
     (if pos \<noteq> src_list then
        Option.bind (insert_pos key pos new_list (nxt h new_list) h) (\<lambda>at.
          let h = list_move_tail pos at h
          in sort_loop key src_list new_list temp_pos (nxt h temp_pos) h)
      else Some h)"

declare insert_pos.simps [code] sort_loop.simps [code]

definition sort_list_to_new_list ::
  "(addr \<Rightarrow> 'k :: linorder) \<Rightarrow> addr \<Rightarrow> addr \<Rightarrow> list_heap \<Rightarrow> list_heap option" where
  "sort_list_to_new_list key src_list new_list h =
     sort_loop key src_list new_list (nxt h src_list) (nxt h (nxt h src_list)) h"

section \<open>Swapping two nodes\<close>

lemma dlist_rotate: "dlist h head (xs @ y # ys) \<Longrightarrow> dlist h y (ys @ head # xs)"
  by (auto simp: dlist_def lseg_append)

lemma dlist_nxt: "dlist h head (xs @ y # ys) \<Longrightarrow> nxt h y = hd (ys @ [head])"
  by (cases ys) (auto simp: dlist_def lseg_append)

lemma dlist_prv: "dlist h head (xs @ y # ys) \<Longrightarrow> prv h y = last (head # xs)"
  using lseg_prv [of h head xs y] by (auto simp: dlist_def lseg_append)

lemma dlist_nxt_head: "dlist h head xs \<Longrightarrow> nxt h head = hd (xs @ [head])"
  by (cases xs) (auto simp: dlist_def)

lemma dlist_prv_head: "dlist h head xs \<Longrightarrow> prv h head = last (head # xs)"
  using lseg_prv [of h head xs head] by (auto simp: dlist_def)

lemma dlist_nxt_last: "dlist h head (us @ xs @ rs) \<Longrightarrow> xs \<noteq> [] \<Longrightarrow> nxt h (last xs) = hd (rs @ [head])"
  using dlist_nxt [of h head "us @ butlast xs" "last xs" rs] by (cases xs rule: rev_cases) simp_all

lemma dlist_prv_hd: "dlist h head (us @ xs @ vs) \<Longrightarrow> xs \<noteq> [] \<Longrightarrow> prv h (hd (vs @ [head])) = last xs"
  using dlist_prv [of h head "us @ xs" "hd vs" "tl vs"] dlist_prv_head [of h head "us @ xs"] by (cases vs) simp_all

text \<open>Inserting a node that is linked to itself in front of a node of a list, or of its head.\<close>

lemma self_linked: "dlist h y [] \<Longrightarrow> list_del_raw (prv h y) (nxt h y) h = h"
  by (simp add: dlist_def list_del_raw_def set_next_def set_prev_def fun_upd_idem)

lemma move_single:
  assumes "dlist h y []" "dlist h x zs" "y \<notin> set (x # zs)"
  shows "dlist (list_move_tail y x h) x (zs @ [y])"
  using list_add_tail_dlist [OF assms(2,3)] by (simp add: list_move_tail_def self_linked [OF assms(1)])

lemma move_before:
  assumes "dlist h y []" "dlist h head (xs @ x # zs)" "y \<notin> set (head # xs @ x # zs)"
  shows "dlist (list_move_tail y x h) head (xs @ y # x # zs)"
proof -
  have "dlist (list_move_tail y x h) x ((zs @ head # xs) @ [y])"
    using assms(3) by (intro move_single assms(1) dlist_rotate [OF assms(2)]) auto
  then show ?thesis using dlist_rotate [of _ x zs head "xs @ [y]"] by simp
qed

text \<open>Moving a node of a list in front of another, given by its position.\<close>

lemma move_to:
  assumes "dlist h head (xs @ y # zs)" "xs @ zs = us @ vs" "x = hd (vs @ [head])"
  shows "dlist (list_move_tail y x (list_del_init y h)) head (us @ y # vs)"
proof -
  have d: "dlist (list_del_init y h) head (us @ vs)" and s: "dlist (list_del_init y h) y []"
    using list_del_init_dlist [OF assms(1)] assms(2) by simp_all
  have f: "y \<notin> set (head # us @ vs)" using dlist_fresh [OF assms(1)] assms(2) by simp
  show ?thesis
  proof (cases vs)
    case Nil
    with assms(3) have "x = head" by simp
    with move_single [OF s d f] Nil show ?thesis by simp
  next
    case (Cons v vs')
    with assms(3) d f move_before [OF s, of head us v vs'] show ?thesis by simp
  qed
qed

lemma swap_forward:
  assumes "dlist h head (xs @ a # ys @ b # zs)"
  shows "dlist (list_swap a b h) head (xs @ b # ys @ a # zs)"
proof -
  have ne: "a \<noteq> b" "nxt h b = hd (zs @ [head])" "prv h b = last (a # ys)" "nxt h a = hd (ys @ [b])"
    using assms dlist_nxt [of h head "xs @ a # ys" b zs] dlist_prv [of h head "xs @ a # ys" b zs]
      dlist_nxt [of h head xs a "ys @ b # zs"] by (auto simp: dlist_def hd_append)
  have n: "a \<noteq> nxt h b" "b \<noteq> nxt h b" using assms ne(2) by (cases zs; auto simp: dlist_def)+
  show ?thesis
  proof (cases ys)
    case Nil
    define h1 where "h1 = list_del_init a h"
    have "dlist h1 head (xs @ b # zs)" unfolding h1_def using list_del_init_dlist(1) [of h head xs a "b # zs"] assms Nil by simp
    from dlist_nxt [OF this] move_to [of h head xs a "b # zs" "xs @ [b]" zs "nxt h1 b"] assms Nil ne n
    show ?thesis by (simp add: list_swap_def Let_def h1_def)
  next
    case (Cons y ys')
    then have p: "a \<noteq> prv h b" using assms ne(3) by (auto simp: dlist_def)
    define h1 where "h1 = list_del_init b h"
    have d1: "dlist h1 head (xs @ a # ys @ zs)"
      unfolding h1_def using list_del_init_dlist(1) [of h head "xs @ a # ys" b zs] assms by simp
    have "nxt h1 a = hd ((ys @ zs) @ [head])" using dlist_nxt [OF d1] by simp
    with move_to [of h head "xs @ a # ys" b zs "xs @ [a]" "ys @ zs"] assms
    have d2: "dlist (list_move_tail b (nxt h1 a) h1) head (xs @ a # b # ys @ zs)" by (simp add: h1_def)
    from move_to [OF d2, of "xs @ b # ys" zs "nxt h b"] ne n p show ?thesis
      by (simp add: list_swap_def Let_def h1_def)
  qed
qed

lemma swap_backward:
  assumes "dlist h head (xs @ a # ys @ b # zs)"
  shows "dlist (list_swap b a h) head (xs @ b # ys @ a # zs)"
proof -
  have ne: "a \<noteq> b" "nxt h a = hd (ys @ [b])" "prv h a = last (head # xs)" "nxt h b = hd (zs @ [head])"
    using assms dlist_nxt [of h head "xs @ a # ys" b zs] dlist_prv [of h head xs a "ys @ b # zs"]
      dlist_nxt [of h head xs a "ys @ b # zs"] by (auto simp: dlist_def hd_append)
  have n: "a \<noteq> nxt h a" "b \<noteq> prv h a" using assms ne by (cases ys; auto simp: dlist_def)+
  show ?thesis
  proof (cases ys)
    case Nil
    with move_to [of h head "xs @ [a]" b zs xs "a # zs" a] assms ne show ?thesis
      by (simp add: list_swap_def Let_def)
  next
    case (Cons y ys')
    then have p: "b \<noteq> nxt h a" using assms ne(2) by (auto simp: dlist_def)
    define h1 where "h1 = list_del_init a h"
    have d1: "dlist h1 head ((xs @ ys) @ b # zs)"
      unfolding h1_def using list_del_init_dlist(1) [of h head xs a "ys @ b # zs"] assms by simp
    have "nxt h1 b = hd (zs @ [head])" using dlist_nxt [OF d1] by simp
    with move_to [of h head xs a "ys @ b # zs" "xs @ ys @ [b]" zs] assms
    have d2: "dlist (list_move_tail a (nxt h1 b) h1) head ((xs @ ys) @ b # a # zs)" by (simp add: h1_def)
    from move_to [OF d2, of xs "ys @ a # zs" "nxt h a"] ne n p Cons show ?thesis
      by (simp add: list_swap_def Let_def h1_def)
  qed
qed

section \<open>Partition and quick sort\<close>

text \<open>
  What the sort relies on of the comparison: on nodes that are near each other its sign is that of the
  order of some key. Differences of keys that are stored in 32 bits have the right sign only if the
  keys are not too far apart, which is why there is a condition.
\<close>

locale compare_fun =
  fixes cmp :: "addr \<Rightarrow> addr \<Rightarrow> s32" and key :: "addr \<Rightarrow> int" and near :: "addr \<Rightarrow> addr \<Rightarrow> bool"
  assumes cmp_sign: "near a b \<Longrightarrow> sint (cmp a b) < 0 \<longleftrightarrow> key a < key b"
begin

definition all_near :: "addr list \<Rightarrow> bool" where
  "all_near xs \<longleftrightarrow> (\<forall>x \<in> set xs. \<forall>y \<in> set xs. near x y)"

text \<open>The nodes between \<open>b\<close> and \<open>vs\<close>: smaller ones, others, and those still to be looked at.\<close>

lemma partition_step:
  assumes d: "dlist h head (us @ b # ls @ gs @ q # rs)"
    and near: "near q b" and ls: "\<forall>x \<in> set ls. key x < key b" and gs: "\<forall>x \<in> set gs. key b \<le> key x"
    and e: "e \<in> set (q # rs)"
  obtains ls' h' gs' where
    "partition_loop cmp head b e (last (b # ls)) q h = partition_loop cmp head b e (last (b # ls')) (hd (rs @ [head])) h'"
    "dlist h' head (us @ b # ls' @ gs' @ rs)" "mset (ls' @ gs') = mset (ls @ gs @ [q])"
    "\<forall>x \<in> set ls'. key x < key b" "\<forall>x \<in> set gs'. key b \<le> key x"
    "key b \<le> key q \<longrightarrow> gs' \<noteq> [] \<and> last gs' = q"
proof -
  have pq: "prv h q = last (b # ls @ gs)" "nxt h q = hd (rs @ [head])" "q \<noteq> head"
    using dlist_prv [of h head "us @ b # ls @ gs" q rs] dlist_nxt [of h head "us @ b # ls @ gs" q rs] d
    by (auto simp: dlist_def)
  have "last (b # ls @ gs) \<in> set (b # ls @ gs)" by (rule last_in_set) simp
  then have go: "prv h q \<noteq> e" unfolding pq(1) using d e by (auto simp: dlist_def)
  have sg: "sint (cmp q b) < 0 \<longleftrightarrow> key q < key b" by (rule cmp_sign [OF near])
  have np: "nxt h (last (b # ls)) = hd (gs @ [q])"
    using dlist_nxt_last [of h head us "b # ls" "gs @ q # rs"] d by (cases gs) simp_all
  consider (other) "\<not> key q < key b" | (adjacent) "key q < key b" "gs = []"
    | (apart) g gs' where "key q < key b" "gs = g # gs'" by (cases gs) auto
  then show thesis
  proof cases
    case other
    show thesis
      by (rule that [of ls h "gs @ [q]"]) (use other d ls gs in \<open>auto simp: partition_loop.simps [of _ _ _ _ _ q] go pq(2,3) sg\<close>)
  next
    case adjacent
    show thesis
      by (rule that [of "ls @ [q]" h "[]"])
        (use adjacent d ls np in \<open>auto simp: partition_loop.simps [of _ _ _ _ _ q] go pq(2,3) sg\<close>)
  next
    case apart
    have ng: "nxt h (last (b # ls)) = g" using np apart(2) by simp
    have pg: "prv h g = last (b # ls)" using dlist_prv [of h head "us @ b # ls" g "gs' @ q # rs"] d apart(2) by simp
    have "g \<noteq> q" using d apart(2) by (auto simp: dlist_def)
    have lq: "last (b # ls @ [q]) = q" by simp
    define h1 where "h1 = list_swap g q h"
    have d1: "dlist h1 head (us @ b # (ls @ [q]) @ (gs' @ [g]) @ rs)"
      unfolding h1_def using swap_forward [of h head "us @ b # ls" g gs' q rs] d apart(2) by simp
    have n1: "nxt h1 (prv h g) = q"
      unfolding pg using dlist_nxt_last [of h1 head us "b # ls" "q # gs' @ g # rs"] d1 by simp
    show thesis
      by (rule that [of "ls @ [q]" h1 "gs' @ [g]"])
        (use apart d1 ls gs in \<open>auto simp: partition_loop.simps [of _ _ _ _ _ q] go pq(2,3) sg ng n1 lq \<open>g \<noteq> q\<close>
           simp flip: h1_def simp del: last.simps\<close>)
  qed
qed

lemma partition_loop_ok:
  assumes "dlist h head (us @ b # ls @ gs @ qs @ vs)"
    and "\<forall>x \<in> set qs. near x b" "\<forall>x \<in> set ls. key x < key b" "\<forall>x \<in> set gs. key b \<le> key x"
    and "qs \<noteq> [] \<Longrightarrow> e = last qs"
    and "vs \<noteq> [] \<Longrightarrow> if qs = [] then gs \<noteq> [] \<and> e = last gs else key b \<le> key e"
  shows "\<exists>ls' gs' h'. partition_loop cmp head b e (last (b # ls)) (hd (qs @ vs @ [head])) h
             = Some (last (b # ls'), hd (vs @ [head]), h')
      \<and> dlist h' head (us @ b # ls' @ gs' @ vs) \<and> mset (ls' @ gs') = mset (ls @ gs @ qs)
      \<and> (\<forall>x \<in> set ls'. key x < key b) \<and> (\<forall>x \<in> set gs'. key b \<le> key x)
      \<and> (vs \<noteq> [] \<longrightarrow> gs' \<noteq> [] \<and> last gs' = e)"
  using assms
proof (induction qs arbitrary: ls gs h)
  case Nil
  have "prv h (hd (vs @ [head])) = e \<or> vs = []"
    using dlist_prv_hd [of h head us "b # ls @ gs" vs] Nil.prems(1,6) by auto
  then have "partition_loop cmp head b e (last (b # ls)) (hd (vs @ [head])) h = Some (last (b # ls), hd (vs @ [head]), h)"
    by (subst partition_loop.simps) auto
  with Nil.prems show ?case by (intro exI [of _ ls] exI [of _ gs] exI [of _ h]) auto
next
  case (Cons q qs)
  have e: "e = last (q # qs)" "e \<in> set (q # qs @ vs)"
    using Cons.prems(5) last_in_set [of "q # qs"] by (auto split: if_splits)
  have d: "dlist h head (us @ b # ls @ gs @ q # (qs @ vs))" and nb: "near q b" using Cons.prems(1,2) by simp_all
  obtain ls1 gs1 h1 where
    s: "partition_loop cmp head b e (last (b # ls)) q h = partition_loop cmp head b e (last (b # ls1)) (hd ((qs @ vs) @ [head])) h1"
      "dlist h1 head (us @ b # ls1 @ gs1 @ qs @ vs)" "mset (ls1 @ gs1) = mset (ls @ gs @ [q])"
      "\<forall>x \<in> set ls1. key x < key b" "\<forall>x \<in> set gs1. key b \<le> key x" "key b \<le> key q \<longrightarrow> gs1 \<noteq> [] \<and> last gs1 = q"
    by (rule partition_step [OF d nb Cons.prems(3,4) e(2)])
  have v: "if qs = [] then gs1 \<noteq> [] \<and> e = last gs1 else key b \<le> key e" if "vs \<noteq> []"
    using Cons.prems(6) [OF that] e(1) s(6) by auto
  from Cons.IH [OF s(2) _ s(4,5) _ v] Cons.prems(2) e(1) obtain ls' gs' h' where
    "partition_loop cmp head b e (last (b # ls1)) (hd (qs @ vs @ [head])) h1 = Some (last (b # ls'), hd (vs @ [head]), h')"
    "dlist h' head (us @ b # ls' @ gs' @ vs)" "mset (ls' @ gs') = mset (ls1 @ gs1 @ qs)"
    "\<forall>x \<in> set ls'. key x < key b" "\<forall>x \<in> set gs'. key b \<le> key x" "vs \<noteq> [] \<longrightarrow> gs' \<noteq> [] \<and> last gs' = e"
    by auto
  with s(1,3) show ?case by (intro exI [of _ ls'] exI [of _ gs'] exI [of _ h']) simp
qed

text \<open>One partition, with the ranges it leaves to sort.\<close>

lemma partion_ok:
  assumes d: "dlist h head (us @ xs @ vs)" and ne: "b \<noteq> e" "b = hd xs" "e = last xs" "xs \<noteq> []"
    and near: "all_near xs" and top: "vs \<noteq> [] \<Longrightarrow> \<forall>x \<in> set (butlast xs). key x < key e"
  obtains ls gs h' where
    "list_get_partion cmp head b e h = Some (b, hd (ls @ [b]), last (b # gs), h')"
    "dlist h' head (us @ ls @ b # gs @ vs)" "mset (ls @ b # gs) = mset xs"
    "\<forall>x \<in> set ls. key x < key b" "\<forall>x \<in> set gs. key b \<le> key x" "vs \<noteq> [] \<longrightarrow> gs \<noteq> [] \<and> last gs = e"
proof -
  define qs where "qs = tl xs"
  have xs: "xs = b # qs" "qs \<noteq> []" using ne by (cases xs; auto simp: qs_def)+
  have n: "nxt h b = hd (qs @ vs @ [head])" using dlist_nxt [of h head us b "qs @ vs"] d xs by simp
  have "\<exists>ls gs h'. partition_loop cmp head b e (last [b]) (hd (qs @ vs @ [head])) h
             = Some (last (b # ls), hd (vs @ [head]), h')
      \<and> dlist h' head (us @ b # ls @ gs @ vs) \<and> mset (ls @ gs) = mset ([] @ [] @ qs)
      \<and> (\<forall>x \<in> set ls. key x < key b) \<and> (\<forall>x \<in> set gs. key b \<le> key x)
      \<and> (vs \<noteq> [] \<longrightarrow> gs \<noteq> [] \<and> last gs = e)"
  proof (rule partition_loop_ok)
    show "dlist h head (us @ b # [] @ [] @ qs @ vs)" using d xs by simp
    show "\<forall>x \<in> set qs. near x b" using near xs by (simp add: all_near_def)
    show "e = last qs" using ne(3) xs by simp
    show "if qs = [] then [] \<noteq> [] \<and> e = last [] else key b \<le> key e" if "vs \<noteq> []"
      using top [OF that] xs by (simp add: less_imp_le)
  qed simp_all
  then obtain ls gs h1 where
    l: "partition_loop cmp head b e b (nxt h b) h = Some (last (b # ls), hd (vs @ [head]), h1)"
      "dlist h1 head (us @ b # ls @ gs @ vs)" "mset (ls @ gs) = mset qs"
      "\<forall>x \<in> set ls. key x < key b" "\<forall>x \<in> set gs. key b \<le> key x" "vs \<noteq> [] \<longrightarrow> gs \<noteq> [] \<and> last gs = e"
    by (simp only: n last.simps simp_thms if_True append_Nil) blast
  show thesis
  proof (cases ls rule: rev_cases)
    case Nil
    have "prv h1 (hd (vs @ [head])) = last (b # gs)" using l(2) Nil dlist_prv_hd [of h1 head us "b # gs" vs] by simp
    with l Nil xs show thesis by (intro that [of "[]" gs h1]) (auto simp: list_get_partion_def)
  next
    case (snoc ls' p)
    define h2 where "h2 = list_swap p b h1"
    have d2: "dlist h2 head (us @ p # ls' @ b # gs @ vs)"
      unfolding h2_def using swap_backward [of h1 head us b ls' p "gs @ vs"] l(2) snoc by simp
    have "p \<noteq> b" using l(2) snoc by (auto simp: dlist_def)
    moreover have "prv h2 (hd (vs @ [head])) = last (b # gs)"
      using d2 dlist_prv_hd [of h2 head "us @ p # ls'" "b # gs" vs] by simp
    ultimately show thesis using l snoc xs d2
      by (intro that [of "p # ls'" gs h2]) (auto simp: list_get_partion_def h2_def)
  qed
qed

lemma sorted_max_last:
  assumes "sorted (map key ys)" "mset ys = mset (ls @ [b])" "\<forall>x \<in> set ls. key x < key b"
  obtains ls' where "ys = ls' @ [b]" "mset ls' = mset ls"
proof -
  have st: "set ys = insert b (set ls)" using mset_eq_setD [OF assms(2)] by simp
  then obtain ys' y where ys: "ys = ys' @ [y]" by (cases ys rule: rev_cases) auto
  have "key b \<le> key y" using assms(1) st ys by (auto simp: sorted_append)
  moreover have "y \<in> insert b (set ls)" using st ys by auto
  ultimately have "y = b" using assms(3) by auto
  with ys assms(2) show thesis by (intro that [of ys']) simp_all
qed

text \<open>
  A range whose last node is greater than all others is split into two shorter ones; any other range
  may leave one of the same length, but then of that kind.
\<close>

definition last_greatest :: "addr list \<Rightarrow> bool" where
  "last_greatest xs \<longleftrightarrow> (\<forall>x \<in> set (butlast xs). key x < key (last xs))"

definition sorts :: "addr \<Rightarrow> addr list \<Rightarrow> addr list \<Rightarrow> addr list \<Rightarrow> list_heap \<Rightarrow> bool" where
  "sorts head us xs vs h \<longleftrightarrow>
     (\<exists>ys. dlist h head (us @ ys @ vs) \<and> mset ys = mset xs \<and> sorted (map key ys))"

lemma sorts_left:
  assumes "sorts head us (ls @ [b]) (gs @ vs) h" and "\<forall>x \<in> set ls. key x < key b"
  obtains ls' where "dlist h head ((us @ ls' @ [b]) @ gs @ vs)" "mset ls' = mset ls" "sorted (map key ls')"
proof -
  from assms(1) obtain ys where ys: "dlist h head (us @ ys @ gs @ vs)" "mset ys = mset (ls @ [b])" "sorted (map key ys)"
    by (auto simp: sorts_def)
  obtain ls' where l: "ys = ls' @ [b]" "mset ls' = mset ls" by (rule sorted_max_last [OF ys(3,2) assms(2)])
  with ys show thesis by (intro that [of ls']) (simp_all add: sorted_append)
qed

lemma sorts_join:
  assumes "sorts head (us @ ls' @ [b]) gs vs h" "mset ls' = mset ls" "sorted (map key ls')"
    and ls: "\<forall>x \<in> set ls. key x < key b" and gs: "\<forall>x \<in> set gs. key b \<le> key x"
  shows "sorts head us (ls @ b # gs) vs h"
proof -
  from assms(1) obtain zs where
    z: "dlist h head ((us @ ls' @ [b]) @ zs @ vs)" "mset zs = mset gs" "sorted (map key zs)"
    by (auto simp: sorts_def)
  have "set zs = set gs" "set ls' = set ls" using z(2) assms(2) by (auto dest: mset_eq_setD)
  then have "sorted (map key (ls' @ b # zs))"
    using assms(3) z(3) ls gs by (fastforce simp: sorted_append)
  with z assms(2) show ?thesis unfolding sorts_def by (intro exI [of _ "ls' @ b # zs"]) simp
qed

text \<open>The two recursive calls, when they are made and when they are not.\<close>

lemma sort_left:
  assumes d: "dlist h head (us @ ls @ b # gs @ vs)"
    and rec: "ls \<noteq> [] \<Longrightarrow> \<exists>h'. list_quick_sort cmp head (hd (ls @ [b])) (last (ls @ [b])) h = Some h'
                 \<and> sorts head us (ls @ [b]) (gs @ vs) h'"
  shows "\<exists>h'. (if hd (ls @ [b]) \<noteq> b then list_quick_sort cmp head (hd (ls @ [b])) b h else Some h) = Some h'
            \<and> sorts head us (ls @ [b]) (gs @ vs) h'"
proof (cases ls)
  case Nil
  with d show ?thesis by (auto simp: sorts_def)
next
  case (Cons l ls')
  then have "l \<noteq> b" using d by (auto simp: dlist_def)
  with rec Cons show ?thesis by simp
qed

lemma sort_right:
  assumes d: "dlist h head (us @ b # gs @ vs)" and vs: "vs \<noteq> [] \<longrightarrow> gs \<noteq> []"
    and rec: "gs \<noteq> [] \<Longrightarrow> \<exists>h'. list_quick_sort cmp head (hd gs) (last gs) h = Some h' \<and> sorts head (us @ [b]) gs vs h'"
  shows "\<exists>h'. (if nxt h b \<noteq> last (b # gs) \<and> nxt h b \<noteq> head
              then list_quick_sort cmp head (nxt h b) (last (b # gs)) h else Some h) = Some h'
            \<and> sorts head (us @ [b]) gs vs h'"
proof -
  have n: "nxt h b = hd (gs @ vs @ [head])" using dlist_nxt [of h head us b "gs @ vs"] d by simp
  consider "gs = []" "vs = []" | g where "gs = [g]" | g g' gs' where "gs = g # g' # gs'"
    using vs by (cases gs; cases "tl gs") auto
  then show ?thesis
  proof cases
    case 1
    with d n show ?thesis by (auto simp: sorts_def)
  next
    case (2 g)
    with d n show ?thesis by (auto simp: sorts_def intro!: exI [of _ "[g]"])
  next
    case (3 g g' gs')
    then have "g \<noteq> last (g' # gs')" "g \<noteq> head" using d by (auto simp: dlist_def)
    with rec 3 n show ?thesis by simp
  qed
qed

lemma partion_sizes:
  assumes "mset (ls @ b # gs) = mset xs" "xs \<noteq> []" "hd xs = b" "last xs \<noteq> b" "\<forall>x \<in> set ls. key x < key b"
  shows "set xs = set (ls @ b # gs)" and "length xs = length ls + Suc (length gs)"
    and "last_greatest xs \<Longrightarrow> gs \<noteq> []"
proof -
  show st: "set xs = set (ls @ b # gs)" and "length xs = length ls + Suc (length gs)"
    using mset_eq_setD [OF assms(1)] mset_eq_length [OF assms(1)] by simp_all
  have "b \<in> set (butlast xs)" "last xs \<in> set xs" using assms(2-4) by (cases xs; auto)+
  then show "gs \<noteq> []" if "last_greatest xs" using that assms(4,5) st by (force simp: last_greatest_def)
qed

lemma last_greatest_part:
  assumes "last_greatest xs" "set gs \<subseteq> set xs" "distinct gs" "gs \<noteq> []" "last gs = last xs"
  shows "last_greatest gs"
proof -
  have "x \<in> set (butlast xs)" if "x \<in> set (butlast gs)" for x
  proof -
    have "x \<noteq> last gs" using that assms(3,4) by (metis append_butlast_last_id distinct_append disjoint_iff list.set_intros(1))
    moreover have "x \<in> set xs" using that assms(2) by (auto dest: in_set_butlastD)
    ultimately show ?thesis using assms(5) by (metis in_set_butlast_appendI append_butlast_last_id append_Nil2 list.distinct(1)
        list.set_cases rotate1.simps(2) set_ConsD set_rotate1 empty_iff empty_set)
  qed
  with assms(1,5) show ?thesis by (simp add: last_greatest_def)
qed

lemma quick_sort_ok:
  assumes "dlist h head (us @ xs @ vs)" "xs \<noteq> []" "all_near xs" "vs \<noteq> [] \<Longrightarrow> last_greatest xs"
  shows "\<exists>h'. list_quick_sort cmp head (hd xs) (last xs) h = Some h' \<and> sorts head us xs vs h'"
  using assms
proof (induction "2 * length xs + (if last_greatest xs then 0 else 1)" arbitrary: h us xs vs rule: less_induct)
  case less
  define b e where "b = hd xs" and "e = last xs"
  note d = less.prems(1)
  show ?case
  proof (cases "b = e")
    case True
    then have "tl xs = []" using d less.prems(2) by (cases xs) (auto simp: dlist_def b_def e_def split: if_splits)
    then have "sorted (map key xs)" using less.prems(2) by (cases xs) auto
    with d True show ?thesis by (subst list_quick_sort.simps) (auto simp: sorts_def b_def e_def)
  next
    case False
    have top: "\<forall>x \<in> set (butlast xs). key x < key e" if "vs \<noteq> []"
      using less.prems(4) [OF that] by (simp add: last_greatest_def e_def)
    obtain ls gs h1 where p: "list_get_partion cmp head b e h = Some (b, hd (ls @ [b]), last (b # gs), h1)"
      "dlist h1 head (us @ ls @ b # gs @ vs)" "mset (ls @ b # gs) = mset xs"
      "\<forall>x \<in> set ls. key x < key b" "\<forall>x \<in> set gs. key b \<le> key x" "vs \<noteq> [] \<longrightarrow> gs \<noteq> [] \<and> last gs = e"
      by (rule partion_ok [OF d False b_def e_def less.prems(2,3) top])
    note sz = partion_sizes [OF p(3) less.prems(2) b_def [symmetric] _ p(4)]
    have sz: "set xs = set (ls @ b # gs)" "length xs = length ls + Suc (length gs)" "last_greatest xs \<Longrightarrow> gs \<noteq> []"
      using sz False e_def by auto
    have near: "all_near (ls @ [b])" "all_near gs" using less.prems(3) sz(1) by (auto simp: all_near_def)
    have lg: "last_greatest (ls @ [b])" using p(4) by (simp add: last_greatest_def)
    have m: "2 * length (ls @ [b]) + (if last_greatest (ls @ [b]) then 0 else 1)
        < 2 * length xs + (if last_greatest xs then 0 else (1 :: nat))"
      using lg sz by (cases "last_greatest xs") simp_all
    have "\<exists>h'. list_quick_sort cmp head (hd (ls @ [b])) (last (ls @ [b])) h1 = Some h' \<and> sorts head us (ls @ [b]) (gs @ vs) h'"
      by (rule less.hyps [OF m]) (use p(2) near lg in simp_all)
    from sort_left [OF p(2) this]
    obtain h2 where l: "(if hd (ls @ [b]) \<noteq> b then list_quick_sort cmp head (hd (ls @ [b])) b h1 else Some h1) = Some h2"
      "sorts head us (ls @ [b]) (gs @ vs) h2"
      by blast
    obtain ls' where l': "dlist h2 head ((us @ ls' @ [b]) @ gs @ vs)" "mset ls' = mset ls" "sorted (map key ls')"
      by (rule sorts_left [OF l(2) p(4)])
    have "distinct gs" using l'(1) by (simp add: dlist_def)
    have lr: "last_greatest gs" if "vs \<noteq> []"
      by (rule last_greatest_part [OF less.prems(4) [OF that] _ \<open>distinct gs\<close>]) (use sz(1) p(6) that e_def in auto)
    have "\<exists>h'. list_quick_sort cmp head (hd gs) (last gs) h2 = Some h' \<and> sorts head ((us @ ls') @ [b]) gs vs h'" if "gs \<noteq> []"
      by (rule less.hyps) (use l'(1) near lr sz(2) that in simp_all)
    from sort_right [of h2 head "us @ ls'" b gs vs, OF _ _ this] l'(1) p(6)
    obtain h3 where r: "(if nxt h2 b \<noteq> last (b # gs) \<and> nxt h2 b \<noteq> head
        then list_quick_sort cmp head (nxt h2 b) (last (b # gs)) h2 else Some h2) = Some h3"
      "sorts head ((us @ ls') @ [b]) gs vs h3"
      by auto
    have "sorts head us (ls @ b # gs) vs h3" using sorts_join [OF _ l'(2,3) p(4,5)] r(2) by simp
    then have "sorts head us xs vs h3" using p(3) by (simp add: sorts_def)
    moreover have "list_quick_sort cmp head b e h = Some h3"
      by (subst list_quick_sort.simps) (simp add: False p(1) l(1) r(1) del: last.simps)
    ultimately show ?thesis by (auto simp: b_def e_def)
  qed
qed

end


text \<open>The comparison of the program, on times (of messages and records) and on group ids.\<close>

lemma time_difference:
  fixes a b :: u64
  assumes "\<bar>uint a - uint b\<bar> < 2 ^ 31"
  shows "sint (ucast (a - b) :: s32) = uint a - uint b"
proof -
  have "(ucast (a - b) :: s32) = word_of_int (uint (a - b))" by (rule ucast_eq)
  also have "\<dots> = word_of_int (take_bit 64 (uint a - uint b))" by (simp add: uint_word_ariths take_bit_eq_mod)
  also have "\<dots> = word_of_int (uint a - uint b)" by (subst word_of_int_eq_iff) (simp add: take_bit_take_bit)
  finally have e: "(ucast (a - b) :: s32) = word_of_int (uint a - uint b)" .
  show ?thesis unfolding e by (rule sint_s32_of_int) (use assms in arith)+
qed

lemma gid_difference:
  fixes a b :: s32
  assumes "\<bar>sint a - sint b\<bar> < 2 ^ 31"
  shows "sint (a - b) = sint a - sint b"
proof -
  have e: "a - b = word_of_int (sint a - sint b)" unfolding wi_hom_sub [symmetric] by simp
  show ?thesis unfolding e by (rule sint_s32_of_int) (use assms in arith)+
qed
definition sort_key :: "sort_mem \<Rightarrow> s32 \<Rightarrow> addr \<Rightarrow> int" where
  "sort_key m t a =
     (if t = LIST_QQ_WK_MSG_SORT then uint (msg_time m a)
      else if t = LIST_DETAIL_WK_ACT_SORT then uint (act_time m a)
      else if t = LIST_GROUP_BASE_INFO_SORT then sint (group_gid m a)
      else 0)"

interpretation cc: compare_fun "list_commen_compare_fun m t" "sort_key m t"
    "\<lambda>a b. \<bar>sort_key m t a - sort_key m t b\<bar> < 2 ^ 31" for m t
proof
  fix a b
  assume n: "\<bar>sort_key m t a - sort_key m t b\<bar> < 2 ^ 31"
  have "sint (list_commen_compare_fun m t a b) = sort_key m t a - sort_key m t b"
    using n time_difference [of "msg_time m a" "msg_time m b"] time_difference [of "act_time m a" "act_time m b"]
      gid_difference [of "group_gid m a" "group_gid m b"]
    unfolding list_commen_compare_fun_def sort_key_def by (simp split: if_splits)
  then show "sint (list_commen_compare_fun m t a b) < 0 \<longleftrightarrow> sort_key m t a < sort_key m t b" by simp
qed

section \<open>Relinking a list in order\<close>

lemma insert_pos_ok:
  "dlist h new_list (us @ vs) \<Longrightarrow>
     insert_pos key src new_list (hd (vs @ [new_list])) h = Some (hd (dropWhile (\<lambda>y. \<not> key src \<le> key y) vs @ [new_list]))"
proof (induction vs arbitrary: us)
  case Nil
  then show ?case by (subst insert_pos.simps) simp
next
  case (Cons v vs)
  have "v \<noteq> new_list" "nxt h v = hd (vs @ [new_list])"
    using Cons.prems dlist_nxt [of h new_list us v vs] by (auto simp: dlist_def)
  with Cons.IH [of "us @ [v]"] Cons.prems show ?case by (subst insert_pos.simps) simp
qed

lemma insort_split:
  "insort_key key x ys = takeWhile (\<lambda>y. \<not> key x \<le> key y) ys @ x # dropWhile (\<lambda>y. \<not> key x \<le> key y) ys"
  by (induction ys) auto

lemma move_across:
  assumes "dlist h a (xs @ y # zs)" "dlist h b (us @ vs)" "set (a # xs @ y # zs) \<inter> set (b # us @ vs) = {}"
    and "x = hd (vs @ [b])"
  shows "dlist (list_move_tail y x h) a (xs @ zs)" and "dlist (list_move_tail y x h) b (us @ y # vs)"
proof -
  have "dlist (list_move_tail y x h) a (xs @ zs) \<and> dlist (list_move_tail y x h) b (us @ y # vs)"
  proof (cases vs)
    case Nil
    with assms list_move_tail_dlist [of h a xs y zs b us] show ?thesis by simp
  next
    case (Cons v vs')
    have "dlist h v (vs' @ b # us)" using assms(2) Cons by (auto intro: dlist_rotate)
    from list_move_tail_dlist [OF assms(1) this] assms(3,4) Cons
    have "dlist (list_move_tail y x h) a (xs @ zs)" "dlist (list_move_tail y x h) v (vs' @ b # us @ [y])" by auto
    with dlist_rotate [of _ v vs' b "us @ [y]"] Cons show ?thesis by simp
  qed
  then show "dlist (list_move_tail y x h) a (xs @ zs)" "dlist (list_move_tail y x h) b (us @ y # vs)" by simp_all
qed

lemma sort_loop_ok:
  assumes "dlist h src_list xs" "dlist h new_list ys" "set (src_list # xs) \<inter> set (new_list # ys) = {}"
  shows "\<exists>h'. sort_loop key src_list new_list (hd (xs @ [src_list])) (nxt h (hd (xs @ [src_list]))) h = Some h'
           \<and> dlist h' src_list [] \<and> dlist h' new_list (fold (insort_key key) xs ys)"
  using assms
proof (induction xs arbitrary: h ys)
  case Nil
  then show ?case by (subst sort_loop.simps) simp
next
  case (Cons x xs)
  define at where "at = hd (dropWhile (\<lambda>y. \<not> key x \<le> key y) ys @ [new_list])"
  define h1 where "h1 = list_move_tail x at h"
  have n: "x \<noteq> src_list" "nxt h x = hd (xs @ [src_list])"
    using Cons.prems(1) dlist_nxt [of h src_list "[]" x xs] by (auto simp: dlist_def)
  have d: "dlist h1 src_list xs" "dlist h1 new_list (insort_key key x ys)"
    using move_across [of h src_list "[]" x xs new_list "takeWhile (\<lambda>y. \<not> key x \<le> key y) ys"
        "dropWhile (\<lambda>y. \<not> key x \<le> key y) ys" at] Cons.prems
    by (simp_all add: h1_def at_def insort_split)
  have "sort_loop key src_list new_list x (nxt h x) h
      = sort_loop key src_list new_list (hd (xs @ [src_list])) (nxt h1 (hd (xs @ [src_list]))) h1"
    using n insert_pos_ok [of h new_list "[]" ys key x] Cons.prems(2) dlist_nxt_head [OF Cons.prems(2)]
    by (subst sort_loop.simps) (simp add: h1_def at_def Let_def)
  moreover have "set (src_list # xs) \<inter> set (new_list # insort_key key x ys) = {}"
    using Cons.prems(1,3) by (auto simp: set_insort_key dlist_def)
  ultimately show ?case using Cons.IH [OF d] by simp
qed

lemma fold_insort:
  "mset (fold (insort_key key) xs ys) = mset xs + mset ys"
  "sorted (map key ys) \<Longrightarrow> sorted (map key (fold (insort_key key) xs ys))"
  by (induction xs arbitrary: ys) (simp_all add: sorted_insort_key)

section \<open>Properties\<close>

text \<open>
  C16: \<open>list_quick_sort\<close>, called on a whole list with the comparison function of the program, returns, and
  leaves a well-linked list of the same nodes in ascending order of the time or group id the
  comparison looks at, provided no two of these are \<open>2 ^ 31\<close> or more apart.
\<close>

theorem quick_sort_correct:
  assumes "dlist h head xs" "\<forall>x \<in> set xs. \<forall>y \<in> set xs. \<bar>sort_key m t x - sort_key m t y\<bar> < 2 ^ 31"
  shows "\<exists>ys h'. list_quick_sort (list_commen_compare_fun m t) head (nxt h head) (prv h head) h = Some h'
    \<and> dlist h' head ys \<and> mset ys = mset xs \<and> sorted (map (sort_key m t) ys)"
proof (cases "xs = []")
  case True
  with assms(1) show ?thesis by (subst list_quick_sort.simps) (auto simp: dlist_nxt_head dlist_prv_head)
next
  case False
  then have "nxt h head = hd xs" "prv h head = last xs"
    using dlist_nxt_head [OF assms(1)] dlist_prv_head [OF assms(1)] by simp_all
  moreover have "cc.all_near m t xs" unfolding cc.all_near_def by (rule assms(2))
  with cc.quick_sort_ok [of h head "[]" xs "[]" m t] assms(1) False obtain h' where
    "list_quick_sort (list_commen_compare_fun m t) head (hd xs) (last xs) h = Some h'" "cc.sorts m t head [] xs [] h'"
    by auto
  ultimately show ?thesis by (auto simp: cc.sorts_def)
qed

definition nodes_heap :: "addr list \<Rightarrow> list_heap" where
  "nodes_heap xs = fold (\<lambda>x. list_add_tail x 1) xs (INIT_LIST_HEAD 1 empty_heap)"

abbreviation three_nodes :: list_heap where "three_nodes \<equiv> nodes_heap [2, 3, 4]"

definition times_of :: "u64 list \<Rightarrow> sort_mem" where
  "times_of ts = \<lparr>msg_time = (\<lambda>a. case map_of (zip [2, 3, 4, 5] ts) a of Some t \<Rightarrow> t | None \<Rightarrow> 0),
     act_time = (\<lambda>_. 0), group_gid = (\<lambda>_. 0)\<rparr>"

lemma three_nodes_dlist: "dlist three_nodes 1 [2, 3, 4]"
  by (simp add: nodes_heap_def dlist_def list_add_tail_def list_add_raw_def INIT_LIST_HEAD_def Let_def)

theorem quick_sort_correct_witness:
  "\<exists>ys h'. list_quick_sort (list_commen_compare_fun (times_of [30, 10, 20]) LIST_QQ_WK_MSG_SORT) 1
      (nxt three_nodes 1) (prv three_nodes 1) three_nodes = Some h'
    \<and> dlist h' 1 ys \<and> mset ys = mset [2, 3, 4] \<and> sorted (map (sort_key (times_of [30, 10, 20]) LIST_QQ_WK_MSG_SORT) ys)"
  by (rule quick_sort_correct [OF three_nodes_dlist]) (simp add: sort_key_def times_of_def)

text \<open>
  C34: \<open>sort_list_to_new_list\<close> returns with the first list empty and its nodes inserted one by one into the
  second, each before the first node with a key that is not smaller: the insertion of the reference
  \<open>insort_key\<close>. If the second list was in ascending order it still is (the comment of the macro says from large to small), and no
  node is lost.
\<close>

theorem sort_to_new_list_correct:
  fixes key :: "addr \<Rightarrow> 'k :: linorder"
  assumes "dlist h src_list xs" "dlist h new_list ys" "set (src_list # xs) \<inter> set (new_list # ys) = {}"
  shows "\<exists>h'. sort_list_to_new_list key src_list new_list h = Some h' \<and> dlist h' src_list []
    \<and> dlist h' new_list (fold (insort_key key) xs ys)
    \<and> mset (fold (insort_key key) xs ys) = mset xs + mset ys
    \<and> (sorted (map key ys) \<longrightarrow> sorted (map key (fold (insort_key key) xs ys)))"
  using sort_loop_ok [OF assms, of key] fold_insort dlist_nxt_head [OF assms(1)]
  unfolding sort_list_to_new_list_def by auto

lemma three_nodes_new: "dlist (INIT_LIST_HEAD 9 three_nodes) 1 [2, 3, 4]" "dlist (INIT_LIST_HEAD 9 three_nodes) 9 []"
  using three_nodes_dlist by (simp_all add: INIT_LIST_HEAD_def dlist_def)

theorem sort_to_new_list_correct_witness:
  "\<exists>h'. sort_list_to_new_list (msg_time (times_of [30, 10, 20])) 1 9 (INIT_LIST_HEAD 9 three_nodes) = Some h'
    \<and> dlist h' 1 [] \<and> dlist h' 9 [3, 4, 2]"
  using sort_to_new_list_correct [OF three_nodes_new, of "msg_time (times_of [30, 10, 20])"]
  by (auto simp: times_of_def)

text \<open>
  Where the sort fails: times that are \<open>2 ^ 32 - 1\<close> apart come out in descending order; and a range that ends
  inside the list (here the first three of four nodes) is not respected once its last node has been
  swapped to the front: the node behind it is moved too.
\<close>

lemma quick_sort_far_apart:
  "map_option (\<lambda>h. (nxt h 1, nxt h 2))
     (list_quick_sort (list_commen_compare_fun (times_of [0, 2 ^ 32 - 1]) LIST_QQ_WK_MSG_SORT) 1 2 3 (nodes_heap [2, 3])) = Some (3, 1)"
  by code_simp

lemma quick_sort_beyond_end:
  "map_option (\<lambda>h. map (\<lambda>n. ((nxt h) ^^ n) 1) [1..<5])
     (list_quick_sort (list_commen_compare_fun (times_of [20, 30, 10, 15]) LIST_QQ_WK_MSG_SORT) 1 2 4 (nodes_heap [2, 3, 4, 5]))
   = Some [4, 5, 2, 3]"
  by code_simp

end
