(* ===== verification/Packet_Split.thy ===== *)
theory Packet_Split
  imports Prelude
begin

text \<open>
  Cutting the bytes received on a connection into packets: \<open>an_split_rcv_buf_to_json\<close> of
  \<^verbatim>\<open>TCP_C/main.c\<close>. A packet is a newline followed by a text in which the braces balance.

  The buffer is the memory the socket owns, all \<open>rcv_buflen\<close> bytes of it; a read or a move
  outside it is the fault \<open>Out_Of_Bounds\<close>. \<open>al_allocate_task\<close>, which is given every packet, is
  the argument \<open>alloc\<close> on a state \<open>'w\<close> of the rest of the program; whether the allocation of
  the copy of the k-th packet succeeds is the argument \<open>mem\<close>.

  The lemmas show what the code does with one packet, with two, and with a buffer that
  is filled to its last byte.
\<close>

section \<open>The code\<close>

abbreviation (input) NL :: char where "NL \<equiv> CHR 0x0A"
abbreviation (input) NUL :: char where "NUL \<equiv> CHR 0x00"

definition rd :: "string \<Rightarrow> nat \<Rightarrow> char res" where
  "rd buf i = (if i < length buf then Inr (buf ! i) else Inl Out_Of_Bounds)"

text \<open>What \<open>%s\<close> prints from an offset on: it reads up to a NUL.\<close>

definition cstr_at :: "string \<Rightarrow> nat \<Rightarrow> string res" where
  "cstr_at buf i =
     (if NUL \<in> set (drop i buf) then Inr (takeWhile (\<lambda>c. c \<noteq> NUL) (drop i buf)) else Inl Out_Of_Bounds)"

text \<open>\<open>memmove(buf, buf + src, n)\<close>, the count converted to \<open>size_t\<close>.\<close>

definition memmove0 :: "string \<Rightarrow> nat \<Rightarrow> int \<Rightarrow> string res" where
  "memmove0 buf src n =
     (if n < 0 \<or> int (length buf) < int src + n then Inl Out_Of_Bounds
      else Inr (take (nat n) (drop src buf) @ drop (nat n) buf))"

text \<open>The first loop: bytes before the first newline.\<close>

function skip_loop :: "string \<Rightarrow> int \<Rightarrow> nat \<Rightarrow> nat res" where
  "skip_loop buf n k =
     res_bind (rd buf k) (\<lambda>c.
       if c \<noteq> NUL \<and> int k < n then (if c \<noteq> NL then skip_loop buf n (Suc k) else Inr k)
       else Inr k)"
  by pat_completeness auto
termination by (relation "measure (\<lambda>(buf, n, k). nat (n - int k))") auto

text \<open>
  The loop after \<open>REDO\<close>: \<open>Scan_Out\<close> is the jump to \<open>OUT\<close> at a second newline, \<open>Scan_Done\<close> the
  end of the loop with \<open>json_len\<close>, \<open>start_p\<close> and \<open>start_flag\<close>.
\<close>

datatype scan_end = Scan_Out | Scan_Done nat nat int

function scan_loop :: "string \<Rightarrow> int \<Rightarrow> nat \<Rightarrow> nat \<Rightarrow> nat \<Rightarrow> int \<Rightarrow> nat \<Rightarrow> scan_end res" where
  "scan_loop buf n json_len start_p end_p start_flag packet_flag =
     (if int json_len < n then
        res_bind (rd buf end_p) (\<lambda>c.
          if c = NL then
            (if 1 < Suc packet_flag then Inr Scan_Out
             else scan_loop buf n json_len (Suc end_p) (Suc end_p) start_flag (Suc packet_flag))
          else
            let sf = (if c = CHR ''{'' then start_flag + 1 else if c = CHR ''}'' then start_flag - 1 else start_flag) in
            if sf = 0 \<and> packet_flag = 1 then Inr (Scan_Done (Suc json_len) start_p sf)
            else scan_loop buf n (Suc json_len) start_p (Suc end_p) sf packet_flag)
      else Inr (Scan_Done json_len start_p start_flag))"
  by pat_completeness auto
termination
  by (relation "measures [\<lambda>(buf, n, j, sp, ep, sf, pf). nat (n - int j), \<lambda>(buf, n, j, sp, ep, sf, pf). 1 - pf]") auto

declare skip_loop.simps [simp del] scan_loop.simps [simp del]

lemma scan_loop_progress:
  "scan_loop buf n j sp ep sf pf = Inr (Scan_Done j' sp' sf') \<Longrightarrow> j \<le> j' \<and> n \<le> int j' \<or> j < j'"
proof (induction buf n j sp ep sf pf rule: scan_loop.induct)
  case (1 buf n j sp ep sf pf)
  note p = "1.prems" [unfolded scan_loop.simps [of buf n j sp ep sf pf]]
  show ?case
  proof (cases "int j < n")
    case True
    with p obtain c where c: "rd buf ep = Inr c" by (auto simp: res_bind_def split: sum.splits)
    show ?thesis
    proof (cases "c = NL")
      case nl: True
      with p True c have pf: "\<not> 1 < Suc pf" "scan_loop buf n j (Suc ep) (Suc ep) sf (Suc pf) = Inr (Scan_Done j' sp' sf')"
        by (auto split: if_splits)
      from "1.IH"(1) [OF True nl pf(1) pf(2)] show ?thesis .
    next
      case False
      let ?sf = "if c = CHR ''{'' then sf + 1 else if c = CHR ''}'' then sf - 1 else sf"
      from p True c False
      have "(if ?sf = 0 \<and> pf = 1 then Inr (Scan_Done (Suc j) sp ?sf)
         else scan_loop buf n (Suc j) sp (Suc ep) ?sf pf) = Inr (Scan_Done j' sp' sf')" by (simp add: Let_def)
      with "1.IH"(2) [OF True False refl] show ?thesis by (auto split: if_splits)
    qed
  next
    case False
    with p show ?thesis by auto
  qed
qed

text \<open>The code from \<open>REDO\<close> on; \<open>json_len\<close> and \<open>start_flag\<close> keep their values across the jump.\<close>

function redo ::
  "(string \<Rightarrow> nat \<Rightarrow> 'w \<Rightarrow> 'w) \<Rightarrow> (nat \<Rightarrow> bool) \<Rightarrow> nat \<Rightarrow> string \<Rightarrow> int \<Rightarrow> nat \<Rightarrow> int \<Rightarrow> 'w
   \<Rightarrow> (int \<times> string \<times> int \<times> 'w) res" where
  "redo alloc mem k buf n json_len start_flag w =
     (case scan_loop buf n json_len 0 0 start_flag 0 of
        Inl e \<Rightarrow> Inl e
      | Inr Scan_Out \<Rightarrow> Inr (-1, buf, n, w)
      | Inr (Scan_Done j start_p sf) \<Rightarrow>
          if 0 < j \<and> sf = 0 then
            if \<not> mem k then Inr (-1, buf, n, w)
            else
              (case cstr_at buf start_p of
                 Inl e \<Rightarrow> Inl e
               | Inr s \<Rightarrow>
                   (case memmove0 buf (Suc j) (n - int j + 1) of
                      Inl e \<Rightarrow> Inl e
                    | Inr buf' \<Rightarrow>
                        let n' = n - (int j + 1); w' = alloc (take j s) j w in
                        if 0 < n' then redo alloc mem (Suc k) buf' n' j sf w' else Inr (0, buf', n', w')))
          else if 0 < n \<and> sf = 0 then redo alloc mem k buf n j sf w
          else Inr (0, buf, n, w))"
  by pat_completeness auto
termination
  by (relation "measure (\<lambda>(alloc, mem, k, buf, n, j, sf, w). nat n)") (auto dest!: scan_loop_progress)

declare redo.simps [simp del]

definition an_split_rcv_buf_to_json ::
  "(string \<Rightarrow> nat \<Rightarrow> 'w \<Rightarrow> 'w) \<Rightarrow> (nat \<Rightarrow> bool) \<Rightarrow> string option \<Rightarrow> int \<Rightarrow> 'w
   \<Rightarrow> (int \<times> string option \<times> int \<times> 'w) res" where
  "an_split_rcv_buf_to_json alloc mem rcv_buf n w =
     (case rcv_buf of
        None \<Rightarrow> Inr (-1, None, n, w)
      | Some buf \<Rightarrow>
          res_bind (skip_loop buf n 0) (\<lambda>cut.
          res_bind (if 0 < cut then memmove0 buf cut (n - int cut) else Inr buf) (\<lambda>buf1.
          let n1 = (if 0 < cut then n - int cut else n) in
          res_bind (cstr_at buf1 0) (\<lambda>_.
          res_bind (redo alloc mem 0 buf1 n1 0 0 w) (\<lambda>(ret, buf2, n2, w2).
          Inr (ret, Some buf2, n2, w2))))))"

section \<open>One packet\<close>

text \<open>The depth of braces after a text, and texts whose depth is zero only at their end.\<close>

definition brace :: "char \<Rightarrow> int" where
  "brace c = (if c = CHR ''{'' then 1 else if c = CHR ''}'' then -1 else 0)"

fun closes :: "int \<Rightarrow> string \<Rightarrow> bool" where
  "closes d [] = False"
| "closes d (c # cs) = (if d + brace c = 0 then cs = [] else closes (d + brace c) cs)"

definition packet :: "string \<Rightarrow> bool" where
  "packet js \<longleftrightarrow> closes 0 js \<and> NL \<notin> set js \<and> NUL \<notin> set js"

lemma rd_append [simp]: "rd (pre @ c # post) (length pre) = Inr c"
  by (simp add: rd_def nth_append)

lemma rd_0 [simp]: "rd (c # cs) 0 = Inr c"
  by (simp add: rd_def)

lemma rd_Suc [simp]: "rd (c # cs) (Suc i) = rd cs i"
  by (simp add: rd_def)

lemma scan_loop_packet:
  "closes d js \<Longrightarrow> NL \<notin> set js \<Longrightarrow> int j + int (length js) \<le> n \<Longrightarrow>
     scan_loop (pre @ js @ post) n j sp (length pre) d 1 = Inr (Scan_Done (j + length js) sp 0)"
proof (induction js arbitrary: d j pre)
  case (Cons c cs)
  have r: "rd (pre @ c # cs @ post) (length pre) = Inr c" by simp
  have d: "(if c = CHR ''{'' then d + 1 else if c = CHR ''}'' then d - 1 else d) = d + brace c"
    by (simp add: brace_def)
  have IH: "scan_loop ((pre @ [c]) @ cs @ post) n (Suc j) sp (length (pre @ [c])) (d + brace c) 1
      = Inr (Scan_Done (Suc j + length cs) sp 0)" if "closes (d + brace c) cs"
    using Cons.prems(2,3) that by (intro Cons.IH) auto
  show ?case
    using Cons.prems IH r
    by (subst scan_loop.simps) (auto simp: Let_def d split: if_splits)
qed simp

lemma packet_not_empty: "packet js \<Longrightarrow> js \<noteq> []"
  by (auto simp: packet_def)

lemma scan_loop_first:
  assumes "packet js" "n = int (length js) + 1 + int r"
  shows "scan_loop (NL # js @ post) n 0 0 0 0 0 = Inr (Scan_Done (length js) 1 0)"
proof -
  have "scan_loop ([NL] @ js @ post) n 0 1 (length [NL]) 0 1 = Inr (Scan_Done (0 + length js) 1 0)"
    using assms by (intro scan_loop_packet) (auto simp: packet_def)
  then show ?thesis using assms by (subst scan_loop.simps) simp
qed

lemma skip_loop_nl [simp]: "skip_loop (NL # cs) n 0 = Inr 0"
  by (subst skip_loop.simps) simp

text \<open>Bytes before the first newline are dropped.\<close>

lemma skip_loop_junk:
  "NL \<notin> set junk \<Longrightarrow> NUL \<notin> set junk \<Longrightarrow> int k + int (length junk) \<le> n \<Longrightarrow> length pre = k \<Longrightarrow>
     skip_loop (pre @ junk @ NL # cs) n k = Inr (k + length junk)"
proof (induction junk arbitrary: pre k)
  case Nil
  then show ?case by (subst skip_loop.simps) (auto simp: rd_def nth_append)
next
  case (Cons c junk)
  have "skip_loop ((pre @ [c]) @ junk @ NL # cs) n (Suc k) = Inr (Suc k + length junk)"
    using Cons.prems by (intro Cons.IH) auto
  then show ?case using Cons.prems by (subst skip_loop.simps) (auto simp: rd_def nth_append)
qed

lemma cstr_at_prefix:
  assumes "NUL \<notin> set js" "NUL \<in> set rest"
  shows "\<exists>t. cstr_at (pre @ js @ rest) (length pre) = Inr (js @ t)"
  using assms by (simp add: cstr_at_def takeWhile_append)

lemma redo_first:
  assumes js: "packet js" and n: "n = int (length js) + 1 + int r" and mem: "mem k"
    and post: "NUL \<in> set post" "r + 2 \<le> length post"
  shows "redo alloc mem k (NL # js @ post) n 0 0 w =
    (let buf' = take (r + 2) post @ drop (r + 2) (NL # js @ post); w' = alloc js (length js) w in
     if 0 < r then redo alloc mem (Suc k) buf' (int r) (length js) 0 w' else Inr (0, buf', 0, w'))"
proof -
  obtain t where t: "cstr_at (NL # js @ post) 1 = Inr (js @ t)"
    using cstr_at_prefix [of js post "[NL]"] js post(1) by (auto simp: packet_def)
  have m: "memmove0 (NL # js @ post) (Suc (length js)) (n - int (length js) + 1)
      = Inr (take (r + 2) post @ drop (r + 2) (NL # js @ post))"
    using n post(2) by (simp add: memmove0_def nat_add_distrib)
  have n': "n - (int (length js) + 1) = int r" using n by simp
  show ?thesis
    using packet_not_empty [OF js]
    by (subst redo.simps) (simp only: scan_loop_first [OF js n] sum.case scan_end.case mem t m n' Let_def
        length_greater_0_conv simp_thms if_True if_False append_eq_conv_conj take_append take_all
        diff_self_eq_0 take_0 append_Nil2 order.refl of_nat_0_less_iff split: if_split,
        simp)
qed

section \<open>Two packets\<close>

text \<open>A packet whose scan is cut short leaves the braces open.\<close>

lemma scan_loop_open:
  "closes d js \<Longrightarrow> NL \<notin> set js \<Longrightarrow> k < length js \<Longrightarrow> 0 < k \<or> d \<noteq> 0 \<Longrightarrow> n = int j + int k \<Longrightarrow>
     \<exists>sf. sf \<noteq> 0 \<and> scan_loop (pre @ js @ post) n j sp (length pre) d 1 = Inr (Scan_Done (j + k) sp sf)"
proof (induction js arbitrary: d j k pre)
  case (Cons c cs)
  show ?case
  proof (cases k)
    case 0
    with Cons.prems show ?thesis by (subst scan_loop.simps) auto
  next
    case (Suc m)
    have d: "(if c = CHR ''{'' then d + 1 else if c = CHR ''}'' then d - 1 else d) = d + brace c"
      by (simp add: brace_def)
    have nz: "d + brace c \<noteq> 0" using Cons.prems(1,3) Suc by (auto split: if_splits)
    obtain sf where sf: "sf \<noteq> 0" "scan_loop ((pre @ [c]) @ cs @ post) n (Suc j) sp (length (pre @ [c])) (d + brace c) 1
        = Inr (Scan_Done (Suc j + m) sp sf)"
      using Cons.IH [of "d + brace c" m "Suc j" "pre @ [c]"] Cons.prems Suc nz by auto
    have r: "rd (pre @ c # cs @ post) (length pre) = Inr c" by simp
    have "scan_loop (pre @ (c # cs) @ post) n j sp (length pre) d 1
        = scan_loop ((pre @ [c]) @ cs @ post) n (Suc j) sp (length (pre @ [c])) (d + brace c) 1"
      using Cons.prems(2,5) Suc r nz by (subst scan_loop.simps) (auto simp: Let_def d)
    with sf Suc show ?thesis by simp
  qed
qed simp

lemma packet_moved:
  assumes "packet a" "mem 0" "NUL \<in> set post" "2 \<le> length post"
  obtains post' where "redo alloc mem 0 (NL # a @ NL # b @ post) (int (length a + 1 + (length b + 1))) 0 0 w
     = redo alloc mem 1 (NL # b @ post') (int (length b + 1)) (length a) 0 (alloc a (length a) w)"
proof -
  have "redo alloc mem 0 (NL # a @ NL # b @ post) (int (length a + 1 + (length b + 1))) 0 0 w
     = redo alloc mem 1 (NL # b @ take 2 post @ drop (length b + 3) (NL # a @ NL # b @ post))
         (int (length b + 1)) (length a) 0 (alloc a (length a) w)"
    using assms redo_first [of a "int (length a + 1 + (length b + 1))" "length b + 1" mem 0 "NL # b @ post" alloc w]
    by (simp add: Let_def numeral_3_eq_3)
  then show thesis by (rule that)
qed

lemma redo_short_second:
  assumes "length b + 2 < length a"
  shows "redo alloc mem k buf (int (length b + 1)) (length a) 0 w = Inl Out_Of_Bounds \<or> \<not> mem k"
proof -
  have "scan_loop buf (int (length b + 1)) (length a) 0 0 0 0 = Inr (Scan_Done (length a) 0 0)"
    using assms by (subst scan_loop.simps) simp
  moreover have "memmove0 buf (Suc (length a)) (int (length b + 1) - int (length a) + 1) = Inl Out_Of_Bounds"
    using assms by (simp add: memmove0_def)
  moreover have "0 < length a" using assms by linarith
  ultimately show ?thesis
    by (subst redo.simps) (simp add: cstr_at_def)
qed

lemma redo_long_second:
  assumes "packet b" "1 < la" "la \<le> length b"
  shows "redo alloc mem k (NL # b @ post) (int (length b + 1)) la 0 w = Inr (0, NL # b @ post, int (length b + 1), w)"
proof -
  have "\<exists>sf. sf \<noteq> 0 \<and> scan_loop ([NL] @ b @ post) (int (length b + 1)) la 1 (length [NL]) 0 1
      = Inr (Scan_Done (la + (length b + 1 - la)) 1 sf)"
    using assms by (intro scan_loop_open) (auto simp: packet_def)
  then obtain sf where "sf \<noteq> 0" and
    "scan_loop (NL # b @ post) (int (length b + 1)) la 0 0 0 0 = Inr (Scan_Done (Suc (length b)) 1 sf)"
    using assms(3) by (auto simp: scan_loop.simps [of _ _ la 0])
  then show ?thesis by (subst redo.simps) simp
qed

section \<open>A part of a packet\<close>

text \<open>
  The newline is not counted, so that the loop looks at one byte behind what was received. If that byte is no brace and no
  newline, the braces stay open.
\<close>

lemma scan_loop_part:
  "closes d (p @ q) \<Longrightarrow> q \<noteq> [] \<Longrightarrow> p \<noteq> [] \<or> d \<noteq> 0 \<Longrightarrow> NL \<notin> set p \<Longrightarrow> c \<noteq> NL \<Longrightarrow> brace c = 0 \<Longrightarrow> n = int j + int (length p) + 1 \<Longrightarrow>
     \<exists>sf. sf \<noteq> 0 \<and> scan_loop (pre @ p @ c # post) n j sp (length pre) d 1 = Inr (Scan_Done (j + length p + 1) sp sf)"
proof (induction p arbitrary: d j pre)
  case Nil
  then have "c \<noteq> CHR ''{''" "c \<noteq> CHR ''}''" "d \<noteq> 0" by (auto simp: brace_def split: if_splits)
  with Nil have "scan_loop (pre @ c # post) n j sp (length pre) d 1 = scan_loop (pre @ c # post) n (Suc j) sp (Suc (length pre)) d 1"
    by (subst scan_loop.simps) (simp add: Let_def)
  also have "\<dots> = Inr (Scan_Done (Suc j) sp d)" using Nil by (subst scan_loop.simps) simp
  finally show ?case using \<open>d \<noteq> 0\<close> by simp
next
  case (Cons x p)
  have d: "(if x = CHR ''{'' then d + 1 else if x = CHR ''}'' then d - 1 else d) = d + brace x"
    by (simp add: brace_def)
  have nz: "d + brace x \<noteq> 0" "closes (d + brace x) (p @ q)" using Cons.prems(1,2) by (auto split: if_splits)
  obtain sf where sf: "sf \<noteq> 0" "scan_loop ((pre @ [x]) @ p @ c # post) n (Suc j) sp (length (pre @ [x])) (d + brace x) 1
      = Inr (Scan_Done (Suc j + length p + 1) sp sf)"
    using Cons.IH [of "d + brace x" "Suc j" "pre @ [x]"] Cons.prems nz by auto
  have r: "rd (pre @ x # p @ c # post) (length pre) = Inr x" by simp
  have "scan_loop (pre @ (x # p) @ c # post) n j sp (length pre) d 1
      = scan_loop ((pre @ [x]) @ p @ c # post) n (Suc j) sp (length (pre @ [x])) (d + brace x) 1"
    using Cons.prems(4,7) r nz by (subst scan_loop.simps) (auto simp: Let_def d)
  with sf show ?case by simp
qed

lemma part_of_packet:
  assumes "packet (p @ q)" "p \<noteq> []" "q \<noteq> []"
  shows "an_split_rcv_buf_to_json alloc mem (Some (NL # p @ NUL # post)) (int (length p + 1)) w
     = Inr (0, Some (NL # p @ NUL # post), int (length p + 1), w)"
proof -
  obtain sf where sf: "sf \<noteq> 0" "scan_loop ([NL] @ p @ NUL # post) (int (length p + 1)) 0 1 (length [NL]) 0 1
      = Inr (Scan_Done (0 + length p + 1) 1 sf)"
    using scan_loop_part [of 0 p q NUL "int (length p + 1)" 0 "[NL]" post 1] assms by (auto simp: packet_def brace_def)
  then have "scan_loop (NL # p @ NUL # post) (int (length p + 1)) 0 0 0 0 0 = Inr (Scan_Done (length p + 1) 1 sf)"
    by (subst scan_loop.simps) simp
  with sf(1) have "redo alloc mem 0 (NL # p @ NUL # post) (int (length p + 1)) 0 0 w
      = Inr (0, NL # p @ NUL # post, int (length p + 1), w)"
    by (subst redo.simps) simp
  then show ?thesis by (simp add: an_split_rcv_buf_to_json_def cstr_at_def)
qed

section \<open>A full buffer\<close>

lemma rd_error: "rd buf k = Inl e \<Longrightarrow> e = Out_Of_Bounds"
  by (simp add: rd_def split: if_splits)

lemma skip_loop_error: "skip_loop buf n k = Inl e \<Longrightarrow> e = Out_Of_Bounds"
proof (induction buf n k rule: skip_loop.induct)
  case (1 buf n k)
  note p = "1.prems" [unfolded skip_loop.simps [of buf n k]]
  show ?case
  proof (cases "rd buf k")
    case (Inl e')
    with p rd_error [OF Inl] show ?thesis by simp
  next
    case (Inr c)
    with p have "c \<noteq> NUL \<and> int k < n" "c \<noteq> NL" "skip_loop buf n (Suc k) = Inl e"
      by (auto split: if_splits)
    then show ?thesis by (rule "1.IH")
  qed
qed

lemma memmove0_set: "memmove0 buf k n = Inr buf' \<Longrightarrow> set buf' \<subseteq> set buf"
  by (auto simp: memmove0_def split: if_splits dest!: in_set_takeD in_set_dropD)

lemma memmove0_error: "memmove0 buf k n = Inl e \<Longrightarrow> e = Out_Of_Bounds"
  by (simp add: memmove0_def split: if_splits)

lemma split_compose:
  assumes "skip_loop buf n 0 = Inr c0"
    and "(if 0 < c0 then memmove0 buf c0 (n - int c0) else Inr buf) = Inr buf1" "NUL \<in> set buf1"
    and "redo alloc mem 0 buf1 (n - int c0) 0 0 w = Inr (ret, buf2, n2, w2)"
  shows "an_split_rcv_buf_to_json alloc mem (Some buf) n w = Inr (ret, Some buf2, n2, w2)"
  using assms by (cases "c0 = 0") (simp_all add: an_split_rcv_buf_to_json_def cstr_at_def)

section \<open>What is handed out\<close>

text \<open>A property of the rest of the program that the task allocator keeps is kept.\<close>

lemma redo_world:
  "(\<And>js l w. P w \<Longrightarrow> P (alloc js l w)) \<Longrightarrow> P w \<Longrightarrow>
     redo alloc mem k buf n j sf w = Inr (ret, buf', n', w') \<Longrightarrow> P w'"
proof (induction alloc mem k buf n j sf w rule: redo.induct)
  case (1 alloc mem k buf n j sf w)
  note p = "1.prems"(3) [unfolded redo.simps [of alloc mem k buf n j sf w]]
  from p obtain se where se: "scan_loop buf n j 0 0 sf 0 = Inr se" by (cases "scan_loop buf n j 0 0 sf 0") auto
  show ?case
  proof (cases se)
    case Scan_Out
    with p se "1.prems"(2) show ?thesis by simp
  next
    case (Scan_Done j' sp sf')
    show ?thesis
    proof (cases "0 < j' \<and> sf' = 0")
      case True
      show ?thesis
      proof (cases "mem k")
        case False
        with p se Scan_Done True "1.prems"(2) show ?thesis by simp
      next
        case m: True
        from p se Scan_Done True m obtain t where t: "cstr_at buf sp = Inr t" by (cases "cstr_at buf sp") auto
        from p se Scan_Done True m t obtain buf2 where
          b: "memmove0 buf (Suc j') (n - int j' + 1) = Inr buf2"
          by (cases "memmove0 buf (Suc j') (n - int j' + 1)") auto
        have w': "P (alloc (take j' t) j' w)" using "1.prems"(1,2) .
        from p se Scan_Done True m t b
        have q: "(if 0 < n - (int j' + 1) then redo alloc mem (Suc k) buf2 (n - (int j' + 1)) j' sf' (alloc (take j' t) j' w)
            else Inr (0, buf2, n - (int j' + 1), alloc (take j' t) j' w)) = Inr (ret, buf', n', w')"
          by (simp add: Let_def split: if_splits)
        show ?thesis
        proof (cases "0 < n - (int j' + 1)")
          case pos: True
          show ?thesis
            using "1.IH"(1) [OF se Scan_Done True _ t b refl refl pos _ w'] m "1.prems"(1) q pos by simp
        qed (use q w' in simp)
      qed
    next
      case False
      show ?thesis
      proof (cases "0 < n \<and> sf' = 0")
        case c: True
        show ?thesis
          using "1.IH"(2) [OF se Scan_Done False c _ "1.prems"(2)] "1.prems"(1) p se Scan_Done False c by simp
      qed (use p se Scan_Done False "1.prems"(2) in auto)
    qed
  qed
qed

lemma split_world:
  assumes "\<And>js l w. P w \<Longrightarrow> P (alloc js l w)" "P w"
    and "an_split_rcv_buf_to_json alloc mem b n w = Inr (ret, b', n', w')"
  shows "P w'"
  using assms(3) redo_world [of P alloc, OF assms(1)] assms(2)
  by (auto simp: an_split_rcv_buf_to_json_def Let_def split: option.splits)

lemma second_packet_lost:
  assumes "packet a" "packet b" "1 < length a" "mem 0" "mem 1" "NUL \<in> set post" "2 \<le> length post"
    and "r = an_split_rcv_buf_to_json alloc mem (Some (NL # a @ NL # b @ post))
               (int (length a + 1 + (length b + 1))) w"
  shows "(length a \<le> length b \<longrightarrow>
            (\<exists>buf'. r = Inr (0, Some buf', int (length b + 1), alloc a (length a) w)))
    \<and> (length b + 2 < length a \<longrightarrow> r = Inl Out_Of_Bounds)"
proof -
  obtain post' where p: "redo alloc mem 0 (NL # a @ NL # b @ post) (int (length a + 1 + (length b + 1))) 0 0 w
     = redo alloc mem 1 (NL # b @ post') (int (length b + 1)) (length a) 0 (alloc a (length a) w)"
    by (rule packet_moved [of a mem post alloc b w, OF assms(1,4,6,7)])
  have r: "r = res_bind (redo alloc mem 0 (NL # a @ NL # b @ post) (int (length a + 1 + (length b + 1))) 0 0 w)
      (\<lambda>(ret, buf2, n2, w2). Inr (ret, Some buf2, n2, w2))"
    using assms(6,8) by (simp add: an_split_rcv_buf_to_json_def cstr_at_def)
  show ?thesis
    using redo_long_second [OF assms(2,3)] redo_short_second [of b a alloc mem 1 "NL # b @ post'"] assms(5)
    unfolding r p by fastforce
qed

lemma overreads_full_buffer:
  assumes "NUL \<notin> set buf"
  shows "an_split_rcv_buf_to_json alloc mem (Some buf) n w = Inl Out_Of_Bounds"
proof (cases "skip_loop buf n 0")
  case (Inl e)
  with skip_loop_error [OF Inl] show ?thesis by (simp add: an_split_rcv_buf_to_json_def)
next
  case (Inr cut)
  let ?m = "if 0 < cut then memmove0 buf cut (n - int cut) else Inr buf"
  have "?m = Inl Out_Of_Bounds \<or> (\<exists>buf'. ?m = Inr buf' \<and> set buf' \<subseteq> set buf)"
    using memmove0_set [of buf cut "n - int cut"] memmove0_error [of buf cut "n - int cut"]
    by (cases "memmove0 buf cut (n - int cut)") auto
  with assms Inr show ?thesis
    by (auto simp: an_split_rcv_buf_to_json_def cstr_at_def simp del: res_bind_Inr_iff)
qed

section \<open>Properties\<close>

lemma one_packet:
  assumes "packet js" "NL \<notin> set junk" "NUL \<notin> set junk" "mem 0" "NUL \<in> set post" "2 \<le> length post"
  shows "\<exists>buf'. an_split_rcv_buf_to_json alloc mem (Some (junk @ NL # js @ post))
           (int (length junk + 1 + length js)) w = Inr (0, Some buf', 0, alloc js (length js) w)"
proof -
  let ?buf = "junk @ NL # js @ post"
  let ?post = "drop (Suc (length js)) ?buf"
  let ?n = "int (length junk + 1 + length js)"
  have sk: "skip_loop ?buf ?n 0 = Inr (length junk)"
    using skip_loop_junk [of junk 0 ?n "[]" "js @ post"] assms(2,3) by simp
  have "(if 0 < length junk then memmove0 ?buf (length junk) (?n - int (length junk)) else Inr ?buf)
      = Inr (NL # js @ ?post)"
    using assms(6) by (auto simp: memmove0_def nat_add_distrib)
  moreover have post: "NUL \<in> set ?post"
  proof -
    have "?post = drop (Suc (length js)) (junk @ NL # js) @ post"
      using drop_append [of "Suc (length js)" "junk @ NL # js" post] by simp
    with assms(5) show ?thesis by auto
  qed
  moreover obtain buf' where "redo alloc mem 0 (NL # js @ ?post) (?n - int (length junk)) 0 0 w
      = Inr (0, buf', 0, alloc js (length js) w)"
    using redo_first [of js "?n - int (length junk)" 0 mem 0 ?post alloc w] assms post by (simp add: Let_def)
  ultimately have "an_split_rcv_buf_to_json alloc mem (Some ?buf) ?n w = Inr (0, Some buf', 0, alloc js (length js) w)"
    using sk by (intro split_compose) auto
  then show ?thesis by blast
qed

text \<open>
  One packet. When the buffer holds some bytes without a newline, a newline and a text
  whose braces close at its end, and the memory behind them has at least two more bytes and
  a NUL, the bytes before the newline are dropped, exactly the text is handed to
  \<open>al_allocate_task\<close>, and nothing is left in the buffer.
\<close>

lemma split_one_packet:
  assumes "packet js" "NL \<notin> set junk" "NUL \<notin> set junk" "mem 0" "NUL \<in> set post" "2 \<le> length post"
  shows "\<exists>buf'. an_split_rcv_buf_to_json alloc mem (Some (junk @ NL # js @ post))
           (int (length junk + 1 + length js)) w = Inr (0, Some buf', 0, alloc js (length js) w)"
  using assms by (rule one_packet)

lemma split_one_packet_witness:
  "\<exists>buf'. an_split_rcv_buf_to_json (\<lambda>s l ws. ws @ [s]) (\<lambda>_. True) (Some (''x'' @ NL # ''{a{}}'' @ [NUL, NUL])) 7 []
     = Inr (0, Some buf', 0, [''{a{}}''])"
  using split_one_packet [of "''{a{}}''" "''x''" "\<lambda>_. True" "[NUL, NUL]" "\<lambda>s l ws. ws @ [s]" "[]"]
  by (simp add: packet_def brace_def)

text \<open>
  C36: Where cutting goes wrong. Two packets at once: the count of the first is not reset for
  the second, so that a second one that is no shorter is not handed out but stays in the
  buffer, and one that is shorter by more than two bytes makes the length of the second
  \<open>memmove\<close> negative, a size of nearly \<open>2 ^ 64\<close> bytes. And a buffer without a NUL in it, as the
  exactly sized one that \<open>an_tcp_recv\<close> allocates for the first bytes of a connection, is always
  read past its end: the function prints it with \<open>%s\<close> before it looks for a packet.
\<close>

theorem split_goes_wrong:
  assumes "packet a" "packet b" "1 < length a" "mem 0" "mem 1" "NUL \<in> set post" "2 \<le> length post" "NUL \<notin> set buf"
    and "r = an_split_rcv_buf_to_json alloc mem (Some (NL # a @ NL # b @ post))
               (int (length a + 1 + (length b + 1))) w"
  shows "(length a \<le> length b \<longrightarrow>
            (\<exists>buf'. r = Inr (0, Some buf', int (length b + 1), alloc a (length a) w)))
    \<and> (length b + 2 < length a \<longrightarrow> r = Inl Out_Of_Bounds)
    \<and> an_split_rcv_buf_to_json alloc mem (Some buf) n w = Inl Out_Of_Bounds"
  using second_packet_lost [OF assms(1-7,9)] overreads_full_buffer [OF assms(8), of alloc mem n w] by simp

theorem split_goes_wrong_witness:
  "an_split_rcv_buf_to_json (\<lambda>s l ws. ws @ [s]) (\<lambda>_. True) (Some (NL # ''{abc}'' @ NL # ''{}'' @ [NUL, NUL])) 9 []
     = Inl Out_Of_Bounds
   \<and> an_split_rcv_buf_to_json (\<lambda>s l ws. ws @ [s]) (\<lambda>_. True) (Some (NL # ''{}'')) 3 [] = Inl Out_Of_Bounds"
  using split_goes_wrong [of "''{abc}''" "''{}''" "\<lambda>_. True" "[NUL, NUL]" "NL # ''{}''" _ "\<lambda>s l ws. ws @ [s]" "[]" 3]
  by (simp add: packet_def brace_def)

end
