(* ===== verification/Db_Wire.thy ===== *)
theory Db_Wire
  imports Public_Util Packet_Split
begin

text \<open>
  The client of the SSDB database, \<^verbatim>\<open>TCP_C/db.c\<close>, first part: the bytes it exchanges with the server.

  A message is a sequence of blocks, each its length in decimal, a newline, the bytes and a newline,
  followed by an empty line (\<open>ssdb_packet\<close>; \<open>ssdb_parse\<close> is the reading of that format which the
  lemmas compare the program with). The functions here take a reply apart in the buffer it was received
  into and build the requests. The buffer is all of its bytes; an access outside it is a fault, as is a
  failed \<open>assert\<close>, which in this file aborts the program. Pointers into the buffer are offsets
  (\<open>P_Buf\<close>), so that the keys and values a reply yields are what the buffer holds there.

  Shown: what a request is on the wire; that the pairs of a reply come out as they were sent; and that a
  status the program does not know is taken for success.
\<close>

section \<open>Data\<close>

datatype db_cmd =
    DB_NONE | DB_SET | DB_GET | DB_SCAN | DB_DEL | DB_EXISTS | DB_MULTI_GET | DB_MULTI_SET
  | DB_MULTI_DEL | DB_FLUSHDB | DB_DBSIZE | DB_CLR_BINLOG | DB_COMPACT

fun dbstr :: "db_cmd \<Rightarrow> string" where
  "dbstr DB_NONE = ''none''"
| "dbstr DB_SET = ''set''"
| "dbstr DB_GET = ''get''"
| "dbstr DB_SCAN = ''scan''"
| "dbstr DB_DEL = ''del''"
| "dbstr DB_EXISTS = ''exists''"
| "dbstr DB_MULTI_GET = ''multi_get''"
| "dbstr DB_MULTI_SET = ''multi_set''"
| "dbstr DB_MULTI_DEL = ''multi_del''"
| "dbstr DB_FLUSHDB = ''flushdb''"
| "dbstr DB_DBSIZE = ''dbsize''"
| "dbstr DB_CLR_BINLOG = ''clear_binlog''"
| "dbstr DB_COMPACT = ''compact''"

datatype db_rno =
    DB_NORET | DB_ERR | DB_OUT_MEM | DB_INVALID_PARMS | DB_CONNECT_ERR | DB_NOT_FOUND | DB_SET_OK
  | DB_GET_OK | DB_DEL_OK | DB_SCAN_OK | DB_NO_EXIST | DB_EXIST | DB_MULTI_GET_OK | DB_MULTI_SET_OK
  | DB_MULTI_DEL_OK | DB_FLUSHDB_OK | DB_DBSIZE_OK

definition dbret_str :: "string list" where
  "dbret_str = [''unknown err'', ''database err'', ''no enough mem'', ''invalid parms'',
     ''connect database err'', ''key not found'', ''set success'', ''get success'', ''del success'',
     ''scan success'', ''key donnot exists'', ''key exists'', ''multi get success'',
     ''multi set success'', ''multi del success'', ''flushdb success'', ''dbsize success'', ''invalid errno'']"

definition dberr :: "u16 \<Rightarrow> string" where
  "dberr dbrno = (if 17 \<le> unat dbrno then dbret_str ! 0 else dbret_str ! unat dbrno)"

text \<open>A pointer of a result: into the buffer of the reply, or to a block of its own.\<close>

datatype db_ptr = P_Null | P_Buf nat | P_Own string | P_Freed

record db_kv =
  kv_key :: db_ptr
  kv_key_len :: int
  kv_val :: db_ptr
  kv_val_len :: int

definition kv_zero :: db_kv where
  "kv_zero = \<lparr>kv_key = P_Null, kv_key_len = 0, kv_val = P_Null, kv_val_len = 0\<rparr>"

text \<open>\<open>db_own_key\<close> is the bit \<open>FREE_KVS_0_KEY\<close> of \<open>src.sts\<close>.\<close>

record db_res =
  db_kvn :: u16
  db_rno :: db_rno
  db_own_key :: bool
  db_buf :: "string option"
  db_kvs :: "db_kv list option"

definition db_zero :: db_res where
  "db_zero = \<lparr>db_kvn = 0, db_rno = DB_NORET, db_own_key = False, db_buf = None, db_kvs = None\<rparr>"

section \<open>Taking a reply apart\<close>

definition wr :: "string \<Rightarrow> int \<Rightarrow> char \<Rightarrow> string res" where
  "wr buf i c = (if 0 \<le> i \<and> i < int (length buf) then Inr (buf[nat i := c]) else Inl Out_Of_Bounds)"

text \<open>\<open>memchr(buf + p, '\n', n)\<close>; a negative count is a huge one.\<close>

definition memchr_nl :: "string \<Rightarrow> nat \<Rightarrow> int \<Rightarrow> nat option res" where
  "memchr_nl buf p n =
     (let bs = (if n < 0 then drop p buf else take (nat n) (drop p buf)) in
      if NL \<in> set bs then Inr (Some (p + length (takeWhile (\<lambda>c. c \<noteq> NL) bs)))
      else if n < 0 \<or> int (length buf) < int p + n then Inl Out_Of_Bounds
      else Inr None)"

definition dbatoi :: "string \<Rightarrow> nat \<Rightarrow> int res" where
  "dbatoi buf p =
     res_bind (rd buf p) (\<lambda>c.
       if \<not> is_digit_c c then Inr (- 1)
       else if list_all is_digit_c (drop p buf) then Inl Out_Of_Bounds
       else Inr (sint (atoi (drop p buf))))"

fun numlen_loop :: "nat \<Rightarrow> nat" where
  "numlen_loop tmp = (if tmp = 0 then 0 else Suc (numlen_loop (tmp div 10)))"

definition dbnumlen :: "int \<Rightarrow> nat res" where
  "dbnumlen num =
     (if num = 0 then Inr 1 else if num < 0 then Inl Assert_Failed else Inr (numlen_loop (nat num)))"

text \<open>The offset after a block: its number, a newline, the bytes and a newline.\<close>

definition skip_block :: "string \<Rightarrow> nat \<Rightarrow> nat res" where
  "skip_block buf p =
     res_bind (dbatoi buf p) (\<lambda>v. res_bind (dbnumlen v) (\<lambda>l. Inr (p + l + nat v + 2)))"

lemma skip_block_gt: "skip_block buf p = Inr q \<Longrightarrow> p < q"
  by (auto simp: skip_block_def)

function dbcountkv :: "string \<Rightarrow> nat \<Rightarrow> int \<Rightarrow> nat \<Rightarrow> u32 \<Rightarrow> u32 res" where
  "dbcountkv buf base buf_len pk cnt =
     (if int pk - int base < buf_len - 1 then
        (case skip_block buf pk of
           Inl e \<Rightarrow> Inl e
         | Inr pv \<Rightarrow>
             (case skip_block buf pv of
                Inl e \<Rightarrow> Inl e
              | Inr pk' \<Rightarrow> dbcountkv buf base buf_len pk' (cnt + 1)))
      else Inr cnt)"
  by pat_completeness auto
termination
  by (relation "measure (\<lambda>(buf, base, n, pk, cnt). nat (n + int base - int pk))") (auto dest!: skip_block_gt)

text \<open>One block of a pair: its length, where its bytes are, and the buffer with the terminator behind them.\<close>

definition split_block :: "string \<Rightarrow> nat \<Rightarrow> (nat \<times> int \<times> string) res" where
  "split_block buf p =
     res_bind (dbatoi buf p) (\<lambda>v.
     res_bind (dbnumlen v) (\<lambda>l.
     res_bind (wr buf (int (p + l + 1) + v) NUL) (\<lambda>buf. Inr (p + l + 1, v, buf))))"

lemma split_block_next: "split_block buf p = Inr (q, v, b) \<Longrightarrow> p < q + nat v + 1"
  by (auto simp: split_block_def)

function splitkv_loop :: "nat \<Rightarrow> int \<Rightarrow> nat \<Rightarrow> nat \<Rightarrow> string \<Rightarrow> db_kv list \<Rightarrow> (string \<times> db_kv list) res" where
  "splitkv_loop base buf_len kvn pk buf kvs =
     (if int pk - int base < buf_len - 1 then
        (if length kvs < kvn then
           (case split_block buf pk of
              Inl e \<Rightarrow> Inl e
            | Inr (key, key_len, buf) \<Rightarrow>
                (case split_block buf (key + nat key_len + 1) of
                   Inl e \<Rightarrow> Inl e
                 | Inr (val, val_len, buf) \<Rightarrow>
                     splitkv_loop base buf_len kvn (val + nat val_len + 1) buf
                       (kvs @ [\<lparr>kv_key = P_Buf key, kv_key_len = key_len, kv_val = P_Buf val, kv_val_len = val_len\<rparr>])))
         else Inl Out_Of_Bounds)
      else Inr (buf, kvs))"
  by pat_completeness auto
termination
  by (relation "measure (\<lambda>(base, n, kvn, pk, buf, kvs). nat (n + int base - int pk))") (auto dest!: split_block_next)

definition dbsplitkv :: "bool \<Rightarrow> string \<Rightarrow> nat \<Rightarrow> int \<Rightarrow> db_rno \<Rightarrow> db_res \<Rightarrow> db_res res" where
  "dbsplitkv mem buf base buf_len init_state db =
     res_bind (dbcountkv buf base buf_len base 0) (\<lambda>kvn.
       if \<not> mem then Inr (db\<lparr>db_kvs := None, db_rno := (if kvn = 0 then init_state else DB_OUT_MEM), db_buf := Some buf\<rparr>)
       else res_bind (splitkv_loop base buf_len (unat kvn) base buf []) (\<lambda>(buf, kvs).
         Inr (db\<lparr>db_kvs := Some kvs, db_kvn := of_nat (length kvs), db_rno := init_state, db_buf := Some buf\<rparr>)))"

text \<open>What \<open>p = memchr(...); p++\<close> points to; a NULL that was incremented faults when it is followed.\<close>

definition after_nl :: "string \<Rightarrow> nat \<Rightarrow> int \<Rightarrow> nat option res" where
  "after_nl buf p n = res_bind (memchr_nl buf p n) (\<lambda>r. Inr (map_option Suc r))"

definition set_kv0_val :: "nat \<Rightarrow> int \<Rightarrow> db_res \<Rightarrow> db_res res" where
  "set_kv0_val val len db =
     (case db_kvs db of
        Some (kv # kvs) \<Rightarrow> Inr (db\<lparr>db_kvs := Some (kv\<lparr>kv_val := P_Buf val, kv_val_len := len\<rparr> # kvs), db_kvn := db_kvn db + 1\<rparr>)
      | Some [] \<Rightarrow> Inl Out_Of_Bounds
      | None \<Rightarrow> Inl Null_Deref)"

text \<open>The single value of \<open>get\<close> and \<open>dbsize\<close>, and the number \<open>multi_set\<close> and \<open>multi_del\<close> answer with.\<close>

definition reply_value :: "string \<Rightarrow> nat \<Rightarrow> int \<Rightarrow> db_rno \<Rightarrow> db_res \<Rightarrow> db_res res" where
  "reply_value buf p rcv_len rno db =
     res_bind (dbatoi buf p) (\<lambda>len.
     res_bind (after_nl buf p (rcv_len - int p)) (\<lambda>q.
     case q of
       None \<Rightarrow> Inl Null_Deref
     | Some p \<Rightarrow>
         res_bind (wr buf (int p + len) NUL) (\<lambda>buf.
           set_kv0_val p len (db\<lparr>db_rno := rno, db_buf := Some buf\<rparr>))))"

definition reply_count :: "string \<Rightarrow> nat \<Rightarrow> int \<Rightarrow> db_rno \<Rightarrow> db_res \<Rightarrow> db_res res" where
  "reply_count buf p rcv_len rno db =
     res_bind (after_nl buf p (rcv_len - int p)) (\<lambda>q.
     case q of
       None \<Rightarrow> Inl Null_Deref
     | Some p \<Rightarrow>
         res_bind (dbatoi buf p) (\<lambda>n.
           Inr (db\<lparr>db_rno := (if int (unat (db_kvn db)) \<noteq> n then DB_ERR else rno), db_kvn := 0\<rparr>)))"

definition reply_data :: "bool \<Rightarrow> db_cmd \<Rightarrow> string \<Rightarrow> nat \<Rightarrow> int \<Rightarrow> db_res \<Rightarrow> db_res res" where
  "reply_data mem cmd buf p rcv_len db =
     (case cmd of
        DB_GET \<Rightarrow> reply_value buf p rcv_len DB_GET_OK db
      | DB_MULTI_GET \<Rightarrow> dbsplitkv mem buf p (rcv_len - int p) DB_MULTI_GET_OK db
      | DB_DEL \<Rightarrow> Inr (db\<lparr>db_rno := DB_DEL_OK\<rparr>)
      | DB_SET \<Rightarrow>
          res_bind (dbatoi buf p) (\<lambda>len.
          res_bind (after_nl buf p (rcv_len - int p)) (\<lambda>_.
            Inr (db\<lparr>db_rno := (if len \<noteq> 1 then DB_ERR else DB_SET_OK)\<rparr>)))
      | DB_MULTI_SET \<Rightarrow> reply_count buf p rcv_len DB_MULTI_SET_OK db
      | DB_MULTI_DEL \<Rightarrow> reply_count buf p rcv_len DB_MULTI_DEL_OK db
      | DB_EXISTS \<Rightarrow>
          res_bind (dbatoi buf p) (\<lambda>a.
            if a \<noteq> 1 then Inr (db\<lparr>db_rno := DB_NO_EXIST\<rparr>)
            else res_bind (dbatoi buf (p + 2)) (\<lambda>b. Inr (db\<lparr>db_rno := (if b = 1 then DB_EXIST else DB_NO_EXIST)\<rparr>)))
      | DB_SCAN \<Rightarrow> dbsplitkv mem buf p (rcv_len - int p) DB_SCAN_OK db
      | DB_FLUSHDB \<Rightarrow> Inr (db\<lparr>db_rno := DB_FLUSHDB_OK\<rparr>)
      | DB_DBSIZE \<Rightarrow> reply_value buf p rcv_len DB_DBSIZE_OK db
      | _ \<Rightarrow> Inr db)"

text \<open>The status: the number to report, and whether to stop.\<close>

definition reply_status :: "int \<Rightarrow> string \<Rightarrow> db_rno \<Rightarrow> db_rno \<times> bool" where
  "reply_status len msg rno =
     (if len = 2 then (if strneq msg ''ok'' 2 then (rno, False) else (DB_NORET, True))
      else if len = 9 then (if strneq msg ''not_found'' 9 then (DB_NOT_FOUND, True) else (DB_NORET, True))
      else (DB_NORET, False))"

definition free_kv0_key :: "db_res \<Rightarrow> db_res res" where
  "free_kv0_key db =
     (case db_kvs db of
        Some (kv # kvs) \<Rightarrow> Inr (db\<lparr>db_kvs := Some (kv\<lparr>kv_key := P_Freed\<rparr> # kvs), db_own_key := False\<rparr>)
      | Some [] \<Rightarrow> Inl Out_Of_Bounds
      | None \<Rightarrow> Inl Null_Deref)"

definition dbphrase :: "bool \<Rightarrow> string \<Rightarrow> int \<Rightarrow> db_res \<Rightarrow> db_cmd \<Rightarrow> db_res res" where
  "dbphrase mem buf rcv_len db cmd =
     res_bind (dbatoi buf 0) (\<lambda>len.
       if len \<le> 0 then Inr (db\<lparr>db_rno := DB_ERR\<rparr>)
       else res_bind (after_nl buf 0 rcv_len) (\<lambda>q.
         case q of
           None \<Rightarrow> Inl Null_Deref
         | Some p \<Rightarrow>
             let n = (if 128 \<le> len then 127 else nat len) in
             if length buf < p + n then Inl Out_Of_Bounds
             else
               let (rno, flag) = reply_status len (take n (drop p buf)) (db_rno db);
                   db = db\<lparr>db_rno := rno\<rparr>
               in if flag then (if cmd = DB_GET then free_kv0_key db else Inr db)
                  else reply_data mem cmd buf (p + nat len + 1) rcv_len db))"

section \<open>The format\<close>

definition ssdb_block :: "string \<Rightarrow> string" where
  "ssdb_block s = dec_string (length s) @ NL # s @ [NL]"

definition ssdb_packet :: "string list \<Rightarrow> string" where
  "ssdb_packet bs = concat (map ssdb_block bs) @ [NL]"

text \<open>Reading it: the number up to the newline, that many bytes, a newline; an empty line ends the message.\<close>

function ssdb_parse :: "string \<Rightarrow> string list option" where
  "ssdb_parse s =
     (if s = [NL] then Some []
      else
        let d = takeWhile is_digit_c s; n = digits_val 0 d; r = drop (length d + 1) s in
        if d \<noteq> [] \<and> length d < length s \<and> s ! length d = NL \<and> n < length r \<and> r ! n = NL
        then map_option (\<lambda>bs. take n r # bs) (ssdb_parse (drop (n + 1) r))
        else None)"
  by pat_completeness auto
termination by (relation "measure length") auto

declare ssdb_parse.simps [simp del] numlen_loop.simps [simp del]

lemma not_digit_NL [simp]: "\<not> is_digit_c NL"
  by code_simp

declare dec_string_ne [simp]

lemma digits_val_dec_NL: "digits_val 0 (dec_string n @ NL # r) = n"
  by (simp add: digits_val_append dec_string_all_digits digits_val_dec_string)

lemma numlen_dec: "0 < n \<Longrightarrow> numlen_loop n = length (dec_string n)"
proof (induction n rule: dec_string.induct)
  case (1 n)
  then show ?case
    by (cases "n < 10") (simp_all add: dec_string.simps [of n] numlen_loop.simps [of n] numlen_loop.simps [of 0])
qed

lemma dbnumlen_dec: "dbnumlen (int n) = Inr (length (dec_string n))"
proof (cases "n = 0")
  case True
  have "length (dec_string 0) = 1" by (subst dec_string.simps) simp
  with True show ?thesis by (simp add: dbnumlen_def)
qed (simp add: dbnumlen_def numlen_dec)

lemma takeWhile_dec: "takeWhile is_digit_c (dec_string n @ NL # r) = dec_string n"
  using dec_string_all_digits [of n] by (simp add: takeWhile_append2 list_all_iff)

lemma dbatoi_dec:
  assumes "n < 2 ^ 31"
  shows "dbatoi (pre @ dec_string n @ NL # r) (length pre) = Inr (int n)"
proof -
  obtain c cs where c: "dec_string n = c # cs" by (cases "dec_string n") auto
  then have "is_digit_c c" using dec_string_all_digits [of n] by simp
  with c atoi_dec_rest [OF assms, of "NL # r"] show ?thesis by (simp add: dbatoi_def rd_def nth_append cat_def)
qed

lemma ssdb_parse_packet: "ssdb_parse (ssdb_packet bs) = Some bs"
proof (induction bs)
  case Nil
  then show ?case by (simp add: ssdb_packet_def ssdb_parse.simps)
next
  case (Cons b bs)
  let ?r = "b @ NL # ssdb_packet bs"
  have e: "ssdb_packet (b # bs) = dec_string (length b) @ NL # ?r" by (simp add: ssdb_packet_def ssdb_block_def)
  have "ssdb_packet (b # bs) \<noteq> [NL]" unfolding e by (cases "dec_string (length b)") auto
  then show ?case
    using Cons.IH takeWhile_dec [of "length b" ?r] unfolding e
    by (subst ssdb_parse.simps) (simp add: Let_def nth_append digits_val_dec_string)
qed

section \<open>Replies\<close>

text \<open>A block in the buffer before and after its end has been overwritten with a terminator.\<close>

definition cut_block :: "string \<Rightarrow> string" where
  "cut_block s = dec_string (length s) @ NL # s @ [NUL]"

lemma length_blocks: "length (cut_block s) = length (ssdb_block s)"
  by (simp add: cut_block_def ssdb_block_def)

lemma skip_block_at:
  assumes "length b < 2 ^ 31"
  shows "skip_block (pre @ ssdb_block b @ r) (length pre) = Inr (length pre + length (ssdb_block b))"
  using dbatoi_dec [OF assms, of pre "b @ NL # r"] dbnumlen_dec
  by (simp add: skip_block_def ssdb_block_def)

lemma split_block_at:
  assumes "length b < 2 ^ 31"
  shows "split_block (pre @ ssdb_block b @ r) (length pre)
    = Inr (length pre + length (dec_string (length b)) + 1, int (length b), pre @ cut_block b @ r)"
  using dbatoi_dec [OF assms, of pre "b @ NL # r"] dbnumlen_dec
  by (simp add: split_block_def ssdb_block_def cut_block_def wr_def nat_add_distrib list_update_append)

definition pair_blocks :: "(string \<Rightarrow> string) \<Rightarrow> (string \<times> string) list \<Rightarrow> string" where
  "pair_blocks f kvs = concat (map (\<lambda>(k, v). f k @ f v) kvs)"

lemma pair_blocks_simps [simp]:
  "pair_blocks f [] = []" "pair_blocks f ((k, v) # kvs) = f k @ f v @ pair_blocks f kvs"
  by (simp_all add: pair_blocks_def)

lemma pair_blocks_packet: "ssdb_packet (concat (map (\<lambda>(k, v). [k, v]) kvs)) = pair_blocks ssdb_block kvs @ [NL]"
  by (induction kvs) (auto simp: ssdb_packet_def)

lemma ssdb_block_pos: "0 < length (ssdb_block b)"
  by (simp add: ssdb_block_def)

declare dbcountkv.simps [simp del] splitkv_loop.simps [simp del]

lemma dbcountkv_ok:
  assumes "base \<le> length pre" "n = int (length (pre @ pair_blocks ssdb_block kvs @ [NL])) - int base"
    and "\<forall>(k, v) \<in> set kvs. length k < 2 ^ 31 \<and> length v < 2 ^ 31"
  shows "dbcountkv (pre @ pair_blocks ssdb_block kvs @ NL # pad) base n (length pre) cnt = Inr (cnt + of_nat (length kvs))"
  using assms
proof (induction kvs arbitrary: pre cnt)
  case Nil
  then show ?case by (simp add: dbcountkv.simps)
next
  case (Cons kv kvs)
  obtain k v where kv: "kv = (k, v)" by (cases kv)
  let ?r = "pair_blocks ssdb_block kvs @ NL # pad"
  let ?p1 = "pre @ ssdb_block k" and ?p2 = "pre @ ssdb_block k @ ssdb_block v"
  have "length k < 2 ^ 31" "length v < 2 ^ 31" using Cons.prems(3) kv by auto
  with skip_block_at [of k pre "ssdb_block v @ ?r"] skip_block_at [of v ?p1 ?r]
  have s: "skip_block (pre @ ssdb_block k @ ssdb_block v @ ?r) (length pre) = Inr (length ?p1)"
    "skip_block (pre @ ssdb_block k @ ssdb_block v @ ?r) (length ?p1) = Inr (length ?p2)" by simp_all
  have "dbcountkv (?p2 @ ?r) base n (length ?p2) (cnt + 1) = Inr (cnt + 1 + of_nat (length kvs))"
    using Cons.IH [of ?p2 "cnt + 1"] Cons.prems kv by simp
  moreover have "int (length pre) - int base < n - 1" using Cons.prems(2) kv ssdb_block_pos [of k] by (simp del: length_greater_0_conv)
  ultimately show ?case using s kv by (subst dbcountkv.simps) simp
qed

text \<open>Where the keys and values are.\<close>

fun kv_entries :: "nat \<Rightarrow> (string \<times> string) list \<Rightarrow> db_kv list" where
  "kv_entries p [] = []"
| "kv_entries p ((k, v) # kvs) =
     (let q = p + length (ssdb_block k) in
      \<lparr>kv_key = P_Buf (p + length (dec_string (length k)) + 1), kv_key_len = int (length k),
       kv_val = P_Buf (q + length (dec_string (length v)) + 1), kv_val_len = int (length v)\<rparr>
      # kv_entries (q + length (ssdb_block v)) kvs)"

lemma length_kv_entries [simp]: "length (kv_entries p kvs) = length kvs"
  by (induction kvs arbitrary: p) (auto simp: Let_def)

lemma splitkv_loop_ok:
  assumes "base \<le> length pre" "n = int (length (pre @ pair_blocks ssdb_block kvs @ [NL])) - int base"
    and "\<forall>(k, v) \<in> set kvs. length k < 2 ^ 31 \<and> length v < 2 ^ 31" "length acc + length kvs \<le> kvn"
  shows "splitkv_loop base n kvn (length pre) (pre @ pair_blocks ssdb_block kvs @ NL # pad) acc
    = Inr (pre @ pair_blocks cut_block kvs @ NL # pad, acc @ kv_entries (length pre) kvs)"
  using assms
proof (induction kvs arbitrary: pre acc)
  case Nil
  then show ?case by (simp add: splitkv_loop.simps)
next
  case (Cons kv kvs)
  obtain k v where kv: "kv = (k, v)" by (cases kv)
  let ?r = "pair_blocks ssdb_block kvs @ NL # pad"
  let ?p1 = "pre @ cut_block k" and ?p2 = "pre @ cut_block k @ cut_block v"
  define q1 q2 where "q1 = length pre + length (dec_string (length k)) + 1"
    and "q2 = length ?p1 + length (dec_string (length v)) + 1"
  define e where "e = \<lparr>kv_key = P_Buf q1, kv_key_len = int (length k), kv_val = P_Buf q2, kv_val_len = int (length v)\<rparr>"
  have "length k < 2 ^ 31" "length v < 2 ^ 31" using Cons.prems(3) kv by auto
  with split_block_at [of k pre "ssdb_block v @ ?r"] split_block_at [of v ?p1 ?r]
  have s: "split_block (pre @ ssdb_block k @ ssdb_block v @ ?r) (length pre) = Inr (q1, int (length k), ?p1 @ ssdb_block v @ ?r)"
    "split_block (?p1 @ ssdb_block v @ ?r) (length ?p1) = Inr (q2, int (length v), ?p2 @ ?r)"
    by (simp_all add: q1_def q2_def)
  have l: "q1 + nat (int (length k)) + 1 = length ?p1" "q2 + nat (int (length v)) + 1 = length ?p2"
    by (simp_all add: q1_def q2_def cut_block_def)
  have c: "int (length pre) - int base < n - 1" "length acc < kvn"
    using Cons.prems(2,4) kv ssdb_block_pos [of k] by (simp_all del: length_greater_0_conv)
  have b: "pre @ pair_blocks ssdb_block (kv # kvs) @ NL # pad = pre @ ssdb_block k @ ssdb_block v @ ?r" by (simp add: kv)
  have "splitkv_loop base n kvn (length pre) (pre @ pair_blocks ssdb_block (kv # kvs) @ NL # pad) acc
      = splitkv_loop base n kvn (length ?p2) (?p2 @ ?r) (acc @ [e])"
    unfolding b by (subst splitkv_loop.simps) (simp only: c if_True s sum.case prod.case l e_def)
  also have "\<dots> = Inr (?p2 @ pair_blocks cut_block kvs @ NL # pad, (acc @ [e]) @ kv_entries (length ?p2) kvs)"
    using Cons.IH [of ?p2 "acc @ [e]"] Cons.prems kv by (simp add: length_blocks)
  also have "e # kv_entries (length ?p2) kvs = kv_entries (length pre) (kv # kvs)"
    by (simp add: e_def kv Let_def length_blocks q1_def q2_def add.assoc)
  then have "(acc @ [e]) @ kv_entries (length ?p2) kvs = acc @ kv_entries (length pre) (kv # kvs)" by simp
  finally show ?case by (simp add: kv)
qed

text \<open>What a pointer of a result reads.\<close>

definition text_at :: "string option \<Rightarrow> db_ptr \<Rightarrow> int \<Rightarrow> string option" where
  "text_at buf p len =
     (case p of P_Buf i \<Rightarrow> map_option (\<lambda>b. take (nat len) (drop i b)) buf
      | P_Own s \<Rightarrow> Some (take (nat len) s) | _ \<Rightarrow> None)"

definition pair_at :: "string option \<Rightarrow> db_kv \<Rightarrow> (string option \<times> string option)" where
  "pair_at buf kv = (text_at buf (kv_key kv) (kv_key_len kv), text_at buf (kv_val kv) (kv_val_len kv))"

lemma text_at_cut:
  "text_at (Some (pre @ cut_block k @ r)) (P_Buf (length pre + length (dec_string (length k)) + 1)) (int (length k)) = Some k"
  by (simp add: text_at_def cut_block_def)

lemma kv_entries_read:
  "map (pair_at (Some (pre @ pair_blocks cut_block kvs @ r))) (kv_entries (length pre) kvs)
   = map (\<lambda>(k, v). (Some k, Some v)) kvs"
proof (induction kvs arbitrary: pre)
  case (Cons kv kvs)
  obtain k v where kv: "kv = (k, v)" by (cases kv)
  have l: "length pre + length (ssdb_block k) + length (ssdb_block v) = length (pre @ cut_block k @ cut_block v)"
    "length pre + length (ssdb_block k) = length (pre @ cut_block k)"
    by (simp_all add: length_blocks)
  show ?case
    unfolding kv kv_entries.simps Let_def l
    using Cons.IH [of "pre @ cut_block k @ cut_block v"] text_at_cut [of pre k "cut_block v @ pair_blocks cut_block kvs @ r"]
      text_at_cut [of "pre @ cut_block k" v "pair_blocks cut_block kvs @ r"]
    by (simp add: pair_at_def length_blocks add.assoc)
qed simp

lemma dbsplitkv_ok:
  assumes "n = int (length (pair_blocks ssdb_block kvs @ [NL]))" "n < 2 ^ 31"
  shows "dbsplitkv True (pre @ pair_blocks ssdb_block kvs @ NL # pad) (length pre) n st db
    = Inr (db\<lparr>db_kvs := Some (kv_entries (length pre) kvs), db_kvn := of_nat (length kvs), db_rno := st,
             db_buf := Some (pre @ pair_blocks cut_block kvs @ NL # pad)\<rparr>)"
proof -
  have part: "length k < length (pair_blocks ssdb_block kvs) \<and> length v < length (pair_blocks ssdb_block kvs)"
    if "(k, v) \<in> set kvs" for k v
    using that by (induction kvs) (auto simp: ssdb_block_def)
  have l: "\<forall>(k, v) \<in> set kvs. length k < 2 ^ 31 \<and> length v < 2 ^ 31"
    using assms by (fastforce dest: part)
  have "length kvs \<le> length (pair_blocks ssdb_block kvs)"
    by (induction kvs) (auto simp: ssdb_block_def)
  then have "length kvs < 2 ^ 32" using assms by simp
  then have u: "unat (of_nat (length kvs) :: u32) = length kvs" by (rule unat_of_nat32)
  have "dbcountkv (pre @ pair_blocks ssdb_block kvs @ NL # pad) (length pre) n (length pre) 0 = Inr (of_nat (length kvs))"
    using dbcountkv_ok [of "length pre" pre n kvs pad 0] assms(1) l by simp
  moreover have "splitkv_loop (length pre) n (length kvs) (length pre) (pre @ pair_blocks ssdb_block kvs @ NL # pad) []
      = Inr (pre @ pair_blocks cut_block kvs @ NL # pad, kv_entries (length pre) kvs)"
    using splitkv_loop_ok [of "length pre" pre n kvs "[]" "length kvs" pad] assms(1) l by simp
  ultimately show ?thesis by (simp add: dbsplitkv_def u)
qed

text \<open>The first newline behind a number ends the number.\<close>

lemma after_nl_dec:
  assumes "length pre + length (dec_string n) < m" "m \<le> length (pre @ dec_string n @ NL # r)"
  shows "after_nl (pre @ dec_string n @ NL # r) (length pre) (int m - int (length pre)) = Inr (Some (length pre + length (dec_string n) + 1))"
proof -
  define k where "k = m - length pre - length (dec_string n) - 1"
  have "take (nat (int m - int (length pre))) (dec_string n @ NL # r) = dec_string n @ NL # take k r"
    using assms(1) by (simp add: k_def nat_diff_distrib take_Cons')
  moreover have "takeWhile (\<lambda>c. c \<noteq> NL) (dec_string n @ NL # take k r) = dec_string n"
    using dec_string_all_digits [of n] not_digit_NL by (subst takeWhile_append2) (auto simp: list_all_iff)
  ultimately show ?thesis using assms(1) by (simp add: after_nl_def memchr_nl_def Let_def)
qed

lemma dbphrase_packet:
  assumes "st \<noteq> []" "length st < 2 ^ 31"
  shows "dbphrase mem (ssdb_packet (st # bs) @ pad) (int (length (ssdb_packet (st # bs)))) db cmd =
    (let (rno, flag) = reply_status (int (length st)) (take 127 st) (db_rno db); db = db\<lparr>db_rno := rno\<rparr> in
     if flag then (if cmd = DB_GET then free_kv0_key db else Inr db)
     else reply_data mem cmd (ssdb_packet (st # bs) @ pad) (length (ssdb_block st)) (int (length (ssdb_packet (st # bs)))) db)"
proof -
  let ?r = "st @ NL # ssdb_packet bs"
  have e: "ssdb_packet (st # bs) = dec_string (length st) @ NL # ?r" by (simp add: ssdb_packet_def ssdb_block_def)
  have a: "dbatoi (ssdb_packet (st # bs) @ pad) 0 = Inr (int (length st))"
    using dbatoi_dec [OF assms(2), of "[]" "?r @ pad"] e by simp
  have n: "after_nl (ssdb_packet (st # bs) @ pad) 0 (int (length (ssdb_packet (st # bs)))) = Inr (Some (length (dec_string (length st)) + 1))"
    using after_nl_dec [of "[]" "length st" "length (ssdb_packet (st # bs))" "?r @ pad"] e by simp
  have t: "take (if 128 \<le> int (length st) then 127 else nat (int (length st))) (drop (length (dec_string (length st)) + 1)
      (ssdb_packet (st # bs) @ pad)) = take 127 st"
    using e by (cases "128 \<le> length st") simp_all
  have p: "length (dec_string (length st)) + 1 + nat (int (length st)) + 1 = length (ssdb_block st)"
    by (simp add: ssdb_block_def)
  have f: "\<not> length (ssdb_packet (st # bs) @ pad)
      < length (dec_string (length st)) + 1 + (if 128 \<le> int (length st) then 127 else nat (int (length st)))"
    using e by (cases "128 \<le> length st") simp_all
  have z: "\<not> int (length st) \<le> 0" using assms(1) by simp
  show ?thesis
    unfolding dbphrase_def a n res_bind_simps option.case Let_def t p if_not_P [OF f] if_not_P [OF z] ..
qed

lemma reply_status_ok: "reply_status 2 ''ok'' rno = (rno, False)"
  by (simp add: reply_status_def strneq_def)

lemma dbphrase_ok:
  "dbphrase mem (ssdb_packet (''ok'' # bs) @ pad) (int (length (ssdb_packet (''ok'' # bs)))) db cmd
   = reply_data mem cmd (ssdb_packet (''ok'' # bs) @ pad) (length (ssdb_block ''ok'')) (int (length (ssdb_packet (''ok'' # bs)))) db"
  by (subst dbphrase_packet) (simp_all add: reply_status_ok)

lemma packet_pairs:
  "ssdb_packet (st # concat (map (\<lambda>(k, v). [k, v]) kvs)) = ssdb_block st @ pair_blocks ssdb_block kvs @ [NL]"
  using pair_blocks_packet [of kvs] by (simp add: ssdb_packet_def)

lemma reply_pairs:
  assumes "cmd = DB_MULTI_GET \<and> st = DB_MULTI_GET_OK \<or> cmd = DB_SCAN \<and> st = DB_SCAN_OK"
    and "int (length (ssdb_packet (''ok'' # concat (map (\<lambda>(k, v). [k, v]) kvs)))) < 2 ^ 31"
  defines "p \<equiv> ssdb_packet (''ok'' # concat (map (\<lambda>(k, v). [k, v]) kvs))"
  shows "dbphrase True (p @ pad) (int (length p)) db cmd
    = Inr (db\<lparr>db_kvs := Some (kv_entries (length (ssdb_block ''ok'')) kvs), db_kvn := of_nat (length kvs), db_rno := st,
             db_buf := Some (ssdb_block ''ok'' @ pair_blocks cut_block kvs @ NL # pad)\<rparr>)"
proof -
  have "dbphrase True (p @ pad) (int (length p)) db cmd
      = dbsplitkv True (p @ pad) (length (ssdb_block ''ok'')) (int (length p) - int (length (ssdb_block ''ok''))) st db"
    unfolding p_def dbphrase_ok using assms(1) by (auto simp: reply_data_def)
  also have "\<dots> = Inr (db\<lparr>db_kvs := Some (kv_entries (length (ssdb_block ''ok'')) kvs), db_kvn := of_nat (length kvs), db_rno := st,
             db_buf := Some (ssdb_block ''ok'' @ pair_blocks cut_block kvs @ NL # pad)\<rparr>)"
    using dbsplitkv_ok [of "int (length p) - int (length (ssdb_block ''ok''))" kvs "ssdb_block ''ok''" pad st db] assms(2)
    unfolding p_def packet_pairs by simp
  finally show ?thesis .
qed

lemma reply_one:
  assumes "cmd = DB_GET \<and> st = DB_GET_OK \<or> cmd = DB_DBSIZE \<and> st = DB_DBSIZE_OK" "db_kvs db = Some (kv # kvs)"
    and "length v < 2 ^ 31"
  defines "p \<equiv> ssdb_packet [''ok'', v]"
  shows "\<exists>db'. dbphrase mem (p @ pad) (int (length p)) db cmd = Inr db' \<and> db_rno db' = st \<and> db_kvn db' = db_kvn db + 1
    \<and> db_own_key db' = db_own_key db \<and> length (the (db_buf db')) = length (p @ pad)
    \<and> (\<exists>kv'. db_kvs db' = Some (kv' # kvs) \<and> kv_key kv' = kv_key kv \<and> kv_key_len kv' = kv_key_len kv
          \<and> text_at (db_buf db') (kv_val kv') (kv_val_len kv') = Some v)"
proof -
  let ?b = "ssdb_block ''ok''"
  have e: "p @ pad = ?b @ dec_string (length v) @ NL # v @ NL # NL # pad" by (simp add: p_def ssdb_packet_def ssdb_block_def)
  have "dbphrase mem (p @ pad) (int (length p)) db cmd = reply_value (p @ pad) (length ?b) (int (length p)) st db"
    unfolding p_def dbphrase_ok using assms(1) by (auto simp: reply_data_def)
  moreover have "dbatoi (p @ pad) (length ?b) = Inr (int (length v))"
    unfolding e by (rule dbatoi_dec [OF assms(3)])
  moreover have "after_nl (p @ pad) (length ?b) (int (length p) - int (length ?b)) = Inr (Some (length ?b + length (dec_string (length v)) + 1))"
    unfolding e by (rule after_nl_dec) (simp_all add: p_def ssdb_packet_def ssdb_block_def)
  moreover have "wr (p @ pad) (int (length ?b + length (dec_string (length v)) + 1) + int (length v)) NUL
      = Inr (?b @ cut_block v @ NL # pad)"
    unfolding e by (simp add: wr_def cut_block_def nat_add_distrib list_update_append)
  ultimately have "dbphrase mem (p @ pad) (int (length p)) db cmd
      = set_kv0_val (length ?b + length (dec_string (length v)) + 1) (int (length v)) (db\<lparr>db_rno := st, db_buf := Some (?b @ cut_block v @ NL # pad)\<rparr>)"
    by (simp add: reply_value_def)
  with text_at_cut [of ?b v "NL # pad"] assms(2) show ?thesis
    by (simp add: set_kv0_val_def p_def ssdb_packet_def ssdb_block_def cut_block_def)
qed

section \<open>Properties\<close>

text \<open>
  C38: a reply to \<open>multi_get\<close> or \<open>scan\<close> that carries pairs of keys and values, of any bytes, newlines and
  terminators included, is taken apart into exactly these pairs, in order: the pointers and lengths of
  the result read them in the buffer, whatever follows the reply there.
\<close>

theorem db_reply_pairs:
  assumes "cmd = DB_MULTI_GET \<and> st = DB_MULTI_GET_OK \<or> cmd = DB_SCAN \<and> st = DB_SCAN_OK"
    and "p = ssdb_packet (''ok'' # concat (map (\<lambda>(k, v). [k, v]) kvs))" "length p < 2 ^ 31"
  shows "\<exists>db'. dbphrase True (p @ pad) (int (length p)) db cmd = Inr db' \<and> db_rno db' = st
    \<and> db_kvn db' = of_nat (length kvs)
    \<and> map_option (map (pair_at (db_buf db'))) (db_kvs db') = Some (map (\<lambda>(k, v). (Some k, Some v)) kvs)"
  using reply_pairs [OF assms(1), of kvs pad db] assms(2,3)
    kv_entries_read [of "ssdb_block ''ok''" kvs "NL # pad"] by auto

theorem db_reply_pairs_witness:
  "\<exists>db'. dbphrase True (ssdb_packet [''ok'', ''k'', [NL, NL], ''l'', []] @ ''x'') 22 db_zero DB_MULTI_GET = Inr db'
    \<and> db_kvn db' = 2
    \<and> map_option (map (pair_at (db_buf db'))) (db_kvs db') = Some [(Some ''k'', Some [NL, NL]), (Some ''l'', Some [])]"
proof -
  have l: "length (ssdb_packet [''ok'', ''k'', [NL, NL], ''l'', []]) = 22" by code_simp
  then show ?thesis
    using db_reply_pairs [of DB_MULTI_GET DB_MULTI_GET_OK "ssdb_packet [''ok'', ''k'', [NL, NL], ''l'', []]"
        "[(''k'', [NL, NL]), (''l'', [])]" "''x''" db_zero] by auto
qed

text \<open>
  A status of two characters other than \<open>ok\<close>, and one of nine, ends with no result; but any other
  status, such as \<open>error\<close>, \<open>fail\<close> or \<open>client_error\<close>, is passed over: a deletion and a flush that failed
  report success, and nothing of the reply is looked at.
\<close>

lemma db_unknown_status:
  assumes "st \<noteq> []" "length st \<noteq> 2" "length st \<noteq> 9" "length st < 2 ^ 31"
    and "p = ssdb_packet (st # bs)"
  shows "dbphrase mem (p @ pad) (int (length p)) db DB_DEL = Inr (db\<lparr>db_rno := DB_DEL_OK\<rparr>)
    \<and> dbphrase mem (p @ pad) (int (length p)) db DB_FLUSHDB = Inr (db\<lparr>db_rno := DB_FLUSHDB_OK\<rparr>)"
proof -
  have "reply_status (int (length st)) msg rno = (DB_NORET, False)" for msg rno
    using assms(2,3) by (simp add: reply_status_def)
  then show ?thesis unfolding assms(5) using dbphrase_packet [OF assms(1,4)] by (simp add: reply_data_def)
qed

lemma db_unknown_status_witness:
  "map_option db_rno (case dbphrase True (ssdb_packet [''error'', ''read-only'']) 21 db_zero DB_DEL of Inr db \<Rightarrow> Some db | Inl _ \<Rightarrow> None)
   = Some DB_DEL_OK"
proof -
  have l: "length (ssdb_packet [''error'', ''read-only'']) = 21" by code_simp
  then show ?thesis
    using db_unknown_status [of "''error''" "ssdb_packet [''error'', ''read-only'']" "[''read-only'']" True "[]" db_zero] by simp
qed

end
