(* ===== verification/Db_Client.thy ===== *)
theory Db_Client
  imports Db_Wire Kernel_List
begin

text \<open>
  The client of the SSDB database, \<^verbatim>\<open>TCP_C/db.c\<close>, second part: the pool of connections, sending a request
  and receiving the reply with up to four attempts, and the operations the workers call.

  A connection is allocated, in the chain of its descriptor and, while no request uses it, in the list
  of free ones. The operating system is an argument: for every attempt (record \<open>attempt\<close>) the memory and
  the descriptor it gets, what \<open>connect\<close> and \<open>send\<close> return, and the pieces in which the bytes of the
  reply arrive; when there are no more pieces, \<open>recv\<close> runs into its timeout of one second and fails. A
  system call never transfers more than it was asked to. The locks are left out: each operation runs alone.

  Shown: the pool is consistent after every operation, no connection is lost, no assertion on the pool
  fails, and every descriptor is closed with its connection but that of a failed \<open>connect\<close>; the requests are the messages of the format; a reply that arrives in one piece or several comes
  back as the result; and three ways to write outside a buffer.
\<close>

section \<open>Connections\<close>

record dbconn =
  dc_keepalive :: u64
  dc_fd :: s32
  dc_stat :: u32

record db_state =
  st_addr :: u32
  st_port :: u16
  st_start :: u64
  st_second :: u64
  st_conns :: "addr \<Rightarrow> dbconn option"
  st_pool :: "nat \<Rightarrow> addr list"
  st_pool_count :: int
  st_free :: "addr list"
  st_free_count :: int
  st_fds :: "s32 list"
  st_sent :: "(s32 \<times> string) list"

text \<open>One attempt to get an answer.\<close>

record attempt =
  at_conn :: "addr option"
  at_fd :: s32
  at_connect :: bool
  at_time :: "u64 \<times> u64"
  at_send :: "nat \<Rightarrow> int"
  at_buf :: bool
  at_more :: "nat \<Rightarrow> bool"
  at_fill :: "nat \<Rightarrow> char"
  at_recv :: "string list"

definition DB_BUFLEN :: nat where "DB_BUFLEN = 10240"
definition DB_CONN_KEEP_ALIVE :: u64 where "DB_CONN_KEEP_ALIVE = 600000"

definition DB_HASH_IDX :: "s32 \<Rightarrow> nat" where
  "DB_HASH_IDX fd = unat (fd AND 0xFF)"

definition dbjiffies :: "u64 \<times> u64 \<Rightarrow> db_state \<Rightarrow> u64 \<times> db_state" where
  "dbjiffies tv s =
     (let cc_s = fst tv - st_start s;
          s = (if 2 < cc_s - st_second s
               then s\<lparr>st_second := st_second s + 2, st_start := fst tv - (st_second s + 2)\<rparr>
               else s\<lparr>st_second := cc_s\<rparr>)
      in (if snd tv \<noteq> 0 then snd tv div 1000 + st_second s * 1000 else st_second s * 1000, s))"

definition dbenter_pool_conn_hash :: "addr \<Rightarrow> s32 \<Rightarrow> db_state \<Rightarrow> db_state" where
  "dbenter_pool_conn_hash a fd s =
     s\<lparr>st_pool := (st_pool s)(DB_HASH_IDX fd := a # st_pool s (DB_HASH_IDX fd)), st_pool_count := st_pool_count s + 1\<rparr>"

definition dbpush_free_conn_list :: "addr \<Rightarrow> db_state \<Rightarrow> db_state" where
  "dbpush_free_conn_list a s = s\<lparr>st_free := st_free s @ [a], st_free_count := st_free_count s + 1\<rparr>"

definition dbout_pool_conn_hash :: "addr \<Rightarrow> db_state \<Rightarrow> db_state" where
  "dbout_pool_conn_hash a s =
     s\<lparr>st_pool := (\<lambda>i. removeAll a (st_pool s i)), st_pool_count := st_pool_count s - 1\<rparr>"

definition db_conn_destory :: "addr \<Rightarrow> db_state \<Rightarrow> db_state res" where
  "db_conn_destory a s =
     (case st_conns s a of
        None \<Rightarrow> Inl Use_After_Free
      | Some c \<Rightarrow>
          let s = dbout_pool_conn_hash a s
          in Inr (s\<lparr>st_fds := remove1 (dc_fd c) (st_fds s), st_conns := (st_conns s)(a := None)\<rparr>))"

definition db_new_conn :: "attempt \<Rightarrow> db_state \<Rightarrow> db_state \<times> addr option" where
  "db_new_conn at s =
     (case at_conn at of
        None \<Rightarrow> (s, None)
      | Some a \<Rightarrow>
          if sint (at_fd at) < 0 then (s, None)
          else
            let s = s\<lparr>st_fds := at_fd at # st_fds s\<rparr> in
            if \<not> at_connect at then (s, None)
            else
              let (t, s) = dbjiffies (at_time at) s;
                  s = s\<lparr>st_conns := (st_conns s)(a \<mapsto>
                          \<lparr>dc_keepalive = t + DB_CONN_KEEP_ALIVE, dc_fd = at_fd at, dc_stat = 0\<rparr>)\<rparr>
              in (dbenter_pool_conn_hash a (at_fd at) s, Some a))"

definition db_get_conn :: "attempt \<Rightarrow> db_state \<Rightarrow> (db_state \<times> addr option) res" where
  "db_get_conn at s =
     (if st_free_count s < 0 then Inl Assert_Failed
      else if st_free_count s = 0 then Inr (db_new_conn at s)
      else (case st_free s of
              [] \<Rightarrow> Inl Assert_Failed
            | a # as \<Rightarrow> Inr (s\<lparr>st_free := as, st_free_count := st_free_count s - 1\<rparr>, Some a)))"

definition db_conn_free :: "addr \<Rightarrow> db_state \<Rightarrow> db_state" where
  "db_conn_free a s = dbpush_free_conn_list a s"

section \<open>One request and its reply\<close>

function send_loop :: "(nat \<Rightarrow> int) \<Rightarrow> nat \<Rightarrow> nat \<Rightarrow> nat \<Rightarrow> bool" where
  "send_loop out k s_len datalen =
     (if s_len = datalen then True
      else let len = min (out k) (int (datalen - s_len)) in
        if len \<le> 0 then False else send_loop out (Suc k) (s_len + nat len) datalen)"
  by pat_completeness auto
termination by (relation "measure (\<lambda>(f, k, s, d). d - s)") auto

definition dbsend :: "(nat \<Rightarrow> int) \<Rightarrow> string \<Rightarrow> bool" where
  "dbsend out data = send_loop out 0 0 (length data)"

text \<open>\<open>_dbcheck\<close>: whether the bytes so far end with an empty line; of a single byte, the one before the buffer is read.\<close>

definition dbcheck :: "string \<Rightarrow> bool res" where
  "dbcheck buf =
     (if length buf < 2 then Inl Out_Of_Bounds
      else Inr (buf ! (length buf - 2) = NL \<and> buf ! (length buf - 1) = NL))"

text \<open>
  The loop of \<open>_dbrecv\<close> with the bytes received, the length of the last piece, and the size of the buffer.
  \<open>None\<close> is the failure of the function.
\<close>

fun recv_loop :: "(nat \<Rightarrow> bool) \<Rightarrow> string list \<Rightarrow> string \<Rightarrow> nat \<Rightarrow> nat \<Rightarrow> nat \<Rightarrow> (string \<times> nat) option res" where
  "recv_loop grow pieces buf r_len r_buflen k =
     res_bind (dbcheck buf) (\<lambda>e.
       if e then Inr (Some (buf, r_buflen))
       else if length buf = r_buflen \<and> \<not> grow k then Inr None
       else
         let cap = (if length buf = r_buflen then DB_BUFLEN else DB_BUFLEN - r_len);
             r_buflen' = (if length buf = r_buflen then r_buflen + DB_BUFLEN else r_buflen)
         in (case pieces of
               [] \<Rightarrow> Inr None
             | c # pieces \<Rightarrow>
                 let c = take cap c in
                 if c = [] then Inr None
                 else if r_buflen' < length buf + length c then Inl Out_Of_Bounds
                 else recv_loop grow pieces (buf @ c) (length c) r_buflen' (Suc k)))"

text \<open>The buffer and how much of it was received.\<close>

definition dbrecv :: "attempt \<Rightarrow> (string \<times> nat) option res" where
  "dbrecv at =
     (if \<not> at_buf at then Inr None
      else (case at_recv at of
              [] \<Rightarrow> Inr None
            | c # pieces \<Rightarrow>
                let c = take DB_BUFLEN c in
                if c = [] then Inr None
                else res_bind (recv_loop (at_more at) pieces c (length c) DB_BUFLEN 0) (\<lambda>r.
                  Inr (map_option (\<lambda>(b, n). (b @ map (at_fill at) [length b..<n], length b)) r))))"

text \<open>The attempts of \<open>_dbdo\<close>: the reply, or none when no connection or no answer could be got.\<close>

fun exchange :: "nat \<Rightarrow> (nat \<Rightarrow> attempt) \<Rightarrow> nat \<Rightarrow> string \<Rightarrow> db_state \<Rightarrow> (db_state \<times> (string \<times> nat) option) res" where
  "exchange 0 at k data s = Inr (s, None)"
| "exchange (Suc n) at k data s =
     res_bind (db_get_conn (at k) s) (\<lambda>(s, c).
       case c of
         None \<Rightarrow> Inr (s, None)
       | Some a \<Rightarrow>
           (case st_conns s a of
              None \<Rightarrow> Inl Use_After_Free
            | Some conn \<Rightarrow>
                if \<not> dbsend (at_send (at k)) data
                then res_bind (db_conn_destory a s) (exchange n at (Suc k) data)
                else
                  let s = s\<lparr>st_sent := st_sent s @ [(dc_fd conn, data)]\<rparr> in
                  res_bind (dbrecv (at k)) (\<lambda>r.
                    case r of
                      None \<Rightarrow> res_bind (db_conn_destory a s) (exchange n at (Suc k) data)
                    | Some reply \<Rightarrow> Inr (db_conn_free a s, Some reply))))"

text \<open>The memory an operation asks for, and its attempts.\<close>

record db_env =
  en_db :: bool
  en_kvs :: bool
  en_key :: bool
  en_data :: bool
  en_cmd :: bool
  en_split :: bool
  en_try :: "nat \<Rightarrow> attempt"

definition dbdo :: "db_env \<Rightarrow> string \<Rightarrow> db_res \<Rightarrow> db_cmd \<Rightarrow> db_state \<Rightarrow> (db_state \<times> db_res) res" where
  "dbdo en data db cmd s =
     res_bind (exchange 4 (en_try en) 0 data s) (\<lambda>(s, r).
       case r of
         None \<Rightarrow> Inr (s, db\<lparr>db_rno := DB_CONNECT_ERR\<rparr>)
       | Some (buf, rcv_len) \<Rightarrow>
           res_bind (dbphrase (en_split en) buf (int rcv_len) (db\<lparr>db_buf := Some buf\<rparr>) cmd) (\<lambda>db. Inr (s, db)))"

text \<open>A length of type \<open>int\<close> given to \<open>wys_malloc\<close>, and \<open>sprintf\<close> into a block.\<close>

definition block_size :: "int \<Rightarrow> nat" where
  "block_size n = nat (n mod 2 ^ 32)"

definition sprintf_into :: "nat \<Rightarrow> string \<Rightarrow> string res" where
  "sprintf_into n s = (if length s < n then Inr s else Inl Out_Of_Bounds)"

definition fmt_d :: "int \<Rightarrow> string" where
  "fmt_d n = (if n < 0 then CHR ''-'' # dec_string (nat (- n)) else dec_string (nat n))"

definition dbcmd :: "db_env \<Rightarrow> db_cmd \<Rightarrow> string option \<Rightarrow> int \<Rightarrow> db_res \<Rightarrow> db_state \<Rightarrow> (db_state \<times> db_res) res" where
  "dbcmd en cmd data datalen db s =
     (let cmd_str = dbstr cmd;
          pre = fmt_d (int (length cmd_str)) @ NL # cmd_str @ [NL];
          size = block_size (int (length cmd_str) + datalen + 64)
      in if \<not> en_cmd en then Inr (s, db\<lparr>db_rno := DB_OUT_MEM\<rparr>)
         else if datalen < 0 \<or> size < length pre + nat datalen + 1 then Inl Out_Of_Bounds
         else (case data of
                 None \<Rightarrow> dbdo en (pre @ replicate (nat datalen) NUL @ [NL]) db cmd s
               | Some d \<Rightarrow>
                   if length d < nat datalen then Inl Out_Of_Bounds
                   else dbdo en (pre @ take (nat datalen) d @ [NL]) db cmd s))"

section \<open>The operations\<close>

text \<open>The results are \<open>None\<close> when there is no memory for the \<open>DB\<close> structure itself.\<close>

definition with_db :: "db_env \<Rightarrow> db_state \<Rightarrow> (db_res \<Rightarrow> (db_state \<times> db_res) res) \<Rightarrow> (db_state \<times> db_res option) res" where
  "with_db en s f = (if \<not> en_db en then Inr (s, None) else res_bind (f db_zero) (\<lambda>(s, db). Inr (s, Some db)))"

definition fail_with :: "db_state \<Rightarrow> db_rno \<Rightarrow> db_res \<Rightarrow> (db_state \<times> db_res) res" where
  "fail_with s rno db = Inr (s, db\<lparr>db_rno := rno\<rparr>)"

text \<open>
  A key is given by the bytes that can be read from its pointer; a NUL byte follows them. \<open>"%s"\<close> copies up to the first NUL.
  \<open>"%d\n%s\n"\<close> goes into a block of \<open>key_len + 16\<close> bytes, then the command is sent.
\<close>

definition key_cmd :: "db_env \<Rightarrow> db_cmd \<Rightarrow> string \<Rightarrow> int \<Rightarrow> db_state \<Rightarrow> db_res \<Rightarrow> (db_state \<times> db_res) res" where
  "key_cmd en cmd key key_len s db =
     (if \<not> en_data en then fail_with s DB_OUT_MEM db
      else res_bind (sprintf_into (block_size (key_len + 16)) (fmt_d key_len @ NL # cstr_of key @ [NL])) (\<lambda>data.
        dbcmd en cmd (Some data) (int (length data)) db s))"

definition dbget :: "db_env \<Rightarrow> string option \<Rightarrow> int \<Rightarrow> db_state \<Rightarrow> (db_state \<times> db_res option) res" where
  "dbget en key key_len s = with_db en s (\<lambda>db.
     case key of
       None \<Rightarrow> fail_with s DB_INVALID_PARMS db
     | Some k \<Rightarrow>
         if key_len = 0 then fail_with s DB_INVALID_PARMS db
         else if \<not> en_kvs en then fail_with s DB_OUT_MEM db
         else if \<not> en_key en then fail_with s DB_OUT_MEM (db\<lparr>db_kvs := Some [kv_zero\<lparr>kv_key_len := key_len\<rparr>]\<rparr>)
         else if key_len < 0 \<or> length k + 1 < nat key_len then Inl Out_Of_Bounds
         else key_cmd en DB_GET k key_len s
           (db\<lparr>db_kvs := Some [kv_zero\<lparr>kv_key := P_Own (take (nat key_len) (k @ [NUL])), kv_key_len := key_len\<rparr>],
               db_own_key := True\<rparr>))"

definition dbset :: "db_env \<Rightarrow> string option \<Rightarrow> int \<Rightarrow> string option \<Rightarrow> int \<Rightarrow> db_state \<Rightarrow> (db_state \<times> db_res option) res" where
  "dbset en key key_len val val_len s = with_db en s (\<lambda>db.
     case (key, val) of
       (Some k, Some v) \<Rightarrow>
         if cstr_of k = [] \<or> val_len \<le> 0 then fail_with s DB_INVALID_PARMS db
         else if \<not> en_data en then fail_with s DB_OUT_MEM db
         else
           let text = fmt_d key_len @ NL # cstr_of k @ NL # fmt_d val_len @ [NL] in
           if length v < nat val_len \<or> block_size (key_len + val_len + 64) < length text + nat val_len + 1
           then Inl Out_Of_Bounds
           else dbcmd en DB_SET (Some (text @ take (nat val_len) v @ [NL])) (int (length text) + val_len + 1) db s
     | _ \<Rightarrow> fail_with s DB_INVALID_PARMS db)"

definition dbscan ::
  "db_env \<Rightarrow> string option \<Rightarrow> int \<Rightarrow> string option \<Rightarrow> int \<Rightarrow> int \<Rightarrow> db_state \<Rightarrow> (db_state \<times> db_res option) res" where
  "dbscan en start start_len end' end_len max_n s = with_db en s (\<lambda>db.
     case (start, end') of
       (Some a, Some b) \<Rightarrow>
         if max_n < 1 then fail_with s DB_INVALID_PARMS db
         else res_bind (dbnumlen max_n) (\<lambda>max_len.
           if \<not> en_data en then fail_with s DB_OUT_MEM db
           else res_bind (sprintf_into (block_size (start_len + end_len + int max_len + 64))
                  (fmt_d start_len @ NL # cstr_of a @ NL # fmt_d end_len @ NL # cstr_of b @ NL # fmt_d (int max_len) @ NL # fmt_d max_n @ [NL])) (\<lambda>data.
             let data_len = (of_nat (length data) :: 8 word)
             in dbcmd en DB_SCAN (Some data) (sint data_len) db s))
     | _ \<Rightarrow> fail_with s DB_INVALID_PARMS db)"

definition dbdel :: "db_env \<Rightarrow> string option \<Rightarrow> int \<Rightarrow> db_state \<Rightarrow> (db_state \<times> db_res option) res" where
  "dbdel en key key_len s = with_db en s (\<lambda>db.
     case key of
       None \<Rightarrow> fail_with s DB_INVALID_PARMS db
     | Some k \<Rightarrow> if key_len = 0 then fail_with s DB_INVALID_PARMS db else key_cmd en DB_DEL k key_len s db)"

definition dbexists :: "db_env \<Rightarrow> string option \<Rightarrow> int \<Rightarrow> db_state \<Rightarrow> (db_state \<times> db_res option) res" where
  "dbexists en key key_len s = with_db en s (\<lambda>db.
     case key of
       None \<Rightarrow> fail_with s DB_INVALID_PARMS db
     | Some k \<Rightarrow> if key_len = 0 then fail_with s DB_INVALID_PARMS db else key_cmd en DB_EXISTS k key_len s db)"

text \<open>
  The operations on several keys: the size of the block, then the text piece by piece. An entry is the
  string and the length the caller gives for it; a value is its bytes.
\<close>

fun keys_size :: "(string \<times> int) list \<Rightarrow> int res" where
  "keys_size [] = Inr 64"
| "keys_size ((k, n) # ks) =
     res_bind (dbnumlen n) (\<lambda>l. res_bind (keys_size ks) (\<lambda>t. Inr (n + int l + 2 + t)))"

fun keys_text :: "nat \<Rightarrow> (string \<times> int) list \<Rightarrow> string \<Rightarrow> string res" where
  "keys_text room [] data = Inr data"
| "keys_text room ((k, n) # ks) data =
     res_bind (sprintf_into (room - length data) (fmt_d n @ NL # cstr_of k @ [NL])) (\<lambda>t. keys_text room ks (data @ t))"

definition dbmulti_keys :: "db_env \<Rightarrow> db_cmd \<Rightarrow> (string \<times> int) list option \<Rightarrow> int \<Rightarrow> u16 \<Rightarrow> db_state \<Rightarrow> (db_state \<times> db_res option) res" where
  "dbmulti_keys en cmd keys key_num kvn s = with_db en s (\<lambda>db.
     case keys of
       None \<Rightarrow> fail_with s DB_INVALID_PARMS db
     | Some ks \<Rightarrow>
         if key_num < 1 then fail_with s DB_INVALID_PARMS db
         else if length ks < nat key_num then Inl Out_Of_Bounds
         else res_bind (keys_size (take (nat key_num) ks)) (\<lambda>total_len.
           if \<not> en_data en then fail_with s DB_OUT_MEM db
           else res_bind (keys_text (block_size total_len) (take (nat key_num) ks) []) (\<lambda>data.
             dbcmd en cmd (Some data) (int (length data)) (db\<lparr>db_kvn := kvn\<rparr>) s)))"

definition dbmulti_get :: "db_env \<Rightarrow> (string \<times> int) list option \<Rightarrow> int \<Rightarrow> db_state \<Rightarrow> (db_state \<times> db_res option) res" where
  "dbmulti_get en keys key_num s = dbmulti_keys en DB_MULTI_GET keys key_num 0 s"

definition dbmulti_del :: "db_env \<Rightarrow> (string \<times> int) list option \<Rightarrow> int \<Rightarrow> db_state \<Rightarrow> (db_state \<times> db_res option) res" where
  "dbmulti_del en keys key_num s = dbmulti_keys en DB_MULTI_DEL keys key_num (word_of_int key_num) s"

fun kvs_size :: "(string \<times> int \<times> string \<times> int) list \<Rightarrow> int res" where
  "kvs_size [] = Inr 64"
| "kvs_size ((k, kn, v, vn) # kvs) =
     res_bind (dbnumlen kn) (\<lambda>kl. res_bind (dbnumlen vn) (\<lambda>vl.
     res_bind (kvs_size kvs) (\<lambda>t. Inr (kn + vn + int kl + int vl + 4 + t))))"

fun kvs_text :: "nat \<Rightarrow> (string \<times> int \<times> string \<times> int) list \<Rightarrow> string \<Rightarrow> string res" where
  "kvs_text room [] data = Inr data"
| "kvs_text room ((k, kn, v, vn) # kvs) data =
     res_bind (sprintf_into (room - length data) (fmt_d kn @ NL # cstr_of k @ NL # fmt_d vn @ [NL])) (\<lambda>t.
       if length v < nat vn \<or> room < length (data @ t) + nat vn + 1 then Inl Out_Of_Bounds
       else kvs_text room kvs (data @ t @ take (nat vn) v @ [NL]))"

definition dbmulti_set :: "db_env \<Rightarrow> (string \<times> int \<times> string \<times> int) list option \<Rightarrow> int \<Rightarrow> db_state \<Rightarrow> (db_state \<times> db_res option) res" where
  "dbmulti_set en kvs kvn s = with_db en s (\<lambda>db.
     case kvs of
       None \<Rightarrow> fail_with s DB_INVALID_PARMS db
     | Some ks \<Rightarrow>
         if kvn < 1 then fail_with s DB_INVALID_PARMS db
         else if length ks < nat kvn then Inl Out_Of_Bounds
         else res_bind (kvs_size (take (nat kvn) ks)) (\<lambda>total_len.
           if \<not> en_data en then fail_with s DB_OUT_MEM db
           else res_bind (kvs_text (block_size total_len) (take (nat kvn) ks) []) (\<lambda>data.
             dbcmd en DB_MULTI_SET (Some data) (int (length data)) (db\<lparr>db_kvn := word_of_int kvn\<rparr>) s)))"

text \<open>Releasing a result: a key of its own is released once.\<close>

definition dbfree :: "db_res option \<Rightarrow> unit res" where
  "dbfree db =
     (case db of
        None \<Rightarrow> Inr ()
      | Some d \<Rightarrow>
          if db_own_key d then
            (case db_kvs d of
               None \<Rightarrow> Inl Null_Deref
             | Some [] \<Rightarrow> Inl Out_Of_Bounds
             | Some (kv # _) \<Rightarrow> if kv_key kv = P_Freed then Inl Use_After_Free else Inr ())
          else Inr ())"

text \<open>The three commands of \<open>dbflush\<close>, of which only the first is reported; \<open>log\<close> and \<open>cpt\<close> are their own results.\<close>

definition dbflush :: "(nat \<Rightarrow> db_env) \<Rightarrow> db_state \<Rightarrow> (db_state \<times> db_res option) res" where
  "dbflush en s =
     (if \<not> en_db (en 0) then Inr (s, None)
      else if \<not> en_db (en 1) \<or> \<not> en_db (en 2) then Inr (s, Some db_zero)
      else
        res_bind (dbcmd (en 0) DB_FLUSHDB None 0 db_zero s) (\<lambda>(s, db).
        res_bind (dbcmd (en 1) DB_CLR_BINLOG None 0 db_zero s) (\<lambda>(s, db_log).
        res_bind (dbcmd (en 2) DB_COMPACT None 0 db_zero s) (\<lambda>(s, db_cpt).
        res_bind (dbfree (Some db_log)) (\<lambda>_. res_bind (dbfree (Some db_cpt)) (\<lambda>_.
          Inr (s, Some db)))))))"

text \<open>\<open>dbsize\<close> does not look whether it got memory for the result of \<open>compact\<close>.\<close>

definition dbsize :: "(nat \<Rightarrow> db_env) \<Rightarrow> db_state \<Rightarrow> (db_state \<times> db_res option) res" where
  "dbsize en s =
     (if \<not> en_db (en 0) then Inr (s, None)
      else if \<not> en_kvs (en 0) then Inr (s, Some (db_zero\<lparr>db_rno := DB_OUT_MEM\<rparr>))
      else if \<not> en_db (en 1) then Inl Null_Deref
      else
        res_bind (dbcmd (en 1) DB_COMPACT None 0 db_zero s) (\<lambda>(s, db_cpt).
        res_bind (dbcmd (en 0) DB_DBSIZE None 0 (db_zero\<lparr>db_kvs := Some [kv_zero]\<rparr>) s) (\<lambda>(s, db).
        res_bind (dbfree (Some db_cpt)) (\<lambda>_. Inr (s, Some db)))))"

text \<open>\<open>inet_addr\<close> of the C library is an argument. The counters are not reset.\<close>

definition htons :: "u16 \<Rightarrow> u16" where
  "htons x = push_bit 8 x OR drop_bit 8 x"

definition dbinit :: "(string \<Rightarrow> u32) \<Rightarrow> u64 \<times> u64 \<Rightarrow> string \<Rightarrow> u16 \<Rightarrow> db_state \<Rightarrow> db_state" where
  "dbinit inet_addr tv ip port s =
     s\<lparr>st_addr := inet_addr ip, st_port := htons port, st_start := fst tv, st_pool := (\<lambda>_. []), st_free := []\<rparr>"

section \<open>The pool\<close>

text \<open>
  Every allocated connection is in the chain of its descriptor, once, and nowhere else; the free ones
  are allocated, each once in the list; the counters are the numbers of both.
\<close>

definition pool_ok :: "db_state \<Rightarrow> bool" where
  "pool_ok s \<longleftrightarrow> finite (dom (st_conns s))
     \<and> (\<forall>i. distinct (st_pool s i) \<and> set (st_pool s i) = {a. \<exists>c. st_conns s a = Some c \<and> DB_HASH_IDX (dc_fd c) = i})
     \<and> st_pool_count s = int (card (dom (st_conns s)))
     \<and> distinct (st_free s) \<and> set (st_free s) \<subseteq> dom (st_conns s) \<and> st_free_count s = int (length (st_free s))"

text \<open>All connections but one, or all, are idle.\<close>

definition busy :: "db_state \<Rightarrow> addr set" where
  "busy s = dom (st_conns s) - set (st_free s)"

lemma pool_ok_free: "pool_ok s \<Longrightarrow> a \<in> busy s \<Longrightarrow> pool_ok (db_conn_free a s) \<and> busy (db_conn_free a s) = busy s - {a}"
  by (auto simp: pool_ok_def busy_def db_conn_free_def dbpush_free_conn_list_def)

lemma pool_ok_sent: "pool_ok (s\<lparr>st_sent := x\<rparr>) = pool_ok s" "busy (s\<lparr>st_sent := x\<rparr>) = busy s"
  by (simp_all add: pool_ok_def busy_def)

lemma conn_destory_ok:
  assumes ok: "pool_ok s" and a: "a \<in> busy s"
  obtains s' where "db_conn_destory a s = Inr s'" "pool_ok s'" "busy s' = busy s - {a}" "dom (st_conns s') = dom (st_conns s) - {a}"
proof -
  from a obtain c where c: "st_conns s a = Some c" by (auto simp: busy_def)
  define s' where "s' = (dbout_pool_conn_hash a s)\<lparr>st_fds := remove1 (dc_fd c) (st_fds s), st_conns := (st_conns s)(a := None)\<rparr>"
  have "pool_ok s'" unfolding pool_ok_def
  proof (intro conjI allI)
    have "card (dom (st_conns s)) = Suc (card (dom (st_conns s) - {a}))"
      by (rule card.remove) (use ok c in \<open>auto simp: pool_ok_def\<close>)
    then show "st_pool_count s' = int (card (dom (st_conns s')))"
      using ok by (simp add: s'_def dbout_pool_conn_hash_def pool_ok_def)
  qed (use ok a in \<open>auto simp: s'_def dbout_pool_conn_hash_def pool_ok_def busy_def distinct_removeAll\<close>)
  moreover have "db_conn_destory a s = Inr s'" by (simp add: db_conn_destory_def c s'_def dbout_pool_conn_hash_def)
  moreover have "busy s' = busy s - {a}" "dom (st_conns s') = dom (st_conns s) - {a}"
    by (auto simp: busy_def s'_def dbout_pool_conn_hash_def)
  ultimately show thesis by (intro that [of s'])
qed

lemma link_ok:
  assumes ok: "pool_ok s" and a: "a \<notin> dom (st_conns s)"
    and s'_def: "s' = dbenter_pool_conn_hash a (dc_fd c) (s\<lparr>st_conns := (st_conns s)(a \<mapsto> c)\<rparr>)"
  shows "pool_ok s'" "busy s' = insert a (busy s)" "dom (st_conns s') = insert a (dom (st_conns s))"
proof -
  show "pool_ok s'" unfolding pool_ok_def
  proof (intro conjI allI)
    fix i
    have "a \<notin> set (st_pool s j)" for j using ok a by (auto simp: pool_ok_def)
    with ok show "distinct (st_pool s' i)" by (simp add: s'_def dbenter_pool_conn_hash_def pool_ok_def)
    show "set (st_pool s' i) = {x. \<exists>d. st_conns s' x = Some d \<and> DB_HASH_IDX (dc_fd d) = i}"
      using ok a by (auto simp: s'_def dbenter_pool_conn_hash_def pool_ok_def)
  qed (use ok a in \<open>auto simp: s'_def dbenter_pool_conn_hash_def pool_ok_def\<close>)
  have "a \<notin> set (st_free s)" using ok a by (auto simp: pool_ok_def)
  then show "busy s' = insert a (busy s)" "dom (st_conns s') = insert a (dom (st_conns s))"
    by (auto simp: busy_def s'_def dbenter_pool_conn_hash_def)
qed

lemma dbjiffies_frame: "\<exists>y z. snd (dbjiffies tv s) = s\<lparr>st_start := y, st_second := z\<rparr>"
proof (cases "2 < fst tv - st_start s - st_second s")
  case True
  then have "snd (dbjiffies tv s) = s\<lparr>st_start := fst tv - (st_second s + 2), st_second := st_second s + 2\<rparr>"
    by (simp add: dbjiffies_def Let_def)
  then show ?thesis by blast
next
  case False
  then have "snd (dbjiffies tv s) = s\<lparr>st_start := st_start s, st_second := fst tv - st_start s\<rparr>"
    by (simp add: dbjiffies_def Let_def)
  then show ?thesis by blast
qed

lemma pool_ok_other:
  "pool_ok (s\<lparr>st_fds := x\<rparr>) = pool_ok s" "pool_ok (s\<lparr>st_start := y, st_second := z\<rparr>) = pool_ok s"
  "busy (s\<lparr>st_fds := x\<rparr>) = busy s" "busy (s\<lparr>st_start := y, st_second := z\<rparr>) = busy s"
  by (simp_all add: pool_ok_def busy_def)

text \<open>Getting a connection, a new or a free one.\<close>

lemma get_conn_ok:
  assumes ok: "pool_ok s" and fresh: "\<forall>a. at_conn at = Some a \<longrightarrow> a \<notin> dom (st_conns s)"
  obtains s' where "db_get_conn at s = Inr (s', None)" "pool_ok s'" "busy s' = busy s" "dom (st_conns s') = dom (st_conns s)"
  | s' a where "db_get_conn at s = Inr (s', Some a)" "pool_ok s'" "busy s' = insert a (busy s)" "a \<notin> busy s" "a \<in> dom (st_conns s')"
      "dom (st_conns s') = insert a (dom (st_conns s))"
proof (cases "st_free s")
  case Nil
  then have g: "db_get_conn at s = Inr (db_new_conn at s)" using ok by (simp add: db_get_conn_def pool_ok_def)
  consider "at_conn at = None \<or> sint (at_fd at) < 0" | "at_conn at \<noteq> None" "\<not> sint (at_fd at) < 0" "\<not> at_connect at"
    | a where "at_conn at = Some a" "\<not> sint (at_fd at) < 0" "at_connect at"
    by (cases "at_conn at") auto
  then show thesis
  proof cases
    case 1
    then have "db_new_conn at s = (s, None)" by (auto simp: db_new_conn_def split: option.split)
    with g ok show thesis by (intro that(1) [of s]) simp_all
  next
    case 2
    then have "db_new_conn at s = (s\<lparr>st_fds := at_fd at # st_fds s\<rparr>, None)" by (auto simp: db_new_conn_def)
    with g ok show thesis by (intro that(1) [of "s\<lparr>st_fds := at_fd at # st_fds s\<rparr>"]) (simp_all add: pool_ok_other)
  next
    case (3 a)
    define s1 where "s1 = snd (dbjiffies (at_time at) (s\<lparr>st_fds := at_fd at # st_fds s\<rparr>))"
    define c where "c = \<lparr>dc_keepalive = fst (dbjiffies (at_time at) (s\<lparr>st_fds := at_fd at # st_fds s\<rparr>)) + DB_CONN_KEEP_ALIVE,
      dc_fd = at_fd at, dc_stat = 0\<rparr>"
    have s1: "pool_ok s1" "busy s1 = busy s" "st_conns s1 = st_conns s"
      using dbjiffies_frame [of "at_time at" "s\<lparr>st_fds := at_fd at # st_fds s\<rparr>"] ok by (auto simp: s1_def pool_ok_other)
    have a: "a \<notin> dom (st_conns s)" using fresh 3(1) by blast
    then have "a \<notin> dom (st_conns s1)" by (simp add: s1(3))
    note l = link_ok [OF s1(1) this refl, of c]
    have "db_new_conn at s = (dbenter_pool_conn_hash a (dc_fd c) (s1\<lparr>st_conns := (st_conns s1)(a \<mapsto> c)\<rparr>), Some a)"
      using 3 by (simp add: db_new_conn_def s1_def c_def Let_def case_prod_beta)
    with g have "db_get_conn at s = Inr (dbenter_pool_conn_hash a (dc_fd c) (s1\<lparr>st_conns := (st_conns s1)(a \<mapsto> c)\<rparr>), Some a)"
      by simp
    then show thesis
      by (rule that(2) [OF _ l(1)]) (use l(2,3) s1 a in \<open>simp_all add: busy_def\<close>)
  qed
next
  case (Cons a as)
  define s' where "s' = s\<lparr>st_free := as, st_free_count := st_free_count s - 1\<rparr>"
  have "db_get_conn at s = Inr (s', Some a)" using ok Cons by (simp add: db_get_conn_def pool_ok_def s'_def)
  moreover have "pool_ok s'" "busy s' = insert a (busy s)" "a \<notin> busy s" "a \<in> dom (st_conns s')"
    "dom (st_conns s') = insert a (dom (st_conns s))"
    using ok Cons by (auto simp: pool_ok_def busy_def s'_def)
  ultimately show thesis by (rule that(2))
qed

declare recv_loop.simps [simp del] send_loop.simps [simp del]

lemma recv_loop_fault: "recv_loop grow pieces buf r_len r_buflen k = Inl e \<Longrightarrow> e = Out_Of_Bounds"
proof (induction pieces arbitrary: buf r_len r_buflen k)
  case Nil
  then show ?case by (simp add: recv_loop.simps [of grow "[]"] dbcheck_def Let_def split: if_splits)
next
  case (Cons c cs)
  from Cons.prems show ?case
    by (auto simp: recv_loop.simps [of grow "c # cs"] dbcheck_def Let_def split: if_splits dest: Cons.IH)
qed

lemma dbrecv_fault: "dbrecv at = Inl e \<Longrightarrow> e = Out_Of_Bounds"
  by (auto simp: dbrecv_def Let_def res_bind_def recv_loop_fault split: if_splits list.splits sum.splits)

text \<open>
  A whole exchange: nothing fails but a write outside the receive buffer, and every connection that was
  idle before is idle again or gone.
\<close>

lemma exchange_ok:
  assumes "pool_ok s" "\<forall>j a. at_conn (at j) = Some a \<longrightarrow> a \<notin> dom (st_conns s)"
  shows "case exchange n at k data s of Inl e \<Rightarrow> e = Out_Of_Bounds \<and> (\<exists>j. dbrecv (at j) = Inl e)
     | Inr (s', r) \<Rightarrow> pool_ok s' \<and> busy s' = busy s"
  using assms
proof (induction n arbitrary: k s)
  case 0
  then show ?case by simp
next
  case (Suc n)
  define P where "P r \<longleftrightarrow> (case r of Inl e \<Rightarrow> e = Out_Of_Bounds \<and> (\<exists>j. dbrecv (at j) = Inl e)
     | Inr (s', r) \<Rightarrow> pool_ok s' \<and> busy s' = busy s)" for r :: "(db_state \<times> (string \<times> nat) option) res"
  have again: "P (res_bind (db_conn_destory a t) (exchange n at (Suc k) data))"
    if t: "pool_ok t" "busy t = insert a (busy s)" "dom (st_conns t) = insert a (dom (st_conns s))" "a \<notin> busy s" for a t
  proof -
    have "a \<in> busy t" by (simp add: t(2))
    then obtain u where u: "db_conn_destory a t = Inr u" "pool_ok u" "busy u = busy t - {a}" "dom (st_conns u) = dom (st_conns t) - {a}"
      by (rule conn_destory_ok [OF t(1)])
    have b: "busy u = busy s" using u(3) t(2,4) by auto
    have "\<forall>j b. at_conn (at j) = Some b \<longrightarrow> b \<notin> dom (st_conns u)" using Suc.prems(2) u(4) t(3) by blast
    from Suc.IH [OF u(2) this, of "Suc k"] show ?thesis unfolding P_def u(1) res_bind_simps b .
  qed
  have fr: "\<forall>a. at_conn (at k) = Some a \<longrightarrow> a \<notin> dom (st_conns s)" using Suc.prems(2) by blast
  from Suc.prems(1) fr have "P (exchange (Suc n) at k data s)"
  proof (cases rule: get_conn_ok)
    case (1 s')
    then show ?thesis by (simp add: P_def)
  next
    case (2 s' a)
    then obtain c where c: "st_conns s' a = Some c" by auto
    define t where "t = s'\<lparr>st_sent := st_sent s' @ [(dc_fd c, data)]\<rparr>"
    have t: "pool_ok t" "busy t = insert a (busy s)" "dom (st_conns t) = insert a (dom (st_conns s))"
      unfolding t_def pool_ok_sent using 2(2,3,6) by simp_all
    have "busy t - {a} = busy s" "a \<in> busy t" using 2(4) t(2) by auto
    then have f: "pool_ok (db_conn_free a t)" "busy (db_conn_free a t) = busy s"
      using pool_ok_free [OF t(1)] by simp_all
    show ?thesis
    proof (cases "dbsend (at_send (at k)) data")
      case False
      with again [OF 2(2,3,6,4)] 2(1) c show ?thesis by simp
    next
      case True
      show ?thesis
      proof (cases "dbrecv (at k)")
        case (Inl e)
        with True dbrecv_fault [OF Inl] 2(1) c show ?thesis by (auto simp: P_def)
      next
        case (Inr r)
        with True again [OF t 2(4)] f 2(1) c show ?thesis
          by (cases r) (simp_all add: P_def t_def)
      qed
    qed
  qed
  then show ?case by (simp only: P_def)
qed

text \<open>A connection that cannot be established is released, its descriptor is not closed.\<close>

lemma connect_failure_leaks:
  assumes "at_conn at = Some a" "0 \<le> sint (at_fd at)" "\<not> at_connect at"
  shows "db_new_conn at s = (s\<lparr>st_fds := at_fd at # st_fds s\<rparr>, None)"
  using assms by (simp add: db_new_conn_def)

text \<open>
  The open descriptors: those of the connections, and others. Only a failed \<open>connect\<close> makes another one.
\<close>

definition conn_fds :: "db_state \<Rightarrow> s32 multiset" where
  "conn_fds s = image_mset (\<lambda>a. dc_fd (the (st_conns s a))) (mset_set (dom (st_conns s)))"

definition fds_open :: "db_state \<Rightarrow> s32 multiset \<Rightarrow> bool" where
  "fds_open s L \<longleftrightarrow> mset (st_fds s) = conn_fds s + L"

lemma conn_fds_link:
  assumes "finite (dom (st_conns s))" "a \<notin> dom (st_conns s)" "st_conns s' = (st_conns s)(a \<mapsto> c)"
  shows "conn_fds s' = add_mset (dc_fd c) (conn_fds s)"
proof -
  have "image_mset (\<lambda>x. dc_fd (the (((st_conns s)(a \<mapsto> c)) x))) (mset_set (dom (st_conns s)))
      = image_mset (\<lambda>x. dc_fd (the (st_conns s x))) (mset_set (dom (st_conns s)))"
    using assms(1,2) by (intro image_mset_cong) auto
  then show ?thesis using assms by (simp add: conn_fds_def)
qed

lemma conn_fds_unlink:
  assumes "finite (dom (st_conns s))" "st_conns s a = Some c" "st_conns s' = (st_conns s)(a := None)"
  shows "conn_fds s = add_mset (dc_fd c) (conn_fds s')"
proof (rule conn_fds_link)
  show "finite (dom (st_conns s'))" "a \<notin> dom (st_conns s')" using assms by simp_all
  show "st_conns s = (st_conns s')(a \<mapsto> c)" using assms by auto
qed

lemma conn_destory_fds:
  assumes "pool_ok s" "fds_open s L" "db_conn_destory a s = Inr s'"
  shows "fds_open s' L"
proof -
  from assms(3) obtain c where c: "st_conns s a = Some c" "st_fds s' = remove1 (dc_fd c) (st_fds s)" "st_conns s' = (st_conns s)(a := None)"
    by (auto simp: db_conn_destory_def dbout_pool_conn_hash_def Let_def split: option.splits)
  have "finite (dom (st_conns s))" using assms(1) by (simp add: pool_ok_def)
  from conn_fds_unlink [OF this c(1,3)] assms(2) c(2) show ?thesis by (simp add: fds_open_def)
qed

lemma get_conn_fds:
  assumes "pool_ok s" "fds_open s L" "\<forall>a. at_conn at = Some a \<longrightarrow> a \<notin> dom (st_conns s)" "db_get_conn at s = Inr (s', r)"
  shows "fds_open s' L \<or> r = None \<and> \<not> at_connect at \<and> fds_open s' (add_mset (at_fd at) L)"
proof -
  have fin: "finite (dom (st_conns s))" using assms(1) by (simp add: pool_ok_def)
  have new: "fds_open s' L \<or> r = None \<and> \<not> at_connect at \<and> fds_open s' (add_mset (at_fd at) L)"
    if n: "db_new_conn at s = (s', r)"
  proof (cases "at_conn at = None \<or> sint (at_fd at) < 0 \<or> \<not> at_connect at")
    case True
    with n assms(2) show ?thesis
      by (auto simp: db_new_conn_def fds_open_def conn_fds_def split: option.splits if_splits)
  next
    case False
    then obtain a where a: "at_conn at = Some a" "\<not> sint (at_fd at) < 0" "at_connect at" by auto
    obtain y z where j: "snd (dbjiffies (at_time at) (s\<lparr>st_fds := at_fd at # st_fds s\<rparr>))
        = s\<lparr>st_fds := at_fd at # st_fds s, st_start := y, st_second := z\<rparr>"
      using dbjiffies_frame [of "at_time at" "s\<lparr>st_fds := at_fd at # st_fds s\<rparr>"] by blast
    from n a j obtain t where "st_conns s' = (st_conns s)(a \<mapsto> \<lparr>dc_keepalive = t, dc_fd = at_fd at, dc_stat = 0\<rparr>)"
      "st_fds s' = at_fd at # st_fds s"
      by (auto simp: db_new_conn_def dbenter_pool_conn_hash_def Let_def case_prod_beta)
    with conn_fds_link [OF fin, of a s'] assms(2,3) a(1) show ?thesis by (simp add: fds_open_def)
  qed
  from assms(4) consider "db_new_conn at s = (s', r)" | "st_fds s' = st_fds s" "st_conns s' = st_conns s"
    by (auto simp: db_get_conn_def split: if_splits list.splits)
  then show ?thesis
  proof cases
    case 2
    with assms(2) show ?thesis by (simp add: fds_open_def conn_fds_def)
  qed (rule new)
qed

lemma exchange_fds:
  assumes "pool_ok s" "\<forall>j a. at_conn (at j) = Some a \<longrightarrow> a \<notin> dom (st_conns s)" "fds_open s L" "exchange n at k data s = Inr (s', r)"
  shows "fds_open s' L \<or> (\<exists>j. k \<le> j \<and> j < k + n \<and> \<not> at_connect (at j) \<and> fds_open s' (add_mset (at_fd (at j)) L))"
  using assms
proof (induction n arbitrary: k s)
  case 0
  then show ?case by simp
next
  case (Suc n)
  have fr: "\<forall>a. at_conn (at k) = Some a \<longrightarrow> a \<notin> dom (st_conns s)" using Suc.prems(2) by blast
  note g = get_conn_fds [OF Suc.prems(1,3) fr]
  have again: ?case if t: "pool_ok t" "a \<in> busy t" "dom (st_conns t) = insert a (dom (st_conns s))" "fds_open t L"
      "res_bind (db_conn_destory a t) (exchange n at (Suc k) data) = Inr (s', r)" "a \<in> dom (st_conns s) \<longrightarrow> a \<notin> busy s" for a t
  proof -
    obtain u where u: "db_conn_destory a t = Inr u" "pool_ok u" "dom (st_conns u) = dom (st_conns t) - {a}"
      by (rule conn_destory_ok [OF t(1,2)])
    have f: "\<forall>j b. at_conn (at j) = Some b \<longrightarrow> b \<notin> dom (st_conns u)" using Suc.prems(2) u(3) t(3) by blast
    have "exchange n at (Suc k) data u = Inr (s', r)" using t(5) u(1) by simp
    from Suc.IH [OF u(2) f conn_destory_fds [OF t(1,4) u(1)] this] show ?thesis
      by (elim disjE exE conjE) (auto intro: Suc_leD)
  qed
  from Suc.prems(1) fr show ?case
  proof (cases rule: get_conn_ok)
    case (1 s1)
    with Suc.prems(4) g [OF 1(1)] show ?thesis by auto
  next
    case (2 s1 a)
    then obtain c where c: "st_conns s1 a = Some c" by auto
    have f1: "fds_open s1 L" using g [OF 2(1)] by simp
    define t where "t = s1\<lparr>st_sent := st_sent s1 @ [(dc_fd c, data)]\<rparr>"
    have t: "pool_ok t" "a \<in> busy t" "dom (st_conns t) = insert a (dom (st_conns s))" "fds_open t L"
      unfolding t_def pool_ok_sent using 2(2,3,6) f1 by (simp_all add: fds_open_def conn_fds_def)
    have b1: "a \<in> busy s1" "a \<in> dom (st_conns s) \<longrightarrow> a \<notin> busy s" using 2(3,4) by auto
    have keep: "fds_open (db_conn_free a t) L" using t(4) by (simp add: db_conn_free_def dbpush_free_conn_list_def fds_open_def conn_fds_def)
    from Suc.prems(4) 2(1) c consider "res_bind (db_conn_destory a s1) (exchange n at (Suc k) data) = Inr (s', r)"
      | "res_bind (db_conn_destory a t) (exchange n at (Suc k) data) = Inr (s', r)" | "s' = db_conn_free a t"
      by (auto simp: t_def Let_def split: if_splits option.splits)
    then show ?thesis
    proof cases
      case 1
      then show ?thesis by (rule again [OF 2(2) b1(1) 2(6) f1 _ b1(2)])
    next
      case 2
      then show ?thesis by (rule again [OF t _ b1(2)])
    qed (use keep in simp)
  qed
qed

section \<open>Requests\<close>

lemma fmt_d_nat [simp]: "fmt_d (int n) = dec_string n"
  by (simp add: fmt_d_def)

lemma block_size_nat: "0 \<le> n \<Longrightarrow> n < 2 ^ 32 \<Longrightarrow> block_size n = nat n"
  by (simp add: block_size_def)

lemma length_dec_31: "n < 2 ^ 31 \<Longrightarrow> length (dec_string n) \<le> 10"
  using length_dec_string [of n 9] by simp

text \<open>A command followed by blocks is a message of the format.\<close>

lemma dbcmd_packet:
  assumes "en_cmd en" "data = concat (map ssdb_block bs)" "length data < 2 ^ 31"
  shows "dbcmd en cmd (Some data) (int (length data)) db s = dbdo en (ssdb_packet (dbstr cmd # bs)) db cmd s"
proof -
  have "length (dbstr cmd) < 13" by (cases cmd) simp_all
  with length_dec_31 [of "length (dbstr cmd)"]
  have l: "length (dbstr cmd) < 13" "length (dec_string (length (dbstr cmd))) \<le> 10" by simp_all
  have "block_size (int (length (dbstr cmd)) + int (length data) + 64) = length (dbstr cmd) + length data + 64"
    using assms(3) l(1) by (subst block_size_nat) simp_all
  then show ?thesis using assms l
    by (simp add: dbcmd_def Let_def ssdb_packet_def ssdb_block_def)
qed

definition en_ok :: "db_env \<Rightarrow> bool" where
  "en_ok en \<longleftrightarrow> en_db en \<and> en_kvs en \<and> en_key en \<and> en_data en \<and> en_cmd en \<and> en_split en"

definition some_db :: "(db_state \<times> db_res) res \<Rightarrow> (db_state \<times> db_res option) res" where
  "some_db r = res_bind r (\<lambda>(s, db). Inr (s, Some db))"

lemma with_db_ok: "en_ok en \<Longrightarrow> with_db en s f = some_db (f db_zero)"
  by (simp add: with_db_def en_ok_def some_db_def)

lemma key_cmd_packet:
  assumes "en_ok en" "length k < 2 ^ 30" "is_cstr k"
  shows "key_cmd en cmd k (int (length k)) s db = dbdo en (ssdb_packet [dbstr cmd, k]) db cmd s"
proof -
  let ?d = "dec_string (length k) @ NL # k @ [NL]"
  have "length (dec_string (length k)) \<le> 10" using assms(2) by (intro length_dec_31) simp
  moreover have "block_size (int (length k) + 16) = length k + 16" using assms(2) by (subst block_size_nat) simp_all
  ultimately have "sprintf_into (block_size (int (length k) + 16)) ?d = Inr ?d" "length ?d < 2 ^ 31"
    using assms(2) by (simp_all add: sprintf_into_def)
  with dbcmd_packet [of en ?d "[k]" cmd db s] assms(1) show ?thesis
    by (simp add: key_cmd_def en_ok_def ssdb_block_def cstr_of_id assms(3))
qed

definition get_result :: "string \<Rightarrow> db_res" where
  "get_result k = db_zero\<lparr>db_kvs := Some [kv_zero\<lparr>kv_key := P_Own k, kv_key_len := int (length k)\<rparr>], db_own_key := True\<rparr>"

lemma get_request:
  assumes "en_ok en" "k \<noteq> []" "length k < 2 ^ 30" "is_cstr k"
  shows "dbget en (Some k) (int (length k)) s = some_db (dbdo en (ssdb_packet [''get'', k]) (get_result k) DB_GET s)"
  using key_cmd_packet [OF assms(1,3,4), of DB_GET s] assms(1,2)
  by (simp add: dbget_def with_db_ok get_result_def) (simp add: en_ok_def)

lemma del_request:
  assumes "en_ok en" "k \<noteq> []" "length k < 2 ^ 30" "is_cstr k"
  shows "dbdel en (Some k) (int (length k)) s = some_db (dbdo en (ssdb_packet [''del'', k]) db_zero DB_DEL s)"
    and "dbexists en (Some k) (int (length k)) s = some_db (dbdo en (ssdb_packet [''exists'', k]) db_zero DB_EXISTS s)"
  using key_cmd_packet [OF assms(1,3,4), of DB_DEL s] key_cmd_packet [OF assms(1,3,4), of DB_EXISTS s] assms(1,2)
  by (simp_all add: dbdel_def dbexists_def with_db_ok)

lemma set_request:
  assumes "en_ok en" "k \<noteq> []" "v \<noteq> []" "length k + length v < 2 ^ 30" "is_cstr k"
  shows "dbset en (Some k) (int (length k)) (Some v) (int (length v)) s
    = some_db (dbdo en (ssdb_packet [''set'', k, v]) db_zero DB_SET s)"
proof -
  let ?t = "dec_string (length k) @ NL # k @ NL # dec_string (length v) @ [NL]"
  let ?d = "?t @ v @ [NL]"
  have l: "length (dec_string (length k)) \<le> 10" "length (dec_string (length v)) \<le> 10"
    using assms(4) by (simp_all add: length_dec_31)
  have "block_size (int (length k) + int (length v) + 64) = length k + length v + 64"
    using assms(4) by (subst block_size_nat) simp_all
  with assms l have "dbset en (Some k) (int (length k)) (Some v) (int (length v)) s
      = some_db (dbcmd en DB_SET (Some ?d) (int (length ?d)) db_zero s)"
    by (simp add: dbset_def with_db_ok Let_def cstr_of_id) (simp add: en_ok_def algebra_simps)
  moreover have "dbcmd en DB_SET (Some ?d) (int (length ?d)) db_zero s = dbdo en (ssdb_packet [''set'', k, v]) db_zero DB_SET s"
    using dbcmd_packet [of en ?d "[k, v]" DB_SET db_zero s] assms(1,4) l by (simp add: en_ok_def ssdb_block_def)
  ultimately show ?thesis by simp
qed

text \<open>Several keys, several pairs.\<close>

lemma keys_size_ok: "keys_size (map (\<lambda>k. (k, int (length k))) ks) = Inr (64 + int (length (concat (map ssdb_block ks))))"
  by (induction ks) (simp_all add: dbnumlen_dec ssdb_block_def)

lemma keys_text_ok:
  "length data + length (concat (map ssdb_block ks)) < room \<Longrightarrow> \<forall>k \<in> set ks. is_cstr k \<Longrightarrow>
     keys_text room (map (\<lambda>k. (k, int (length k))) ks) data = Inr (data @ concat (map ssdb_block ks))"
proof (induction ks arbitrary: data)
  case (Cons k ks)
  have "sprintf_into (room - length data) (dec_string (length k) @ NL # k @ [NL]) = Inr (ssdb_block k)"
    using Cons.prems by (simp add: sprintf_into_def ssdb_block_def)
  with Cons.IH [of "data @ ssdb_block k"] Cons.prems show ?case by (simp add: cstr_of_id)
qed simp

definition sized_pair :: "string \<times> string \<Rightarrow> string \<times> int \<times> string \<times> int" where
  "sized_pair kv = (fst kv, int (length (fst kv)), snd kv, int (length (snd kv)))"

lemma kvs_size_ok: "kvs_size (map sized_pair kvs) = Inr (64 + int (length (pair_blocks ssdb_block kvs)))"
  by (induction kvs) (auto simp: dbnumlen_dec ssdb_block_def sized_pair_def)

lemma kvs_text_ok:
  "length data + length (pair_blocks ssdb_block kvs) < room \<Longrightarrow> \<forall>kv \<in> set kvs. is_cstr (fst kv) \<Longrightarrow>
     kvs_text room (map sized_pair kvs) data = Inr (data @ pair_blocks ssdb_block kvs)"
proof (induction kvs arbitrary: data)
  case (Cons kv kvs)
  obtain k v where kv: "kv = (k, v)" by (cases kv)
  let ?t = "dec_string (length k) @ NL # k @ NL # dec_string (length v) @ [NL]"
  have "sprintf_into (room - length data) ?t = Inr ?t"
    using Cons.prems kv by (simp add: sprintf_into_def ssdb_block_def)
  moreover have "?t @ v @ [NL] = ssdb_block k @ ssdb_block v" by (simp add: ssdb_block_def)
  ultimately show ?case
    using Cons.IH [of "data @ ssdb_block k @ ssdb_block v"] Cons.prems kv
    by (simp add: sized_pair_def cstr_of_id) (simp add: ssdb_block_def)
qed simp

lemma multi_requests:
  assumes "en_ok en" "ks \<noteq> []" "length (concat (map ssdb_block ks)) < 2 ^ 30" "\<forall>k \<in> set ks. is_cstr k"
  shows "dbmulti_keys en cmd (Some (map (\<lambda>k. (k, int (length k))) ks)) (int (length ks)) n s
    = some_db (dbdo en (ssdb_packet (dbstr cmd # ks)) (db_zero\<lparr>db_kvn := n\<rparr>) cmd s)"
proof -
  let ?d = "concat (map ssdb_block ks)"
  have "block_size (64 + int (length ?d)) = 64 + length ?d" using assms(3) by (subst block_size_nat) simp_all
  then have "keys_text (block_size (64 + int (length ?d))) (map (\<lambda>k. (k, int (length k))) ks) [] = Inr ?d"
    using keys_text_ok [of "[]" ks "64 + length ?d"] assms(4) by simp
  with dbcmd_packet [of en ?d ks cmd "db_zero\<lparr>db_kvn := n\<rparr>" s] assms keys_size_ok [of ks] show ?thesis
    by (simp add: dbmulti_keys_def with_db_ok) (simp add: en_ok_def Suc_le_eq)
qed

lemma multi_set_request:
  assumes "en_ok en" "kvs \<noteq> []" "length (pair_blocks ssdb_block kvs) < 2 ^ 30" "\<forall>kv \<in> set kvs. is_cstr (fst kv)"
  shows "dbmulti_set en (Some (map sized_pair kvs)) (int (length kvs)) s
    = some_db (dbdo en (ssdb_packet (''multi_set'' # concat (map (\<lambda>(k, v). [k, v]) kvs)))
        (db_zero\<lparr>db_kvn := of_nat (length kvs)\<rparr>) DB_MULTI_SET s)"
proof -
  let ?d = "pair_blocks ssdb_block kvs"
  have d: "?d = concat (map ssdb_block (concat (map (\<lambda>(k, v). [k, v]) kvs)))"
    by (induction kvs) auto
  have "block_size (64 + int (length ?d)) = 64 + length ?d" using assms(3) by (subst block_size_nat) simp_all
  then have "kvs_text (block_size (64 + int (length ?d))) (map sized_pair kvs) [] = Inr ?d"
    using kvs_text_ok [of "[]" kvs "64 + length ?d"] assms(4) by simp
  with dbcmd_packet [OF _ d, of en DB_MULTI_SET "db_zero\<lparr>db_kvn := of_nat (length kvs)\<rparr>" s] assms kvs_size_ok [of kvs] show ?thesis
    by (simp add: dbmulti_set_def with_db_ok) (simp add: en_ok_def Suc_le_eq)
qed

text \<open>A scan: the length of the text goes through a variable of type \<open>char\<close>.\<close>

lemma scan_text:
  assumes "en_ok en" "0 < m" "m < 2 ^ 31" "length a + length b < 2 ^ 30" and c: "is_cstr a" "is_cstr b"
  defines "d \<equiv> concat (map ssdb_block [a, b, dec_string m])"
  shows "dbscan en (Some a) (int (length a)) (Some b) (int (length b)) (int m) s
    = some_db (dbcmd en DB_SCAN (Some d) (sint (of_nat (length d) :: 8 word)) db_zero s)"
proof -
  have l: "length (dec_string (length a)) \<le> 10" "length (dec_string (length b)) \<le> 10" "length (dec_string m) \<le> 10"
    using assms(3,4) by (simp_all add: length_dec_31)
  then have l4: "length (dec_string (length (dec_string m))) \<le> 10" by (intro length_dec_31) simp
  have "block_size (int (length a) + int (length b) + int (length (dec_string m)) + 64) = length a + length b + length (dec_string m) + 64"
    using assms(4) l(3) by (subst block_size_nat) simp_all
  moreover have "d = dec_string (length a) @ NL # a @ NL # dec_string (length b) @ NL # b @ NL
      # dec_string (length (dec_string m)) @ NL # dec_string m @ [NL]"
    by (simp add: d_def ssdb_block_def)
  ultimately show ?thesis using assms(1,2) l l4
    by (simp add: dbscan_def with_db_ok dbnumlen_dec sprintf_into_def Let_def cstr_of_id c) (simp add: en_ok_def)
qed

lemma sint_of_nat8: "n < 128 \<Longrightarrow> sint (of_nat n :: 8 word) = int n" "128 \<le> n \<Longrightarrow> n < 256 \<Longrightarrow> sint (of_nat n :: 8 word) < 0"
proof -
  have e: "sint (of_nat n :: 8 word) = signed_take_bit 7 (int n)"
    using signed_of_int [of "int n", where ?'b = 8 and ?'a = int] by simp
  show "n < 128 \<Longrightarrow> sint (of_nat n :: 8 word) = int n" unfolding e by (rule signed_take_bit_int_eq_self) simp_all
  show "sint (of_nat n :: 8 word) < 0" if "128 \<le> n" "n < 256"
  proof -
    have "(int n + 128) mod 256 = (int n - 128 + 256) mod 256" by (simp add: add.commute)
    also have "\<dots> = (int n - 128) mod 256" by (rule mod_add_self2)
    also have "\<dots> = int n - 128" using that by simp
    finally have "signed_take_bit 7 (int n) = int n - 256"
      by (simp add: signed_take_bit_eq_take_bit_shift take_bit_eq_mod)
    with that show ?thesis unfolding e by simp
  qed
qed

section \<open>Receiving\<close>

lemma dbcheck_packet: "bs \<noteq> [] \<Longrightarrow> dbcheck (ssdb_packet bs) = Inr True"
proof -
  assume "bs \<noteq> []"
  then obtain bs' b where "bs = bs' @ [b]" by (cases bs rule: rev_cases) auto
  then have "ssdb_packet bs = (concat (map ssdb_block bs') @ dec_string (length b) @ NL # b) @ [NL, NL]"
    by (simp add: ssdb_packet_def ssdb_block_def)
  then show ?thesis by (simp add: dbcheck_def nth_append)
qed

text \<open>
  Pieces that are not empty, of which none but the last ends with an empty line, and that fit the buffer:
  all of them are put together.
\<close>

fun pieces_ok :: "string \<Rightarrow> string list \<Rightarrow> bool" where
  "pieces_ok buf [] \<longleftrightarrow> dbcheck buf = Inr True"
| "pieces_ok buf (c # cs) \<longleftrightarrow> dbcheck buf = Inr False \<and> c \<noteq> [] \<and> pieces_ok (buf @ c) cs"

lemma recv_pieces:
  "pieces_ok buf cs \<Longrightarrow> length (buf @ concat cs) \<le> DB_BUFLEN \<Longrightarrow> r_len \<le> length buf \<Longrightarrow>
     recv_loop grow cs buf r_len DB_BUFLEN k = Inr (Some (buf @ concat cs, DB_BUFLEN))"
proof (induction cs arbitrary: buf r_len k)
  case Nil
  then show ?case by (simp add: recv_loop.simps)
next
  case (Cons c cs)
  have "length buf < DB_BUFLEN" "length c \<le> DB_BUFLEN - r_len" using Cons.prems by (cases c; auto)+
  with Cons.IH [of "buf @ c" "length c" "Suc k"] Cons.prems show ?case
    by (subst recv_loop.simps) (simp add: Let_def)
qed

lemma dbrecv_pieces:
  assumes "at_buf at" "at_recv at = c # cs" "c \<noteq> []" "pieces_ok c cs" "length (concat (c # cs)) \<le> DB_BUFLEN"
  shows "dbrecv at = Inr (Some (concat (c # cs) @ map (at_fill at) [length (concat (c # cs))..<DB_BUFLEN], length (concat (c # cs))))"
  using recv_pieces [OF assms(4), of "length c" "at_more at" 0] assms by (simp add: dbrecv_def Let_def)

lemma send_all: "(\<And>k. 0 < out k) \<Longrightarrow> s_len \<le> datalen \<Longrightarrow> send_loop out k s_len datalen"
proof (induction "datalen - s_len" arbitrary: k s_len rule: less_induct)
  case less
  show ?case
  proof (cases "s_len = datalen")
    case False
    define len where "len = min (out k) (int (datalen - s_len))"
    have "0 < len" "nat len \<le> datalen - s_len" using less.prems(1) [of k] less.prems(2) False by (auto simp: len_def)
    then have "send_loop out (Suc k) (s_len + nat len) datalen" using less.prems by (intro less.hyps) simp_all
    with \<open>0 < len\<close> show ?thesis unfolding send_loop.simps [of out k s_len] Let_def len_def by (simp add: min_le_iff_disj)
  qed (simp add: send_loop.simps)
qed

text \<open>An attempt in which everything works.\<close>

definition good_attempt :: "attempt \<Rightarrow> string \<Rightarrow> bool" where
  "good_attempt at reply \<longleftrightarrow> (\<forall>k. 0 < at_send at k) \<and> at_buf at \<and> at_conn at \<noteq> None \<and> 0 \<le> sint (at_fd at) \<and> at_connect at
     \<and> length reply \<le> DB_BUFLEN \<and> (\<exists>c cs. at_recv at = c # cs \<and> c \<noteq> [] \<and> pieces_ok c cs \<and> concat (c # cs) = reply)"

lemma exchange_good:
  assumes "pool_ok s" "good_attempt (at k) reply" "\<forall>a. at_conn (at k) = Some a \<longrightarrow> a \<notin> dom (st_conns s)"
  shows "\<exists>s' fd pad. exchange (Suc n) at k data s = Inr (s', Some (reply @ pad, length reply))
     \<and> pool_ok s' \<and> busy s' = busy s \<and> st_sent s' = st_sent s @ [(fd, data)]"
proof -
  have snd: "dbsend (at_send (at k)) data" using assms(2) by (auto simp: dbsend_def good_attempt_def intro: send_all)
  from assms(2) obtain pad where rcv: "dbrecv (at k) = Inr (Some (reply @ pad, length reply))"
    using dbrecv_pieces [of "at k"] by (fastforce simp: good_attempt_def)
  from assms(2) obtain a0 where "at_conn (at k) = Some a0" by (auto simp: good_attempt_def)
  then have new: "db_new_conn (at k) s = (s', r) \<Longrightarrow> r \<noteq> None \<and> st_sent s' = st_sent s" for s' r
    using assms(2) dbjiffies_frame [of "at_time (at k)" "s\<lparr>st_fds := at_fd (at k) # st_fds s\<rparr>"]
    by (auto simp: good_attempt_def db_new_conn_def Let_def dbenter_pool_conn_hash_def split: prod.splits) metis
  have sent: "db_get_conn (at k) s = Inr (s', r) \<Longrightarrow> r \<noteq> None \<and> st_sent s' = st_sent s" for s' r
    using new by (auto simp: db_get_conn_def split: if_splits list.splits)
  show ?thesis using assms(1,3)
  proof (cases rule: get_conn_ok)
    case (1 s')
    then show ?thesis using sent by blast
  next
    case (2 s' a)
    then obtain c where c: "st_conns s' a = Some c" by auto
    define t where "t = s'\<lparr>st_sent := st_sent s' @ [(dc_fd c, data)]\<rparr>"
    have t: "pool_ok t" "busy t = insert a (busy s)" unfolding t_def pool_ok_sent using 2(2,3) by simp_all
    have "pool_ok (db_conn_free a t)" "busy (db_conn_free a t) = busy s"
      using pool_ok_free [OF t(1)] t(2) 2(4) by simp_all
    moreover have "exchange (Suc n) at k data s = Inr (db_conn_free a t, Some (reply @ pad, length reply))"
      using 2(1) c snd rcv by (simp add: t_def)
    moreover have "st_sent (db_conn_free a t) = st_sent s @ [(dc_fd c, data)]"
      using sent [OF 2(1)] by (simp add: db_conn_free_def dbpush_free_conn_list_def t_def)
    ultimately show ?thesis by blast
  qed
qed

section \<open>Releasing a result\<close>

text \<open>The key a result owns is there and has not been released.\<close>

definition key_ok :: "db_res \<Rightarrow> bool" where
  "key_ok db \<longleftrightarrow> db_own_key db \<longrightarrow> (\<exists>kv kvs. db_kvs db = Some (kv # kvs) \<and> kv_key kv \<noteq> P_Freed)"

lemma dbfree_ok: "key_ok db \<Longrightarrow> dbfree (Some db) = Inr ()"
  by (auto simp: key_ok_def dbfree_def)

lemma key_ok_rno [simp]: "key_ok (db\<lparr>db_rno := x\<rparr>) = key_ok db" "key_ok (db\<lparr>db_buf := y\<rparr>) = key_ok db"
  "key_ok (db\<lparr>db_rno := x, db_buf := y\<rparr>) = key_ok db"
  by (simp_all add: key_ok_def)

lemma set_kv0_val_key: "set_kv0_val p n db = Inr db' \<Longrightarrow> key_ok db \<Longrightarrow> key_ok db'"
  by (cases "db_kvs db"; cases "the (db_kvs db)") (auto simp: set_kv0_val_def key_ok_def)

lemma reply_value_key: "reply_value buf p n st db = Inr db' \<Longrightarrow> key_ok db \<Longrightarrow> key_ok db'"
  by (auto simp: reply_value_def split: option.split_asm dest!: set_kv0_val_key)

lemma reply_count_key: "reply_count buf p n st db = Inr db' \<Longrightarrow> key_ok db \<Longrightarrow> key_ok db'"
  by (auto simp: reply_count_def key_ok_def split: option.split_asm)

lemma dbsplitkv_key: "dbsplitkv mem buf p n st db = Inr db' \<Longrightarrow> \<not> db_own_key db \<Longrightarrow> key_ok db'"
  by (auto simp: dbsplitkv_def key_ok_def split: if_splits prod.splits)

lemma dbphrase_key:
  assumes "dbphrase mem buf n db cmd = Inr db'" "key_ok db" "db_own_key db \<longrightarrow> cmd = DB_GET"
  shows "key_ok db'"
proof -
  have "key_ok db''" if "reply_data mem cmd buf p n (db\<lparr>db_rno := r\<rparr>) = Inr db''" for p r db''
    using that assms(2,3)
    by (cases cmd) (auto simp: reply_data_def dest: reply_value_key reply_count_key dbsplitkv_key split: if_splits)
  moreover have "key_ok db''" if "free_kv0_key (db\<lparr>db_rno := r\<rparr>) = Inr db''" for r db''
    using that by (auto simp: free_kv0_key_def key_ok_def split: option.splits list.splits)
  ultimately show ?thesis
    using assms(1,2) by (auto simp: dbphrase_def Let_def case_prod_beta split: if_split_asm option.split_asm)
qed

lemma dbdo_key: "dbdo en data db cmd s = Inr (s', db') \<Longrightarrow> key_ok db \<Longrightarrow> db_own_key db \<longrightarrow> cmd = DB_GET \<Longrightarrow> key_ok db'"
  by (auto simp: dbdo_def split: prod.splits option.splits dest!: dbphrase_key)

lemma scan_request:
  assumes "en_ok en" "0 < m" "m < 2 ^ 31" "length (concat (map ssdb_block [a, b, dec_string m])) < 128" "is_cstr a" "is_cstr b"
  shows "dbscan en (Some a) (int (length a)) (Some b) (int (length b)) (int m) s
      = some_db (dbdo en (ssdb_packet [''scan'', a, b, dec_string m]) db_zero DB_SCAN s)"
proof -
  let ?d = "concat (map ssdb_block [a, b, dec_string m])"
  have "length a + length b < length ?d" by (simp add: ssdb_block_def)
  then have "length a + length b < 2 ^ 30" using assms(4) by simp
  then show ?thesis
    using scan_text [OF assms(1-3) _ assms(5,6), of s] dbcmd_packet [of en ?d "[a, b, dec_string m]" DB_SCAN db_zero s]
      sint_of_nat8(1) [OF assms(4)] assms(1,4)
    by (simp only: en_ok_def) simp
qed

text \<open>The commands without data.\<close>

lemma dbcmd_bare: "en_ok en \<Longrightarrow> dbcmd en cmd None 0 db s = dbdo en (ssdb_packet [dbstr cmd]) db cmd s"
  by (cases cmd) (simp_all add: dbcmd_def Let_def en_ok_def ssdb_packet_def ssdb_block_def block_size_def dec_string.simps)

lemma released: "\<not> db_own_key db \<Longrightarrow> db_own_key db \<longrightarrow> cmd = DB_GET \<Longrightarrow> dbdo en data db cmd s = Inr (s', db') \<Longrightarrow> dbfree (Some db') = Inr ()"
  using dbdo_key [of en data db cmd s s' db'] dbfree_ok by (simp add: key_ok_def)

lemma res_bind_cong: "r = r' \<Longrightarrow> (\<And>x. r' = Inr x \<Longrightarrow> f x = g x) \<Longrightarrow> res_bind r f = res_bind r' g"
  by (cases r') simp_all

lemma flush_request:
  assumes "\<forall>i. en_ok (ens i)"
  shows "dbflush ens s =
        res_bind (dbdo (ens 0) (ssdb_packet [''flushdb'']) db_zero DB_FLUSHDB s) (\<lambda>(s, db).
        res_bind (dbdo (ens 1) (ssdb_packet [''clear_binlog'']) db_zero DB_CLR_BINLOG s) (\<lambda>(s, _).
        res_bind (dbdo (ens 2) (ssdb_packet [''compact'']) db_zero DB_COMPACT s) (\<lambda>(s, _). Inr (s, Some db))))"
proof -
  have z: "\<not> db_own_key db_zero" by (simp add: db_zero_def)
  have m: "en_db (ens i)" for i using assms by (simp add: en_ok_def)
  have b: "dbcmd (ens i) cmd None 0 db_zero s = dbdo (ens i) (ssdb_packet [dbstr cmd]) db_zero cmd s" for i cmd s
    using assms by (simp add: dbcmd_bare)
  show ?thesis unfolding dbflush_def b
    by (auto simp: m z intro!: res_bind_cong dest!: released [OF z, rotated])
qed

lemma size_request:
  assumes "\<forall>i. en_ok (ens i)"
  shows "dbsize ens s =
        res_bind (dbdo (ens 1) (ssdb_packet [''compact'']) db_zero DB_COMPACT s) (\<lambda>(s, _).
        res_bind (dbdo (ens 0) (ssdb_packet [''dbsize'']) (db_zero\<lparr>db_kvs := Some [kv_zero]\<rparr>) DB_DBSIZE s) (\<lambda>(s, db). Inr (s, Some db)))"
proof -
  have z: "\<not> db_own_key db_zero" by (simp add: db_zero_def)
  have m: "en_db (ens i)" "en_kvs (ens i)" for i using assms by (simp_all add: en_ok_def)
  have b: "dbcmd (ens i) cmd None 0 db s = dbdo (ens i) (ssdb_packet [dbstr cmd]) db cmd s" for i cmd db s
    using assms by (simp add: dbcmd_bare)
  show ?thesis unfolding dbsize_def b
    by (auto simp: m z intro!: res_bind_cong dest!: released [OF z, rotated])
qed

section \<open>Properties\<close>

text \<open>
  C37: with memory available, every operation sends its messages and nothing else: one with the command followed by the key, the key and
  the value, all keys, or all pairs; \<open>dbflush\<close> sends \<open>flushdb\<close>, \<open>clear_binlog\<close> and \<open>compact\<close>, \<open>dbsize\<close> sends \<open>compact\<close> and \<open>dbsize\<close>.
  The server reads each message back as the command and its arguments; bytes of the values may be
  newlines or anything else, keys are C strings. A \<open>scan\<close> does so as long as its text is shorter than 128 bytes.
\<close>

theorem db_requests_on_wire:
  assumes "en_ok en" "k \<noteq> []" "v \<noteq> []" "length k + length v < 2 ^ 30" "is_cstr k"
    and "ks \<noteq> []" "length (concat (map ssdb_block ks)) < 2 ^ 30" "\<forall>k \<in> set ks. is_cstr k"
    and "kvs \<noteq> []" "length (pair_blocks ssdb_block kvs) < 2 ^ 30" "\<forall>kv \<in> set kvs. is_cstr (fst kv)"
    and "0 < m" "m < 2 ^ 31" "length (concat (map ssdb_block [a, b, dec_string m])) < 128" "is_cstr a" "is_cstr b"
    and "\<forall>i. en_ok (ens i)"
  shows "dbset en (Some k) (int (length k)) (Some v) (int (length v)) s
      = some_db (dbdo en (ssdb_packet [''set'', k, v]) db_zero DB_SET s)
    \<and> dbget en (Some k) (int (length k)) s = some_db (dbdo en (ssdb_packet [''get'', k]) (get_result k) DB_GET s)
    \<and> dbdel en (Some k) (int (length k)) s = some_db (dbdo en (ssdb_packet [''del'', k]) db_zero DB_DEL s)
    \<and> dbexists en (Some k) (int (length k)) s = some_db (dbdo en (ssdb_packet [''exists'', k]) db_zero DB_EXISTS s)
    \<and> dbmulti_get en (Some (map (\<lambda>k. (k, int (length k))) ks)) (int (length ks)) s
      = some_db (dbdo en (ssdb_packet (''multi_get'' # ks)) db_zero DB_MULTI_GET s)
    \<and> dbmulti_del en (Some (map (\<lambda>k. (k, int (length k))) ks)) (int (length ks)) s
      = some_db (dbdo en (ssdb_packet (''multi_del'' # ks)) (db_zero\<lparr>db_kvn := of_nat (length ks)\<rparr>) DB_MULTI_DEL s)
    \<and> dbmulti_set en (Some (map sized_pair kvs)) (int (length kvs)) s
      = some_db (dbdo en (ssdb_packet (''multi_set'' # concat (map (\<lambda>(k, v). [k, v]) kvs)))
          (db_zero\<lparr>db_kvn := of_nat (length kvs)\<rparr>) DB_MULTI_SET s)
    \<and> dbscan en (Some a) (int (length a)) (Some b) (int (length b)) (int m) s
      = some_db (dbdo en (ssdb_packet [''scan'', a, b, dec_string m]) db_zero DB_SCAN s)
    \<and> dbflush ens s =
        res_bind (dbdo (ens 0) (ssdb_packet [''flushdb'']) db_zero DB_FLUSHDB s) (\<lambda>(s, db).
        res_bind (dbdo (ens 1) (ssdb_packet [''clear_binlog'']) db_zero DB_CLR_BINLOG s) (\<lambda>(s, _).
        res_bind (dbdo (ens 2) (ssdb_packet [''compact'']) db_zero DB_COMPACT s) (\<lambda>(s, _). Inr (s, Some db))))
    \<and> dbsize ens s =
        res_bind (dbdo (ens 1) (ssdb_packet [''compact'']) db_zero DB_COMPACT s) (\<lambda>(s, _).
        res_bind (dbdo (ens 0) (ssdb_packet [''dbsize'']) (db_zero\<lparr>db_kvs := Some [kv_zero]\<rparr>) DB_DBSIZE s) (\<lambda>(s, db). Inr (s, Some db)))
    \<and> (\<forall>bs. ssdb_parse (ssdb_packet bs) = Some bs)"
proof (intro conjI)
  show "dbset en (Some k) (int (length k)) (Some v) (int (length v)) s
      = some_db (dbdo en (ssdb_packet [''set'', k, v]) db_zero DB_SET s)"
    by (rule set_request [OF assms(1-5)])
  have k: "length k < 2 ^ 30" using assms(4) by simp
  show "dbget en (Some k) (int (length k)) s = some_db (dbdo en (ssdb_packet [''get'', k]) (get_result k) DB_GET s)"
    by (rule get_request [OF assms(1,2) k assms(5)])
  show "dbdel en (Some k) (int (length k)) s = some_db (dbdo en (ssdb_packet [''del'', k]) db_zero DB_DEL s)"
    "dbexists en (Some k) (int (length k)) s = some_db (dbdo en (ssdb_packet [''exists'', k]) db_zero DB_EXISTS s)"
    by (rule del_request [OF assms(1,2) k assms(5)])+
  show "dbmulti_get en (Some (map (\<lambda>k. (k, int (length k))) ks)) (int (length ks)) s
      = some_db (dbdo en (ssdb_packet (''multi_get'' # ks)) db_zero DB_MULTI_GET s)"
    using multi_requests [OF assms(1,6-8), of DB_MULTI_GET 0 s] by (simp add: dbmulti_get_def db_zero_def)
  show "dbmulti_del en (Some (map (\<lambda>k. (k, int (length k))) ks)) (int (length ks)) s
      = some_db (dbdo en (ssdb_packet (''multi_del'' # ks)) (db_zero\<lparr>db_kvn := of_nat (length ks)\<rparr>) DB_MULTI_DEL s)"
    using multi_requests [OF assms(1,6-8), of DB_MULTI_DEL "of_nat (length ks)" s] by (simp add: dbmulti_del_def)
  show "dbmulti_set en (Some (map sized_pair kvs)) (int (length kvs)) s
      = some_db (dbdo en (ssdb_packet (''multi_set'' # concat (map (\<lambda>(k, v). [k, v]) kvs)))
          (db_zero\<lparr>db_kvn := of_nat (length kvs)\<rparr>) DB_MULTI_SET s)"
    by (rule multi_set_request [OF assms(1,9-11)])
  show "dbscan en (Some a) (int (length a)) (Some b) (int (length b)) (int m) s
      = some_db (dbdo en (ssdb_packet [''scan'', a, b, dec_string m]) db_zero DB_SCAN s)"
    by (rule scan_request [OF assms(1,12-16)])
qed (use flush_request [of ens s] size_request [of ens s] assms(17) ssdb_parse_packet in simp_all)

definition quiet_attempt :: "string list \<Rightarrow> attempt" where
  "quiet_attempt pieces = \<lparr>at_conn = Some 1, at_fd = 5, at_connect = True, at_time = (0, 0), at_send = (\<lambda>_. 7), at_buf = True,
     at_more = (\<lambda>_. True), at_fill = (\<lambda>_. NUL), at_recv = pieces\<rparr>"

definition quiet_env :: "string list \<Rightarrow> db_env" where
  "quiet_env pieces = \<lparr>en_db = True, en_kvs = True, en_key = True, en_data = True, en_cmd = True, en_split = True,
     en_try = (\<lambda>_. quiet_attempt pieces)\<rparr>"

definition no_conns :: db_state where
  "no_conns = \<lparr>st_addr = 0, st_port = 0, st_start = 0, st_second = 0, st_conns = (\<lambda>_. None), st_pool = (\<lambda>_. []),
     st_pool_count = 0, st_free = [], st_free_count = 0, st_fds = [], st_sent = []\<rparr>"

lemma quiet_ok: "en_ok (quiet_env ps)" "pool_ok no_conns" "busy no_conns = {}"
  by (simp_all add: en_ok_def quiet_env_def pool_ok_def busy_def no_conns_def)

theorem db_requests_on_wire_witness:
  "dbset (quiet_env []) (Some ''k'') 1 (Some [NL, NL]) 2 no_conns
   = some_db (dbdo (quiet_env []) (ssdb_packet [''set'', ''k'', [NL, NL]]) db_zero DB_SET no_conns)"
proof -
  have "dec_string (Suc 0) = ''1''" by code_simp
  then show ?thesis
    using db_requests_on_wire [OF quiet_ok(1), of "''k''" "[NL, NL]" "[''a'']" "[(''a'', [])]" 1 "[]" "[]" "\<lambda>_. quiet_env []" "[]" no_conns]
    by (simp add: ssdb_block_def dec_string.simps [of 0] quiet_ok is_cstr_def)
qed

text \<open>
  C17: whatever the network does in the up to four attempts, a command leaves the pool consistent (every
  connection in the chain of its descriptor, the counters right, no assertion on them failing), gives
  back every connection it took or destroys it and closes its descriptor: if the open descriptors were those of the
  connections and \<open>L\<close>, they are those of the connections and \<open>L\<close> afterwards, except that a failed \<open>connect\<close>, which ends the attempts,
  leaves its own descriptor open. The result can be released with \<open>dbfree\<close>; a fault
  can only come from the receive buffer or from the reply.
\<close>

theorem db_pool_consistent:
  assumes "pool_ok s" "\<forall>j a. at_conn (en_try en j) = Some a \<longrightarrow> a \<notin> dom (st_conns s)"
    and "key_ok db" "db_own_key db \<longrightarrow> cmd = DB_GET" "mset (st_fds s) = conn_fds s + L"
  shows "case dbdo en data db cmd s of
      Inr (s', db') \<Rightarrow> pool_ok s' \<and> busy s' = busy s \<and> dbfree (Some db') = Inr ()
        \<and> (mset (st_fds s') = conn_fds s' + L
           \<or> (\<exists>j < 4. \<not> at_connect (en_try en j) \<and> mset (st_fds s') = conn_fds s' + add_mset (at_fd (en_try en j)) L))
    | Inl e \<Rightarrow> (\<exists>j. dbrecv (en_try en j) = Inl e) \<or> (\<exists>buf n. dbphrase (en_split en) buf n (db\<lparr>db_buf := Some buf\<rparr>) cmd = Inl e)"
proof (cases "dbdo en data db cmd s")
  case (Inl e)
  with exchange_ok [OF assms(1,2), of 4 0 data] show ?thesis
    by (cases "exchange 4 (en_try en) 0 data s") (auto simp: dbdo_def res_bind_def split: option.splits sum.splits)
next
  case (Inr r)
  obtain s' db' where r: "r = (s', db')" by (cases r)
  from Inr r obtain x where x: "exchange 4 (en_try en) 0 data s = Inr (s', x)" by (auto simp: dbdo_def split: option.splits)
  with exchange_ok [OF assms(1,2), of 4 0 data] have "pool_ok s' \<and> busy s' = busy s" by simp
  moreover have "dbfree (Some db') = Inr ()" using dbdo_key [OF _ assms(3,4)] Inr r by (blast intro: dbfree_ok)
  ultimately show ?thesis
    using exchange_fds [OF assms(1,2) _ x, of L] assms(5) unfolding fds_open_def by (simp add: Inr r)
qed

text \<open>A server that takes the connections and no data.\<close>

definition deaf_env :: db_env where
  "deaf_env = (quiet_env [])\<lparr>en_try := (\<lambda>_. (quiet_attempt [])\<lparr>at_send := (\<lambda>_. - 1)\<rparr>)\<rparr>"

theorem db_pool_consistent_witness:
  "case dbdo deaf_env (ssdb_packet [''get'', ''k'']) (get_result ''k'') DB_GET no_conns of
      Inr (s', db') \<Rightarrow> pool_ok s' \<and> busy s' = {} \<and> dbfree (Some db') = Inr () \<and> mset (st_fds s') = conn_fds s' | Inl e \<Rightarrow> False"
proof -
  have "\<not> isl (dbdo deaf_env (ssdb_packet [''get'', ''k'']) (get_result ''k'') DB_GET no_conns)"
    by code_simp
  moreover have "at_conn (en_try deaf_env j) = Some a \<longrightarrow> a \<notin> dom (st_conns no_conns)" for j a
    by (simp add: no_conns_def)
  moreover have "key_ok (get_result ''k'')" by (simp add: key_ok_def get_result_def kv_zero_def)
  moreover have "mset (st_fds no_conns) = conn_fds no_conns + {#}" by (simp add: no_conns_def conn_fds_def)
  moreover have "at_connect (en_try deaf_env j)" for j by (simp add: deaf_env_def quiet_attempt_def)
  ultimately show ?thesis
    using db_pool_consistent [of no_conns deaf_env "get_result ''k''" DB_GET "{#}" "ssdb_packet [''get'', ''k'']"] quiet_ok
    by (cases "dbdo deaf_env (ssdb_packet [''get'', ''k'']) (get_result ''k'') DB_GET no_conns") auto
qed

text \<open>
  C15: a \<open>get\<close> whose first attempt reaches the server, and whose reply \<open>ok\<close> with a value arrives in
  pieces that fit the buffer and none of which but the last ends with an empty line, sends the request
  once, returns the key and the value, and leaves its connection idle.
\<close>

theorem db_get_end_to_end:
  assumes "pool_ok s" "busy s = {}" "en_ok en" "k \<noteq> []" "length k < 2 ^ 30" "is_cstr k"
    and "good_attempt (en_try en 0) (ssdb_packet [''ok'', v])"
    and "\<forall>a. at_conn (en_try en 0) = Some a \<longrightarrow> a \<notin> dom (st_conns s)"
  shows "\<exists>s' db kv fd. dbget en (Some k) (int (length k)) s = Inr (s', Some db)
    \<and> st_sent s' = st_sent s @ [(fd, ssdb_packet [''get'', k])] \<and> pool_ok s' \<and> busy s' = {}
    \<and> db_rno db = DB_GET_OK \<and> db_kvn db = 1 \<and> db_kvs db = Some [kv] \<and> pair_at (db_buf db) kv = (Some k, Some v)"
proof -
  let ?p = "ssdb_packet [''ok'', v]"
  from exchange_good [where at = "en_try en" and k = 0 and n = 3, OF assms(1,7,8), of "ssdb_packet [''get'', k]"] obtain s' fd pad where
    x: "exchange 4 (en_try en) 0 (ssdb_packet [''get'', k]) s = Inr (s', Some (?p @ pad, length ?p))"
      "pool_ok s'" "busy s' = {}" "st_sent s' = st_sent s @ [(fd, ssdb_packet [''get'', k])]"
    using assms(2) by (auto simp: numeral_eq_Suc)
  let ?db = "(get_result k)\<lparr>db_buf := Some (?p @ pad)\<rparr>"
  let ?kv = "kv_zero\<lparr>kv_key := P_Own k, kv_key_len := int (length k)\<rparr>"
  have "length v < 2 ^ 31" using assms(7) by (auto simp: good_attempt_def DB_BUFLEN_def ssdb_packet_def ssdb_block_def)
  from reply_one [OF _ _ this, of DB_GET DB_GET_OK ?db ?kv "[]" "en_split en" pad] obtain db kv' where
    r: "dbphrase (en_split en) (?p @ pad) (int (length ?p)) ?db DB_GET = Inr db" "db_rno db = DB_GET_OK" "db_kvn db = 1"
      "db_kvs db = Some [kv']" "kv_key kv' = P_Own k" "kv_key_len kv' = int (length k)"
      "text_at (db_buf db) (kv_val kv') (kv_val_len kv') = Some v"
    by (auto simp: get_result_def db_zero_def)
  have "dbget en (Some k) (int (length k)) s = Inr (s', Some db)"
    unfolding get_request [OF assms(3-6)] by (simp add: dbdo_def some_db_def x(1) r(1))
  with x r show ?thesis by (auto simp: pair_at_def text_at_def)
qed

theorem db_get_end_to_end_witness:
  "\<exists>s' db kv fd. dbget (quiet_env [[CHR ''2'', NL], ''ok'' @ [NL, CHR ''1'', NL], ''v'' @ [NL, NL]]) (Some ''k'') 1 no_conns = Inr (s', Some db)
    \<and> st_sent s' = [(fd, ssdb_packet [''get'', ''k''])] \<and> pool_ok s' \<and> busy s' = {}
    \<and> db_rno db = DB_GET_OK \<and> db_kvn db = 1 \<and> db_kvs db = Some [kv] \<and> pair_at (db_buf db) kv = (Some ''k'', Some ''v'')"
proof -
  let ?ps = "[[CHR ''2'', NL], ''ok'' @ [NL, CHR ''1'', NL], ''v'' @ [NL, NL]]"
  have e: "concat ?ps = ssdb_packet [''ok'', ''v'']" by code_simp
  have "pieces_ok (hd ?ps) (tl ?ps)" "length (concat ?ps) \<le> DB_BUFLEN" by (code_simp, code_simp)
  then have "good_attempt (en_try (quiet_env ?ps) 0) (ssdb_packet [''ok'', ''v''])"
    unfolding good_attempt_def e [symmetric] by (simp add: quiet_env_def quiet_attempt_def)
  from db_get_end_to_end [OF quiet_ok(2,3,1) _ _ _ this, of "''k''"] show ?thesis
    by (simp add: no_conns_def is_cstr_def)
qed

text \<open>
  C39: two ways to write outside a buffer. A \<open>scan\<close> whose text is 128 to 255 bytes long: the length, kept in a
  \<open>char\<close>, is negative and becomes a huge count for \<open>memcpy\<close>. And a reply in three pieces: the room
  given to the third \<open>recv\<close> is computed from the length of the second piece alone, and a piece that uses it runs
  over the end of the buffer.
\<close>

theorem db_buffer_overruns:
  assumes "en_ok en" "0 < m" "m < 2 ^ 31" "length p + length q < 2 ^ 30" and c: "is_cstr p" "is_cstr q"
    and "128 \<le> length (concat (map ssdb_block [p, q, dec_string m]))" "length (concat (map ssdb_block [p, q, dec_string m])) < 256"
    and "at_buf at" "at_recv at = [a, b, c]" "2 \<le> length a" "b \<noteq> []" "dbcheck a = Inr False" "dbcheck (a @ b) = Inr False"
    and "length a + length b < DB_BUFLEN" "length c \<le> DB_BUFLEN - length b" "DB_BUFLEN < length a + length b + length c"
  shows "dbscan en (Some p) (int (length p)) (Some q) (int (length q)) (int m) s = Inl Out_Of_Bounds
    \<and> dbrecv at = Inl Out_Of_Bounds"
proof
  let ?d = "concat (map ssdb_block [p, q, dec_string m])"
  have "dbcmd en DB_SCAN (Some ?d) (sint (of_nat (length ?d) :: 8 word)) db_zero s = Inl Out_Of_Bounds"
    using assms(1) sint_of_nat8(2) [OF assms(7,8)] by (simp only: dbcmd_def Let_def en_ok_def simp_thms if_False if_True)
  then show "dbscan en (Some p) (int (length p)) (Some q) (int (length q)) (int m) s = Inl Out_Of_Bounds"
    by (simp only: scan_text [OF assms(1-4) c] some_db_def res_bind_simps)
  have l: "length a \<le> DB_BUFLEN" "length b \<le> DB_BUFLEN - length a" "a \<noteq> []" "c \<noteq> []" using assms(11,15,16,17) by auto
  have "recv_loop (at_more at) [b, c] a (length a) DB_BUFLEN 0 = recv_loop (at_more at) [c] (a @ b) (length b) DB_BUFLEN 1"
    using assms(12,13,15) l by (subst recv_loop.simps) (simp add: Let_def)
  also have "\<dots> = Inl Out_Of_Bounds"
    using assms(14-17) l by (subst recv_loop.simps) (simp add: Let_def)
  finally show "dbrecv at = Inl Out_Of_Bounds" using assms(9,10) l by (simp add: dbrecv_def Let_def)
qed

theorem db_buffer_overruns_witness:
  "dbscan (quiet_env []) (Some (replicate 120 CHR ''a'')) 120 (Some []) 0 1 no_conns = Inl Out_Of_Bounds
   \<and> dbrecv (quiet_attempt [replicate 6000 CHR ''a'', ''b'', replicate 5000 CHR ''c'']) = Inl Out_Of_Bounds"
proof -
  have ds: "dec_string 0 = ''0''" "dec_string (Suc 0) = ''1''" "length (dec_string 120) = 3" by (code_simp, code_simp, code_simp)
  have "length (concat (map ssdb_block [replicate 120 CHR ''a'', [], dec_string 1])) = 132"
    by (simp add: ssdb_block_def ds)
  moreover have "dbcheck (replicate 6000 CHR ''a'') = Inr False" "dbcheck (replicate 6000 CHR ''a'' @ ''b'') = Inr False"
    by (simp_all add: dbcheck_def nth_append)
  ultimately show ?thesis
    using db_buffer_overruns [OF quiet_ok(1) [of "[]"], of 1 "replicate 120 CHR ''a''" "[]"
        "quiet_attempt [replicate 6000 CHR ''a'', ''b'', replicate 5000 CHR ''c'']" "replicate 6000 CHR ''a''" "''b''"
        "replicate 5000 CHR ''c''" no_conns]
    by (simp add: quiet_attempt_def DB_BUFLEN_def is_cstr_def)
qed

end
