(* ===== verification/Data_Purge.thy ===== *)
theory Data_Purge
  imports Db_Client "HOL-Library.Char_ord" "HOL-Library.List_Lexorder"
begin

text \<open>
  Purging old records from the database, \<^verbatim>\<open>TCP_C/auto_data_save.c\<close>. Records are kept under keys that end in a time, counted
  backwards from \<open>GMT_REVERS_MASK\<close>, so that old records have large numbers; a purge scans for keys behind the oldest time
  to keep, deletes what it finds, and goes on behind the last key found until a scan finds nothing.

  The database itself is a parameter: the keys a state holds, \<open>scan\<close> and \<open>del\<close>. \<open>ssdb_laws\<close> states what its documentation
  promises: a scan returns the first keys, in the order of their bytes, that are greater than the start and not greater than the
  end.

  Shown: the purge of records under user and time ends and deletes only records more than a second older than the time given, and all
  of them if no two records are a second apart. The purge of detail records reads the type where it means to read the time: once it has found one old
  record of type 1, it deletes all records of that type, new ones included.
\<close>

section \<open>Model\<close>

abbreviation (input) USERID_LEN :: nat where "USERID_LEN \<equiv> 6"
abbreviation (input) DB_KVN_MAX :: nat where "DB_KVN_MAX \<equiv> 1024"

type_synonym 's scan_fun = "string \<Rightarrow> string \<Rightarrow> nat \<Rightarrow> 's \<Rightarrow> (string \<times> string) list option"

text \<open>\<open>%d\<close> of an unsigned number and \<open>%llu\<close>.\<close>

definition fmt_id :: "u32 \<Rightarrow> string" where
  "fmt_id i = fmt_d (sint (ucast i :: s32))"

definition fmt_llu :: "u64 \<Rightarrow> string" where
  "fmt_llu t = dec_string (unat t)"

definition next_gmt :: "u64 \<Rightarrow> u64" where
  "next_gmt gmt = (if gmt \<noteq> 0 then gmt + 1 else 0)"

text \<open>
  The loop all purges share. \<open>start\<close> makes the start of the scan from the time, \<open>get_time\<close> reads the time from the last key. The result
  is the return value and the database; \<open>None\<close> means that the loop does not end.
\<close>

partial_function (option) purge_loop ::
  "'s scan_fun \<Rightarrow> (string \<Rightarrow> 's \<Rightarrow> 's) \<Rightarrow> (u64 \<Rightarrow> string) \<Rightarrow> string \<Rightarrow> (string \<Rightarrow> u64 res) \<Rightarrow> u64 \<Rightarrow> 's \<Rightarrow> (s32 \<times> 's) res option"
where
  "purge_loop scan del start end' get_time gmt s =
     (case scan (start gmt) end' DB_KVN_MAX s of
        None \<Rightarrow> Some (Inr (-1, s))
      | Some kvs \<Rightarrow>
          if kvs = [] then Some (Inr (0, s))
          else (case get_time (fst (last kvs)) of
                  Inl e \<Rightarrow> Some (Inl e)
                | Inr gmt \<Rightarrow> purge_loop scan del start end' get_time gmt (fold (\<lambda>kv. del (snprintf_s 64 (fst kv))) kvs s)))"

declare purge_loop.simps [code]

text \<open>\<open>key + strlen(prefix) + USERID_LEN\<close>, and the place after the next dash.\<close>

definition time_at :: "nat \<Rightarrow> string \<Rightarrow> u64 res" where
  "time_at n key = (if length key < n then Inl Out_Of_Bounds else Inr (atoull (drop n key)))"

definition time_after_dash :: "nat \<Rightarrow> string \<Rightarrow> u64 res" where
  "time_after_dash n key =
     (if CHR ''-'' \<in> set (drop n key) then Inr (atoull (tl (dropWhile (\<lambda>c. c \<noteq> CHR ''-'') (drop n key))))
      else Inl Out_Of_Bounds)"

definition ww_del_user_db_data_by_uid_type_gmt_prefix ::
  "'s scan_fun \<Rightarrow> (string \<Rightarrow> 's \<Rightarrow> 's) \<Rightarrow> u64 \<Rightarrow> u32 \<Rightarrow> string \<Rightarrow> u32 \<Rightarrow> 's \<Rightarrow> (s32 \<times> 's) res option" where
  "ww_del_user_db_data_by_uid_type_gmt_prefix scan del gmt uid prefix type s =
     purge_loop scan del
       (\<lambda>g. snprintf_s 64 (prefix @ fmt_id uid @ ''-'' @ fmt_id type @ ''-'' @ fmt_llu (next_gmt g)))
       (snprintf_s 64 (prefix @ fmt_id uid @ ''-'' @ fmt_id type @ ''.''))
       (time_at (length prefix + USERID_LEN)) gmt s"

definition ww_del_user_db_data_by_gmt_uid_prefix ::
  "'s scan_fun \<Rightarrow> (string \<Rightarrow> 's \<Rightarrow> 's) \<Rightarrow> u64 \<Rightarrow> u32 \<Rightarrow> string \<Rightarrow> 's \<Rightarrow> (s32 \<times> 's) res option" where
  "ww_del_user_db_data_by_gmt_uid_prefix scan del gmt uid prefix s =
     purge_loop scan del
       (\<lambda>g. snprintf_s 64 (prefix @ fmt_id uid @ ''-'' @ fmt_llu (next_gmt g)))
       (snprintf_s 64 (prefix @ fmt_id uid @ ''.''))
       (time_at (length prefix + USERID_LEN)) gmt s"

definition ww_del_user_qq_msg_data_by_gmt_uid_prefix ::
  "'s scan_fun \<Rightarrow> (string \<Rightarrow> 's \<Rightarrow> 's) \<Rightarrow> u64 \<Rightarrow> u32 \<Rightarrow> string \<Rightarrow> u32 \<Rightarrow> 's \<Rightarrow> (s32 \<times> 's) res option" where
  "ww_del_user_qq_msg_data_by_gmt_uid_prefix scan del gmt uid prefix qq_id s =
     purge_loop scan del
       (\<lambda>g. snprintf_s 64 (prefix @ fmt_id uid @ ''-'' @ fmt_id qq_id @ ''-'' @ fmt_llu (next_gmt g)))
       (snprintf_s 64 (prefix @ fmt_id uid @ ''-'' @ fmt_id qq_id @ ''.''))
       (time_at (length prefix + USERID_LEN)) gmt s"

definition ww_del_group_db_data_by_gmt_gid_prefix ::
  "'s scan_fun \<Rightarrow> (string \<Rightarrow> 's \<Rightarrow> 's) \<Rightarrow> u64 \<Rightarrow> u32 \<Rightarrow> string \<Rightarrow> 's \<Rightarrow> (s32 \<times> 's) res option" where
  "ww_del_group_db_data_by_gmt_gid_prefix scan del gmt gid prefix s =
     purge_loop scan del
       (\<lambda>g. snprintf_s 64 (prefix @ fmt_id gid @ ''-'' @ fmt_llu (next_gmt g)))
       (snprintf_s 64 (prefix @ fmt_id gid @ ''.''))
       (time_after_dash (length prefix)) gmt s"

text \<open>
  The chats of a user: for every entry of \<open>PRE_USER_QQ_CALC_MSGTIME\<close> the messages with that account are purged; the entry itself
  goes only when everything is to go. \<open>account\<close> reads the number out of the stored structure. The argument \<open>prefix\<close> of the source
  is not used there.
\<close>

definition PRE_USER_ACTION :: string where "PRE_USER_ACTION = ''dyua-''"
definition PRE_USER_QQ_MESSAGE :: string where "PRE_USER_QQ_MESSAGE = ''dyuq-''"
definition PRE_USER_QQ_CALC_MSG :: string where "PRE_USER_QQ_CALC_MSG = ''anuq-''"
definition PRE_USER_QQ_CALC_MSGTIME :: string where "PRE_USER_QQ_CALC_MSGTIME = ''anuqt-''"
definition PRE_USER_CALC_ACTION :: string where "PRE_USER_CALC_ACTION = ''anua-''"
definition PRE_USER_DETAIL_ACTION :: string where "PRE_USER_DETAIL_ACTION = ''anud-''"
definition PRE_USERGROUP_CALC_ACTION :: string where "PRE_USERGROUP_CALC_ACTION = ''anuga-''"

fun qq_entries ::
  "'s scan_fun \<Rightarrow> (string \<Rightarrow> 's \<Rightarrow> 's) \<Rightarrow> (string \<Rightarrow> u32) \<Rightarrow> u64 \<Rightarrow> u32 \<Rightarrow> (string \<times> string) list \<Rightarrow> 's \<Rightarrow> 's res option" where
  "qq_entries scan del account gmt uid [] s = Some (Inr s)"
| "qq_entries scan del account gmt uid ((k, v) # kvs) s =
     Option.bind (ww_del_user_qq_msg_data_by_gmt_uid_prefix scan del gmt uid PRE_USER_QQ_CALC_MSG (account v) s) (\<lambda>r.
       case r of
         Inl e \<Rightarrow> Some (Inl e)
       | Inr (_, s) \<Rightarrow> qq_entries scan del account gmt uid kvs (if gmt = 0 then del (snprintf_s 64 k) s else s))"

partial_function (option) qq_loop ::
  "'s scan_fun \<Rightarrow> (string \<Rightarrow> 's \<Rightarrow> 's) \<Rightarrow> (string \<Rightarrow> u32) \<Rightarrow> u64 \<Rightarrow> u32 \<Rightarrow> string \<Rightarrow> 's \<Rightarrow> (s32 \<times> 's) res option" where
  "qq_loop scan del account gmt uid scanflag s =
     (case scan (if scanflag \<noteq> [] then scanflag else snprintf_s 64 (PRE_USER_QQ_CALC_MSGTIME @ fmt_id uid @ ''-''))
            (snprintf_s 64 (PRE_USER_QQ_CALC_MSGTIME @ fmt_id uid @ ''.'')) DB_KVN_MAX s of
        None \<Rightarrow> Some (Inr (-1, s))
      | Some kvs \<Rightarrow>
          if kvs = [] then Some (Inr (0, s))
          else Option.bind (qq_entries scan del account gmt uid kvs s) (\<lambda>r.
            case r of
              Inl e \<Rightarrow> Some (Inl e)
            | Inr s \<Rightarrow> qq_loop scan del account gmt uid
                (snprintf_s 64 (PRE_USER_QQ_CALC_MSGTIME @ fmt_id uid @ ''-'' @ fmt_id (account (snd (last kvs)) + 1))) s))"

definition ww_del_user_qq_data_by_gmt_uid_prefix ::
  "'s scan_fun \<Rightarrow> (string \<Rightarrow> 's \<Rightarrow> 's) \<Rightarrow> (string \<Rightarrow> u32) \<Rightarrow> u64 \<Rightarrow> u32 \<Rightarrow> 's \<Rightarrow> (s32 \<times> 's) res option" where
  "ww_del_user_qq_data_by_gmt_uid_prefix scan del account gmt uid s = qq_loop scan del account gmt uid [] s"

text \<open>A sequence of purges, whose return values are ignored.\<close>

fun run_purges :: "('s \<Rightarrow> (s32 \<times> 's) res option) list \<Rightarrow> 's \<Rightarrow> 's res option" where
  "run_purges [] s = Some (Inr s)"
| "run_purges (f # fs) s =
     Option.bind (f s) (\<lambda>r. case r of Inl e \<Rightarrow> Some (Inl e) | Inr (_, s) \<Rightarrow> run_purges fs s)"

definition ww_del_all_dynamic_data ::
  "'s scan_fun \<Rightarrow> (string \<Rightarrow> 's \<Rightarrow> 's) \<Rightarrow> u64 \<Rightarrow> u32 list \<Rightarrow> 's \<Rightarrow> 's res option" where
  "ww_del_all_dynamic_data scan del gmt users s =
     (let tm = GMT_REVERS_MASK - gmt in
      run_purges (concat (map (\<lambda>uid.
          [ww_del_user_db_data_by_gmt_uid_prefix scan del tm uid PRE_USER_ACTION,
           ww_del_user_db_data_by_gmt_uid_prefix scan del tm uid PRE_USER_QQ_MESSAGE]) users)) s)"

text \<open>After the loops \<open>user\<close> still points to the last user, or is NULL if there was none.\<close>

definition ww_del_all_analyzer_data ::
  "'s scan_fun \<Rightarrow> (string \<Rightarrow> 's \<Rightarrow> 's) \<Rightarrow> (string \<Rightarrow> u32) \<Rightarrow> u64 \<Rightarrow> u32 list \<Rightarrow> u32 list \<Rightarrow> 's \<Rightarrow> 's res option" where
  "ww_del_all_analyzer_data scan del account gmt users groups s =
     (let tm = GMT_REVERS_MASK - gmt in
      Option.bind
        (run_purges
          (concat (map (\<lambda>uid.
             map (\<lambda>i. ww_del_user_db_data_by_uid_type_gmt_prefix scan del tm uid PRE_USER_DETAIL_ACTION (of_nat i)) [0..<8]
             @ [ww_del_user_db_data_by_gmt_uid_prefix scan del tm uid PRE_USER_CALC_ACTION]) users)
           @ map (\<lambda>gid. ww_del_group_db_data_by_gmt_gid_prefix scan del tm gid PRE_USERGROUP_CALC_ACTION) (0 # groups)) s)
        (\<lambda>r. case r of
           Inl e \<Rightarrow> Some (Inl e)
         | Inr s \<Rightarrow>
             if users = [] then Some (Inl Null_Deref)
             else run_purges [ww_del_user_qq_data_by_gmt_uid_prefix scan del account tm (last users)] s))"

section \<open>The order of keys\<close>

text \<open>What the documentation of the database promises.\<close>

definition ssdb_laws :: "('s \<Rightarrow> string set) \<Rightarrow> 's scan_fun \<Rightarrow> (string \<Rightarrow> 's \<Rightarrow> 's) \<Rightarrow> bool" where
  "ssdb_laws keys scan del \<longleftrightarrow>
     (\<forall>s. finite (keys s))
     \<and> (\<forall>s a b n. \<exists>kvs. scan a b n s = Some kvs \<and> map fst kvs = take n (sorted_list_of_set {k \<in> keys s. a < k \<and> k \<le> b}))
     \<and> (\<forall>k s. keys (del k s) = keys s - {k})"

lemma append_less [simp]: "(p @ x < p @ y) = (x < (y :: string))" "(p @ x \<le> p @ y) = (x \<le> (y :: string))"
  by (induction p) simp_all

lemma less_snoc: "length xs = length ys \<Longrightarrow> (xs @ [x] < ys @ [y]) = (xs < ys \<or> xs = ys \<and> x < (y :: char))"
  by (induction xs ys rule: list_induct2) auto

lemma dec_digit_less: "d < 10 \<Longrightarrow> e < 10 \<Longrightarrow> (dec_digit d < dec_digit e) = (d < e)"
  by (simp add: dec_digit_def less_char_def)

lemma div10_range:
  fixes n :: nat
  assumes "10 ^ Suc k \<le> n" "n < 10 ^ Suc (Suc k)"
  shows "10 \<le> n" "10 ^ k \<le> n div 10" "n div 10 < 10 ^ Suc k"
proof -
  have "10 * 1 \<le> 10 * (10 :: nat) ^ k" by (intro mult_le_mono2) simp
  also have "\<dots> \<le> n" using assms(1) by simp
  finally show "10 \<le> n" by simp
  have "10 ^ k * 10 \<le> n" using assms(1) by simp
  then show "10 ^ k \<le> n div 10" by (simp only: less_eq_div_iff_mult_less_eq zero_less_numeral)
  have "n < 10 ^ Suc k * 10" using assms(2) by simp
  then show "n div 10 < 10 ^ Suc k" by (simp only: div_less_iff_less_mult zero_less_numeral)
qed

lemma dec_string_snoc: "10 \<le> n \<Longrightarrow> dec_string n = dec_string (n div 10) @ [dec_digit (n mod 10)]"
  by (simp add: dec_string.simps [of n] dec_digit_def)

lemma dec_string_len:
  "10 ^ k \<le> n \<Longrightarrow> n < 10 ^ Suc k \<Longrightarrow> length (dec_string n) = Suc k"
proof (induction k arbitrary: n)
  case 0
  then show ?case by (simp add: dec_string.simps [of n])
next
  case (Suc k)
  note d = div10_range [OF Suc.prems]
  show ?case unfolding dec_string_snoc [OF d(1)] using Suc.IH [OF d(2,3)] by simp
qed

lemma div_mod_less: "(m div 10 < n div 10 \<or> m div 10 = n div 10 \<and> m mod 10 < n mod 10) = (m < (n :: nat))"
proof -
  have "m = 10 * (m div 10) + m mod 10" "n = 10 * (n div 10) + n mod 10" "m mod 10 < 10" "n mod 10 < 10" by simp_all
  then show ?thesis by linarith
qed

lemma dec_string_less:
  assumes "10 ^ k \<le> m" "m < 10 ^ Suc k" "10 ^ k \<le> n" "n < 10 ^ Suc k"
  shows "(dec_string m < dec_string n) = (m < n)"
  using assms
proof (induction k arbitrary: m n)
  case 0
  then show ?case using dec_digit_less [of m n] by (simp add: dec_string.simps [of m] dec_string.simps [of n] dec_digit_def)
next
  case (Suc k)
  note m = div10_range [OF Suc.prems(1,2)] and n = div10_range [OF Suc.prems(3,4)]
  have len: "length (dec_string (m div 10)) = length (dec_string (n div 10))" using dec_string_len m n by metis
  have eq: "dec_string (m div 10) = dec_string (n div 10) \<longleftrightarrow> m div 10 = n div 10"
    using digits_val_dec_string by metis
  have dg: "(dec_digit (m mod 10) < dec_digit (n mod 10)) = (m mod 10 < n mod 10)" by (rule dec_digit_less) simp_all
  show ?case
    unfolding dec_string_snoc [OF m(1)] dec_string_snoc [OF n(1)] less_snoc [OF len] eq dg Suc.IH [OF m(2,3) n(2,3)]
    by (rule div_mod_less)
qed

section \<open>One round\<close>

lemma take_sorted:
  assumes "finite R" "R \<noteq> {}" "0 < n" "ks = take n (sorted_list_of_set R)"
  shows "ks \<noteq> []" "last ks \<in> R" "set ks = {k \<in> R. k \<le> (last ks :: 'k :: linorder)}"
proof -
  let ?xs = "sorted_list_of_set R"
  have xs: "set ?xs = R" "sorted_wrt (<) ?xs" using assms(1) by simp_all
  have ne: "?xs \<noteq> []" using xs(1) assms(2) by auto
  then show k: "ks \<noteq> []" using assms(3,4) by simp
  have sub: "set ks \<subseteq> R" using xs(1) set_take_subset assms(4) by fastforce
  then show "last ks \<in> R" using last_in_set [OF k] by blast
  have app: "?xs = ks @ drop n ?xs" using assms(4) by simp
  have s1: "sorted_wrt (<) (butlast ks @ [last ks])" using k xs(2) app by (metis append_butlast_last_id sorted_wrt_append)
  have le: "k \<le> last ks" if "k \<in> set ks" for k
    using that s1 k by (metis (no_types, lifting) append_butlast_last_id in_set_conv_decomp_last less_imp_le list.set_intros(1)
        order.refl sorted_wrt_append set_ConsD Un_iff set_append empty_iff list.set(1))
  have gt: "last ks < k" if "k \<in> set (drop n ?xs)" for k
    using that xs(2) app last_in_set [OF k] by (metis sorted_wrt_append)
  show "set ks = {k \<in> R. k \<le> last ks}"
  proof (intro set_eqI iffI)
    fix k assume "k \<in> {k \<in> R. k \<le> last ks}"
    then have "k \<in> set ks \<or> k \<in> set (drop n ?xs)" "k \<le> last ks" using xs(1) app by (metis mem_Collect_eq Un_iff set_append, simp)
    with gt show "k \<in> set ks" by fastforce
  qed (use sub le in auto)
qed

definition in_range :: "('s \<Rightarrow> string set) \<Rightarrow> (u64 \<Rightarrow> string) \<Rightarrow> string \<Rightarrow> u64 \<Rightarrow> 's \<Rightarrow> string set" where
  "in_range keys start end' gmt s = {k \<in> keys s. start gmt < k \<and> k \<le> end'}"

lemma keys_fold_del:
  assumes "ssdb_laws keys scan del"
  shows "keys (fold (\<lambda>kv. del (f kv)) kvs s) = keys s - f ` set kvs"
proof (induction kvs arbitrary: s)
  case (Cons kv kvs)
  with assms show ?case by (auto simp: ssdb_laws_def)
qed simp

lemma purge_done:
  assumes "ssdb_laws keys scan del" "in_range keys start end' gmt s = {}"
  shows "purge_loop scan del start end' get_time gmt s = Some (Inr (0, s))"
proof -
  obtain kvs where "scan (start gmt) end' DB_KVN_MAX s = Some kvs"
    "map fst kvs = take DB_KVN_MAX (sorted_list_of_set (in_range keys start end' gmt s))"
    using assms(1) unfolding ssdb_laws_def in_range_def by blast
  with assms(2) show ?thesis by (simp add: purge_loop.simps [of scan])
qed

lemma purge_round:
  assumes laws: "ssdb_laws keys scan del" and ne: "in_range keys start end' gmt s \<noteq> {}"
    and short: "\<forall>k \<in> in_range keys start end' gmt s. length k < 64"
    and rd: "\<forall>k \<in> in_range keys start end' gmt s. \<exists>g. get_time k = Inr g"
  shows "\<exists>l g s'. l \<in> in_range keys start end' gmt s \<and> get_time l = Inr g
     \<and> keys s' = keys s - {k \<in> in_range keys start end' gmt s. k \<le> l}
     \<and> purge_loop scan del start end' get_time gmt s = purge_loop scan del start end' get_time g s'"
proof -
  let ?R = "in_range keys start end' gmt s"
  obtain kvs where sc: "scan (start gmt) end' DB_KVN_MAX s = Some kvs"
    and ks: "map fst kvs = take DB_KVN_MAX (sorted_list_of_set ?R)"
    using laws unfolding ssdb_laws_def in_range_def by blast
  have fin: "finite ?R" using laws by (simp add: ssdb_laws_def in_range_def)
  note t = take_sorted [OF fin ne _ ks]
  have kv: "kvs \<noteq> []" using t(1) by auto
  then have la: "last (map fst kvs) = fst (last kvs)" by (simp add: last_map)
  have l: "fst (last kvs) \<in> ?R" "set (map fst kvs) = {k \<in> ?R. k \<le> fst (last kvs)}" using t(2,3) la by simp_all
  with rd obtain g where g: "get_time (fst (last kvs)) = Inr g" by blast
  let ?s = "fold (\<lambda>kv. del (snprintf_s 64 (fst kv))) kvs s"
  have "snprintf_s 64 (fst kv) = fst kv" if "kv \<in> set kvs" for kv
  proof -
    have "fst kv \<in> set (map fst kvs)" using that by simp
    then have "length (fst kv) < 64" using l(2) short by blast
    then show ?thesis by (simp add: snprintf_s_def)
  qed
  then have "(\<lambda>kv. snprintf_s 64 (fst kv)) ` set kvs = set (map fst kvs)" by force
  then have "keys ?s = keys s - {k \<in> ?R. k \<le> fst (last kvs)}" using keys_fold_del [OF laws, of "\<lambda>kv. snprintf_s 64 (fst kv)" kvs s] l(2) by simp
  moreover have "purge_loop scan del start end' get_time gmt s = purge_loop scan del start end' get_time g ?s"
    using sc kv g by (simp add: purge_loop.simps [of scan del start end' get_time gmt s])
  ultimately show ?thesis using l(1) g by blast
qed

section \<open>Keys with a time\<close>

definition time_key :: "string \<Rightarrow> nat \<Rightarrow> string" where
  "time_key p t = p @ ''-'' @ dec_string t"

definition zone :: "('s \<Rightarrow> string set) \<Rightarrow> string \<Rightarrow> 's \<Rightarrow> string set" where
  "zone keys p s = {k \<in> keys s. p @ ''-'' < k \<and> k \<le> p @ ''.''}"

text \<open>All keys of the zone have a time of ten digits.\<close>

definition timed_zone :: "('s \<Rightarrow> string set) \<Rightarrow> string \<Rightarrow> 's \<Rightarrow> bool" where
  "timed_zone keys p s \<longleftrightarrow> (\<forall>k \<in> zone keys p s. \<exists>t. k = time_key p t \<and> 10 ^ 9 \<le> t \<and> t < 2 ^ 32)"

text \<open>
  What a purge that starts at time \<open>n\<close> does to the records: it deletes only records of times after \<open>n + 1\<close>, and such a record stays only
  behind a deleted record of the second before.
\<close>

definition purged :: "string \<Rightarrow> nat \<Rightarrow> string set \<Rightarrow> string set \<Rightarrow> bool" where
  "purged p n K K' \<longleftrightarrow> K' \<subseteq> K \<and> (\<forall>k \<in> K - K'. \<exists>t. k = time_key p t \<and> n + 1 < t)
     \<and> (\<forall>t. n + 1 < t \<and> time_key p t \<in> K' \<longrightarrow> time_key p (t - 1) \<in> K - K')"

lemma ten_digits: "10 ^ 9 \<le> (t :: nat) \<Longrightarrow> t \<le> 2 ^ 32 \<Longrightarrow> t < 10 ^ Suc 9"
  by simp

lemma time_key_zone: "time_key p t \<in> keys s \<Longrightarrow> time_key p t \<in> zone keys p s"
  using dec_string_ne [of t] by (cases "dec_string t") (auto simp: zone_def time_key_def)

lemma time_key_times:
  assumes "timed_zone keys p s" "time_key p t \<in> keys s"
  shows "10 ^ 9 \<le> t" "t < 2 ^ 32"
proof -
  obtain u where "time_key p t = time_key p u" "10 ^ 9 \<le> u" "u < 2 ^ 32"
    using assms(1) time_key_zone [of p t keys s, OF assms(2)] unfolding timed_zone_def by blast
  then show "10 ^ 9 \<le> t" "t < 2 ^ 32" using dec_string_inj by (auto simp: time_key_def)
qed

lemma range_times:
  assumes z: "timed_zone keys p s" and g: "10 ^ 9 \<le> unat g" "unat g < 2 ^ 32"
    and st: "start g = p @ ''-'' @ dec_string (unat g + 1)"
  shows "in_range keys start (p @ ''.'') g s = {k \<in> keys s. \<exists>t. k = time_key p t \<and> unat g + 1 < t}"
proof (intro set_eqI iffI)
  have g1: "10 ^ 9 \<le> unat g + 1" "unat g + 1 < 10 ^ Suc 9" using g ten_digits [of "unat g + 1"] by simp_all
  fix k
  {
    assume k: "k \<in> in_range keys start (p @ ''.'') g s"
    have "p @ ''-'' < start g" unfolding st using dec_string_ne [of "unat g + 1"] by (cases "dec_string (unat g + 1)") auto
    with k have "k \<in> zone keys p s" by (auto simp: in_range_def zone_def)
    then obtain t where t: "k = time_key p t" "10 ^ 9 \<le> t" "t < 2 ^ 32" using z unfolding timed_zone_def by blast
    have "dec_string (unat g + 1) < dec_string t" using k by (simp add: in_range_def st t(1) time_key_def)
    then have "unat g + 1 < t" using dec_string_less [OF g1 t(2)] ten_digits [of t] t by simp
    with k t show "k \<in> {k \<in> keys s. \<exists>t. k = time_key p t \<and> unat g + 1 < t}" by (auto simp: in_range_def)
  next
    assume "k \<in> {k \<in> keys s. \<exists>t. k = time_key p t \<and> unat g + 1 < t}"
    then obtain t where t: "k \<in> keys s" "k = time_key p t" "unat g + 1 < t" by blast
    then have r: "10 ^ 9 \<le> t" "t < 2 ^ 32" using time_key_times [OF z] by simp_all
    then have "dec_string (unat g + 1) < dec_string t" using dec_string_less [OF g1 r(1)] ten_digits [of t] t(3) by simp
    with t show "k \<in> in_range keys start (p @ ''.'') g s" by (simp add: in_range_def st time_key_def)
  }
qed

lemma timed_zone_less: "timed_zone keys p s \<Longrightarrow> keys s' \<subseteq> keys s \<Longrightarrow> timed_zone keys p s'"
  unfolding timed_zone_def zone_def by blast

lemma purge_times:
  assumes laws: "ssdb_laws keys scan del" and len: "length p \<le> 50"
    and st: "\<And>g. 10 ^ 9 \<le> unat g \<Longrightarrow> unat g < 2 ^ 32 \<Longrightarrow> start g = p @ ''-'' @ dec_string (unat g + 1)"
    and gt: "\<And>t. t < 2 ^ 32 \<Longrightarrow> get_time (time_key p t) = Inr (of_nat t)"
  shows "timed_zone keys p s \<Longrightarrow> 10 ^ 9 \<le> unat g \<Longrightarrow> unat g < 2 ^ 32 \<Longrightarrow>
    \<exists>s'. purge_loop scan del start (p @ ''.'') get_time g s = Some (Inr (0, s'))
      \<and> purged p (unat g) (keys s) (keys s')"
proof (induction "card (in_range keys start (p @ ''.'') g s)" arbitrary: g s rule: less_induct)
  case less
  let ?R = "in_range keys start (p @ ''.'') g s"
  have R: "?R = {k \<in> keys s. \<exists>t. k = time_key p t \<and> unat g + 1 < t}"
    using range_times [where start = start, OF less.prems] st [OF less.prems(2,3)] by blast
  have fin: "finite ?R" using laws by (simp add: ssdb_laws_def in_range_def)
  show ?case
  proof (cases "?R = {}")
    case True
    with purge_done [OF laws True, of get_time] show ?thesis unfolding R purged_def by auto
  next
    case False
    have tk: "length k < 64 \<and> (\<exists>g. get_time k = Inr g)" if "k \<in> ?R" for k
    proof -
      from that have "k \<in> {k \<in> keys s. \<exists>t. k = time_key p t \<and> unat g + 1 < t}" unfolding R .
      then obtain t where t: "k = time_key p t" "k \<in> keys s" by blast
      then have r: "10 ^ 9 \<le> t" "t < 2 ^ 32" using time_key_times [OF less.prems(1)] by simp_all
      then have "length (dec_string t) = 10" using dec_string_len [of 9 t] ten_digits [of t] by simp
      with t gt [OF r(2)] len show ?thesis by (simp add: time_key_def)
    qed
    obtain l g' s1 where l: "l \<in> ?R" "get_time l = Inr g'" "keys s1 = keys s - {k \<in> ?R. k \<le> l}"
      "purge_loop scan del start (p @ ''.'') get_time g s = purge_loop scan del start (p @ ''.'') get_time g' s1"
      using purge_round [OF laws False, of get_time] tk by blast
    from l(1) have "l \<in> {k \<in> keys s. \<exists>t. k = time_key p t \<and> unat g + 1 < t}" unfolding R .
    then obtain t where t: "l = time_key p t" "unat g + 1 < t" "l \<in> keys s" by blast
    have r: "10 ^ 9 \<le> t" "t < 2 ^ 32" using time_key_times [OF less.prems(1)] t by simp_all
    have "unat (of_nat t :: u64) = t" using r(2) by (simp add: unat_of_nat take_bit_nat_eq_self)
    then have g': "g' = of_nat t" "unat g' = t" using l(2) gt [OF r(2)] t(1) by auto
    have z1: "timed_zone keys p s1" using timed_zone_less [OF less.prems(1)] l(3) by blast
    have ord: "time_key p u \<le> l \<longleftrightarrow> u \<le> t" if "time_key p u \<in> keys s" for u
    proof -
      have "10 ^ 9 \<le> u" "u < 2 ^ 32" using time_key_times [OF less.prems(1) that] .
      then have "(dec_string t < dec_string u) = (t < u)" using dec_string_less [of 9 t u] r ten_digits [of u] ten_digits [of t] by simp
      then show ?thesis by (auto simp: t(1) time_key_def not_less [symmetric])
    qed
    have R1: "in_range keys start (p @ ''.'') g' s1 = {k \<in> keys s1. \<exists>u. k = time_key p u \<and> unat g' + 1 < u}"
      using range_times [where start = start, OF z1] st [of g'] g'(2) r by blast
    have "in_range keys start (p @ ''.'') g' s1 \<subseteq> ?R - {l}"
      unfolding R1 R l(3) g'(2) using t(2) by (auto simp: t(1) time_key_def dest: dec_string_inj)
    then have lt: "card (in_range keys start (p @ ''.'') g' s1) < card ?R"
      using fin l(1) by (meson Diff_subset card_Diff1_less card_mono finite_Diff le_less_trans)
    from less.hyps [OF lt z1] obtain s' where
      s': "purge_loop scan del start (p @ ''.'') get_time g' s1 = Some (Inr (0, s'))" "purged p t (keys s1) (keys s')"
      using g'(2) r by auto
    have "purged p (unat g) (keys s) (keys s')"
      unfolding purged_def
    proof (intro conjI ballI allI impI)
      show "keys s' \<subseteq> keys s" using s'(2) l(3) by (auto simp: purged_def)
      fix k assume k: "k \<in> keys s - keys s'"
      show "\<exists>u. k = time_key p u \<and> unat g + 1 < u"
      proof (cases "k \<in> keys s1")
        case True
        with k s'(2) obtain u where "k = time_key p u" "t + 1 < u" unfolding purged_def by blast
        with t(2) show ?thesis by (intro exI [of _ u]) simp
      next
        case False
        with k l(3) R show ?thesis by auto
      qed
    next
      fix u assume u: "unat g + 1 < u \<and> time_key p u \<in> keys s'"
      then have u1: "time_key p u \<in> keys s1" "time_key p u \<in> keys s" using s'(2) l(3) unfolding purged_def by blast+
      have lu: "t < u" using u1 u ord [OF u1(2)] unfolding l(3) R by (auto simp: not_le)
      have sub: "keys s1 - keys s' \<subseteq> keys s - keys s'" using l(3) by auto
      have "l \<in> keys s - keys s'" using t(3) l(1,3) s'(2) unfolding purged_def by blast
      moreover have "time_key p (u - 1) \<in> keys s1 - keys s'" if "t + 1 < u" using that u s'(2) unfolding purged_def by blast
      ultimately show "time_key p (u - 1) \<in> keys s - keys s'" using lu t(1) sub by (cases "u = t + 1") auto
    qed
    with s'(1) l(4) show ?thesis by auto
  qed
qed

lemma purged_apart:
  assumes "purged p n K K'" "\<forall>t. time_key p t \<in> K \<longrightarrow> time_key p (t + 1) \<notin> K"
  shows "K' = K - {time_key p t |t. n + 1 < t}"
proof -
  have "time_key p t \<notin> K'" if "n + 1 < t" for t
  proof
    assume k: "time_key p t \<in> K'"
    then have "time_key p (t - 1) \<in> K" "time_key p t \<in> K" using assms(1) that unfolding purged_def by blast+
    with assms(2) [rule_format, of "t - 1"] that show False by simp
  qed
  with assms(1) show ?thesis unfolding purged_def by blast
qed

lemma purged_boundary: "purged p n K K' \<Longrightarrow> time_key p (n + 1) \<in> K \<Longrightarrow> time_key p (n + 1) \<in> K'"
  using dec_string_inj unfolding purged_def time_key_def by (metis DiffI less_irrefl same_append_eq)

section \<open>Keys with a type and a time\<close>

definition detail_key :: "string \<Rightarrow> nat \<Rightarrow> nat \<Rightarrow> string" where
  "detail_key p t h = p @ ''-'' @ dec_string t @ ''-'' @ dec_string h"

definition detail_zone :: "('s \<Rightarrow> string set) \<Rightarrow> string \<Rightarrow> 's \<Rightarrow> bool" where
  "detail_zone keys p s \<longleftrightarrow>
     (\<forall>k \<in> zone keys p s. \<exists>t h. k = detail_key p t h \<and> 2 * 10 ^ 9 \<le> t \<and> t < 2 ^ 32 \<and> h < 24)"

lemma le_append: "x \<le> x @ (y :: string)"
  by (induction x) simp_all

lemma dec_string_ge:
  "2 * 10 ^ k \<le> t \<Longrightarrow> t < 10 ^ Suc k \<Longrightarrow> ''2'' \<le> dec_string t"
proof (induction k arbitrary: t)
  case 0
  moreover have "dec_digit 2 = CHR ''2''" by code_simp
  ultimately have "''2'' = [dec_digit 2]" "dec_string t = [dec_digit t]" by (simp_all add: dec_digit_def dec_string.simps [of t])
  with 0 dec_digit_less [of t 2] show ?case by (auto simp: not_less order.order_iff_strict)
next
  case (Suc k)
  have "10 ^ Suc k \<le> t" using Suc.prems(1) by (simp only: mult_2)
  note d = div10_range [OF this Suc.prems(2)]
  have "2 * 10 ^ k * 10 \<le> t" using Suc.prems(1) by simp
  then have "2 * 10 ^ k \<le> t div 10" by (simp only: less_eq_div_iff_mult_less_eq zero_less_numeral)
  from Suc.IH [OF this d(3)] show ?case unfolding dec_string_snoc [OF d(1)] using le_append order.trans by blast
qed

lemma dec_string_ge_2:
  assumes "2 * 10 ^ 9 \<le> t" "t < 2 ^ 32"
  shows "''2'' < dec_string t"
proof -
  have "''2'' \<le> dec_string t" using dec_string_ge [of 9 t] assms ten_digits [of t] by simp
  moreover have "length (dec_string t) = 10" using dec_string_len [of 9 t] ten_digits [of t] assms by simp
  then have "length ''2'' \<noteq> length (dec_string t)" by simp
  then have "''2'' \<noteq> dec_string t" by metis
  ultimately show ?thesis by simp
qed

text \<open>When every key of the zone is read as time 1, a purge that finds a key goes on until the zone is empty.\<close>

lemma purge_from_one:
  assumes laws: "ssdb_laws keys scan del" and st: "start 1 = p @ ''-2''"
    and gt: "\<And>k. k \<in> zone keys p s0 \<Longrightarrow> get_time k = Inr 1 \<and> length k < 64 \<and> p @ ''-2'' < k"
  shows "zone keys p s \<subseteq> zone keys p s0 \<Longrightarrow>
    \<exists>s'. purge_loop scan del start (p @ ''.'') get_time 1 s = Some (Inr (0, s')) \<and> keys s' = keys s - zone keys p s"
proof (induction "card (zone keys p s)" arbitrary: s rule: less_induct)
  case less
  let ?Z = "zone keys p s"
  have lt: "p @ ''-'' < k" if "p @ ''-2'' < k" for k by (rule less_trans [OF _ that]) simp
  have R: "in_range keys start (p @ ''.'') 1 s = ?Z"
  proof (intro set_eqI iffI)
    fix k assume "k \<in> in_range keys start (p @ ''.'') 1 s"
    with lt [of k] show "k \<in> ?Z" by (simp add: in_range_def zone_def st)
  next
    fix k assume k: "k \<in> ?Z"
    with less.prems gt have "p @ ''-2'' < k" by blast
    with k show "k \<in> in_range keys start (p @ ''.'') 1 s" by (simp add: in_range_def zone_def st)
  qed
  have fin: "finite ?Z" using laws by (simp add: ssdb_laws_def zone_def)
  show ?case
  proof (cases "?Z = {}")
    case True
    with purge_done [OF laws, of start "p @ ''.''" 1 s get_time] R show ?thesis by auto
  next
    case False
    have ok: "get_time k = Inr 1 \<and> length k < 64" if "k \<in> ?Z" for k using that less.prems gt by blast
    obtain l g s1 where l: "l \<in> ?Z" "get_time l = Inr g" "keys s1 = keys s - {k \<in> ?Z. k \<le> l}"
      "purge_loop scan del start (p @ ''.'') get_time 1 s = purge_loop scan del start (p @ ''.'') get_time g s1"
      using purge_round [OF laws, of start "p @ ''.''" 1 s get_time, unfolded R, OF False] ok by blast
    have g: "g = 1" using ok [OF l(1)] l(2) by simp
    have Z1: "zone keys p s1 = ?Z - {k \<in> ?Z. k \<le> l}" by (auto simp: zone_def l(3))
    have lt: "card (zone keys p s1) < card ?Z" unfolding Z1 using fin l(1) by (intro psubset_card_mono) auto
    from less.hyps [OF lt] less.prems obtain s' where
      "purge_loop scan del start (p @ ''.'') get_time 1 s1 = Some (Inr (0, s'))" "keys s' = keys s1 - zone keys p s1"
      unfolding Z1 by blast
    moreover have "keys s1 - zone keys p s1 = keys s - ?Z" unfolding Z1 l(3) by (auto simp: zone_def)
    ultimately show ?thesis using l(4) g by simp
  qed
qed

lemma purge_zone:
  assumes laws: "ssdb_laws keys scan del" and st: "start 1 = p @ ''-2''" "p @ ''-'' \<le> start g"
    and gt: "\<And>k. k \<in> zone keys p s \<Longrightarrow> get_time k = Inr 1 \<and> length k < 64 \<and> p @ ''-2'' < k"
    and ne: "in_range keys start (p @ ''.'') g s \<noteq> {}"
  shows "\<exists>s'. purge_loop scan del start (p @ ''.'') get_time g s = Some (Inr (0, s')) \<and> keys s' = keys s - zone keys p s"
proof -
  have sub: "in_range keys start (p @ ''.'') g s \<subseteq> zone keys p s"
    using le_less_trans [OF st(2)] by (auto simp: in_range_def zone_def)
  obtain l g' s1 where l: "l \<in> in_range keys start (p @ ''.'') g s" "get_time l = Inr g'"
    "keys s1 = keys s - {k \<in> in_range keys start (p @ ''.'') g s. k \<le> l}"
    "purge_loop scan del start (p @ ''.'') get_time g s = purge_loop scan del start (p @ ''.'') get_time g' s1"
    using purge_round [OF laws ne, of get_time] gt sub by blast
  have g': "g' = 1" using l(1,2) sub gt by fastforce
  have z: "zone keys p s1 \<subseteq> zone keys p s" by (auto simp: zone_def l(3))
  from purge_from_one [where start = start and get_time = get_time, OF laws st(1) gt z] obtain s' where
    s': "purge_loop scan del start (p @ ''.'') get_time 1 s1 = Some (Inr (0, s'))" "keys s' = keys s1 - zone keys p s1" by blast
  have "keys s1 - zone keys p s1 = keys s - zone keys p s" using sub by (auto simp: zone_def l(3))
  with s' l(4) g' show ?thesis by simp
qed

section \<open>Properties of the purges\<close>

lemma fmt_id_small: "u < 2 ^ 31 \<Longrightarrow> fmt_id (of_nat u) = dec_string u"
  using sint_of_nat32 [of u] by (simp add: fmt_id_def fmt_d_def)

lemma uid_len: "10000 \<le> u \<Longrightarrow> u < 100000 \<Longrightarrow> length (dec_string u) = 5"
  using dec_string_len [of 4 u] by simp

lemma next_gmt_ok: "10 ^ 9 \<le> unat g \<Longrightarrow> unat g < 2 ^ 32 \<Longrightarrow> fmt_llu (next_gmt g) = dec_string (unat g + 1)"
proof -
  assume g: "10 ^ 9 \<le> unat g" "unat g < 2 ^ 32"
  then have "g \<noteq> 0" by auto
  moreover have "unat (g + 1) = unat g + 1" using g by (simp add: unat_word_ariths)
  ultimately show ?thesis by (simp add: fmt_llu_def next_gmt_def)
qed

lemma short_key: "length s < 64 \<Longrightarrow> snprintf_s 64 s = s"
  by (simp add: snprintf_s_def)

lemma atoull_one: "atoull (CHR ''1'' # CHR ''-'' # r) = 1"
proof -
  have "J_isxdigit CHR ''1''" "xvalue CHR ''1'' = 1" "\<not> J_isxdigit CHR ''-''" by code_simp+
  then show ?thesis by (simp add: atoull_def simple_strtoul_ull_def cat_def Let_def)
qed

lemma small_numbers: "dec_string (Suc 0) = ''1''" "dec_string 2 = ''2''"
  by code_simp+

text \<open>
  C12: purging by user and time. If the records of a user with an identifier of five digits have times of ten digits (they are counted
  backwards, a larger number is an older record), the purge
  returns 0 and deletes only records more than one second older than the time given; such a record stays only if the record of the second
  before is deleted. So if no two of the records are one second apart, exactly the records more than one second older are
  deleted, in however many rounds. A record exactly one second older than the oldest to keep always stays; nothing else in the database is touched.
\<close>

theorem purge_user_times:
  assumes "ssdb_laws keys scan del" "10000 \<le> u" "u < 100000" "length prefix \<le> 40"
    and "timed_zone keys (prefix @ dec_string u) s" "10 ^ 9 \<le> unat gmt" "unat gmt < 2 ^ 32"
  shows "\<exists>s'. ww_del_user_db_data_by_gmt_uid_prefix scan del gmt (of_nat u) prefix s = Some (Inr (0, s'))
    \<and> keys s' \<subseteq> keys s \<and> (\<forall>k \<in> keys s - keys s'. \<exists>t. k = time_key (prefix @ dec_string u) t \<and> unat gmt + 1 < t)
    \<and> (\<forall>t. unat gmt + 1 < t \<and> time_key (prefix @ dec_string u) t \<in> keys s' \<longrightarrow>
          time_key (prefix @ dec_string u) (t - 1) \<in> keys s - keys s')
    \<and> ((\<forall>t. time_key (prefix @ dec_string u) t \<in> keys s \<longrightarrow> time_key (prefix @ dec_string u) (t + 1) \<notin> keys s) \<longrightarrow>
          keys s' = keys s - {time_key (prefix @ dec_string u) t |t. unat gmt + 1 < t})
    \<and> (time_key (prefix @ dec_string u) (unat gmt + 1) \<in> keys s \<longrightarrow> time_key (prefix @ dec_string u) (unat gmt + 1) \<in> keys s')"
proof -
  let ?p = "prefix @ dec_string u"
  have uid: "fmt_id (of_nat u) = dec_string u" "length (dec_string u) = 5" using assms(2,3) fmt_id_small uid_len by simp_all
  let ?st = "\<lambda>g. snprintf_s 64 (prefix @ fmt_id (of_nat u) @ ''-'' @ fmt_llu (next_gmt g))"
  have st: "?st g = ?p @ ''-'' @ dec_string (unat g + 1)" if g: "10 ^ 9 \<le> unat g" "unat g < 2 ^ 32" for g
  proof -
    have "length (dec_string (unat g + 1)) = 10" using dec_string_len [of 9 "unat g + 1"] ten_digits [of "unat g + 1"] g by simp
    then show ?thesis using next_gmt_ok [OF g] uid assms(4) by (simp add: short_key)
  qed
  have gt: "time_at (length prefix + USERID_LEN) (time_key ?p t) = Inr (of_nat t)" for t
    using uid(2) atoull_dec [of t] by (simp add: time_at_def time_key_def)
  have en: "snprintf_s 64 (prefix @ fmt_id (of_nat u) @ ''.'') = ?p @ ''.''" using uid assms(4) by (simp add: short_key)
  have len: "length ?p \<le> 50" using uid(2) assms(4) by simp
  have "\<exists>s'. purge_loop scan del ?st (?p @ ''.'') (time_at (length prefix + USERID_LEN)) gmt s = Some (Inr (0, s'))
      \<and> purged ?p (unat gmt) (keys s) (keys s')"
    by (rule purge_times [OF assms(1) len st gt assms(5-7)])
  then obtain s' where s': "ww_del_user_db_data_by_gmt_uid_prefix scan del gmt (of_nat u) prefix s = Some (Inr (0, s'))"
    "purged ?p (unat gmt) (keys s) (keys s')" unfolding ww_del_user_db_data_by_gmt_uid_prefix_def en by blast
  note r = s'(2) [unfolded purged_def]
  show ?thesis
    using purged_apart [OF s'(2)] purged_boundary [OF s'(2)] r by (intro exI [of _ s'] conjI s'(1)) blast+
qed

text \<open>
  C13: purging detail records. The time is read from the key at the place of the type. For type 1, the violations, the scan
  therefore starts again before all times of the present epoch as soon as one old record was found: the purge deletes every
  record of that type of the user, the ones it was meant to keep included.
\<close>

theorem purge_detail_loses_all:
  assumes "ssdb_laws keys scan del" "10000 \<le> u" "u < 100000" "length prefix \<le> 30"
    and "detail_zone keys (prefix @ dec_string u @ ''-1'') s" "10 ^ 9 \<le> unat gmt" "unat gmt < 2 ^ 32"
    and "detail_key (prefix @ dec_string u @ ''-1'') t h \<in> keys s" "unat gmt + 1 \<le> t" "t < 2 ^ 32"
  shows "\<exists>s'. ww_del_user_db_data_by_uid_type_gmt_prefix scan del gmt (of_nat u) prefix 1 s = Some (Inr (0, s'))
    \<and> keys s' = keys s - zone keys (prefix @ dec_string u @ ''-1'') s"
proof -
  let ?p = "prefix @ dec_string u @ ''-1''"
  have uid: "fmt_id (of_nat u) = dec_string u" "length (dec_string u) = 5" using assms(2,3) fmt_id_small uid_len by simp_all
  have one: "fmt_id 1 = ''1''" using fmt_id_small [of 1] by (simp add: small_numbers)
  let ?st = "\<lambda>g. snprintf_s 64 (prefix @ fmt_id (of_nat u) @ ''-'' @ fmt_id 1 @ ''-'' @ fmt_llu (next_gmt g))"
  have en: "snprintf_s 64 (prefix @ fmt_id (of_nat u) @ ''-'' @ fmt_id 1 @ ''.'') = ?p @ ''.''"
    using uid one assms(4) by (simp add: short_key)
  have two: "fmt_llu (next_gmt 1) = ''2''" by (simp add: fmt_llu_def next_gmt_def small_numbers)
  have st1: "?st 1 = ?p @ ''-2''" unfolding two one uid(1) using uid(2) assms(4) by (simp add: short_key)
  have l10: "length (dec_string (unat gmt + 1)) = 10"
    using dec_string_len [of 9 "unat gmt + 1"] ten_digits [of "unat gmt + 1"] assms(6,7) by simp
  have stg: "?st gmt = ?p @ ''-'' @ dec_string (unat gmt + 1)"
    unfolding one uid(1) next_gmt_ok [OF assms(6,7)] using uid(2) assms(4) l10 by (simp add: short_key)
  have gt: "time_at (length prefix + USERID_LEN) k = Inr 1 \<and> length k < 64 \<and> ?p @ ''-2'' < k" if kz: "k \<in> zone keys ?p s" for k
  proof -
    obtain v i where k: "k = detail_key ?p v i" "2 * 10 ^ 9 \<le> v" "v < 2 ^ 32" "i < 24"
      using assms(5) kz unfolding detail_zone_def by blast
    have "length (dec_string v) = 10" using dec_string_len [of 9 v] ten_digits [of v] k by simp
    moreover have "length (dec_string i) \<le> 2" using length_dec_string [of i 1] k(4) by simp
    moreover have "''2'' < dec_string v @ ''-'' @ dec_string i"
      using dec_string_ge_2 [OF k(2,3)] le_append less_le_trans by blast
    moreover have "time_at (length prefix + USERID_LEN) k = Inr 1"
      using uid(2) k(1) by (simp add: time_at_def detail_key_def atoull_one)
    ultimately show ?thesis using k(1) uid(2) assms(4) by (simp add: detail_key_def)
  qed
  have "dec_string (unat gmt + 1) \<le> dec_string t"
    using dec_string_less [of 9 t "unat gmt + 1"] assms(6,7,9,10) ten_digits [of t] ten_digits [of "unat gmt + 1"] by (simp add: not_less [symmetric])
  moreover have "dec_string t < dec_string t @ ''-'' @ dec_string h" using append_less(1) [of "dec_string t" "[]" "''-'' @ dec_string h"] by simp
  ultimately have "?st gmt < detail_key ?p t h" unfolding stg detail_key_def by (simp only: append_less append_assoc)
  moreover have "detail_key ?p t h \<le> ?p @ ''.''" by (simp add: detail_key_def)
  ultimately have ne: "in_range keys ?st (?p @ ''.'') gmt s \<noteq> {}" using assms(8) by (auto simp: in_range_def)
  have le: "?p @ ''-'' \<le> ?st gmt" unfolding stg by simp
  from purge_zone [where start = ?st and get_time = "time_at (length prefix + USERID_LEN)", OF assms(1) st1 le gt ne] show ?thesis
    unfolding ww_del_user_db_data_by_uid_type_gmt_prefix_def en .
qed

text \<open>A database of keys only, for examples.\<close>

definition list_scan :: "string list scan_fun" where
  "list_scan a b n s = Some (map (\<lambda>k. (k, [])) (take n (sort (remdups (filter (\<lambda>k. a < k \<and> k \<le> b) s)))))"

definition list_drop :: "string \<Rightarrow> string list \<Rightarrow> string list" where
  "list_drop k s = removeAll k s"

lemma list_laws: "ssdb_laws set list_scan list_drop"
proof -
  have "take n (sorted_list_of_set {k \<in> set s. a < k \<and> k \<le> b}) = take n (sort (remdups (filter (\<lambda>k. a < k \<and> k \<le> b) s)))"
    for a b n and s :: "string list"
    using sorted_list_of_set_sort_remdups [of "filter (\<lambda>k. a < k \<and> k \<le> b) s"] by (simp add: set_filter)
  then show ?thesis by (simp add: ssdb_laws_def list_scan_def list_drop_def comp_def)
qed

text \<open>A record to keep and an old one, for user 10001.\<close>

definition two_days :: "string list" where
  "two_days = [time_key ''dyua-10001'' 2800000000, time_key ''dyua-10001'' 2900000000]"

definition two_details :: "string list" where
  "two_details = [detail_key ''anud-10001-1'' 2800000000 5, detail_key ''anud-10001-1'' 2900000000 7]"

lemma dec_10001: "dec_string 10001 = ''10001''"
proof -
  have "dec_digit 0 = CHR ''0''" "dec_digit 1 = CHR ''1''" by code_simp+
  then show ?thesis using small_numbers(1) by (simp add: dec_string_snoc)
qed

lemma Nil_less_iff: "[] < xs \<longleftrightarrow> xs \<noteq> ([] :: string)"
  by (cases xs) simp_all

lemma two_days_ok: "timed_zone set (''dyua-'' @ dec_string 10001) two_days"
proof -
  have "time_key p t = time_key p u \<longleftrightarrow> t = u" for p t u using dec_string_inj by (auto simp: time_key_def)
  then show ?thesis by (auto simp: timed_zone_def zone_def two_days_def dec_10001)
qed

lemma two_details_ok: "detail_zone set (''anud-'' @ dec_string 10001 @ ''-1'') two_details"
proof -
  have "\<exists>t h. k = detail_key ''anud-10001-1'' t h \<and> 2 * 10 ^ 9 \<le> t \<and> t < 2 ^ 32 \<and> h < 24" if kt: "k \<in> set two_details" for k
  proof -
    consider "k = detail_key ''anud-10001-1'' 2800000000 5" | "k = detail_key ''anud-10001-1'' 2900000000 7"
      using kt by (auto simp: two_details_def)
    then show ?thesis
    proof cases
      case 1
      then show ?thesis by (intro exI [of _ 2800000000] exI [of _ 5]) simp
    next
      case 2
      then show ?thesis by (intro exI [of _ 2900000000] exI [of _ 7]) simp
    qed
  qed
  then show ?thesis by (simp add: detail_zone_def zone_def dec_10001)
qed

theorem purge_user_times_witness:
  "\<exists>s'. ww_del_user_db_data_by_gmt_uid_prefix list_scan list_drop 2850000000 10001 ''dyua-'' two_days = Some (Inr (0, s'))
     \<and> set s' = {time_key ''dyua-10001'' 2800000000}"
proof -
  have i: "time_key p t = time_key p u \<longleftrightarrow> t = u" for p t u using dec_string_inj by (auto simp: time_key_def)
  have "set two_days - {time_key ''dyua-10001'' t |t. 2850000001 < t} = {time_key ''dyua-10001'' 2800000000}"
    by (auto simp: two_days_def i)
  moreover have "\<forall>t. time_key ''dyua-10001'' t \<in> set two_days \<longrightarrow> time_key ''dyua-10001'' (Suc t) \<notin> set two_days"
    by (auto simp: two_days_def i)
  ultimately show ?thesis using purge_user_times [OF list_laws _ _ _ two_days_ok, of 2850000000] by (auto simp: dec_10001)
qed

theorem purge_detail_loses_all_witness:
  "\<exists>s'. ww_del_user_db_data_by_uid_type_gmt_prefix list_scan list_drop 2850000000 10001 ''anud-'' 1 two_details = Some (Inr (0, s'))
     \<and> set s' = {}"
proof -
  have m: "detail_key (''anud-'' @ dec_string 10001 @ ''-1'') 2900000000 7 \<in> set two_details" by (simp add: two_details_def dec_10001)
  have z: "zone set ''anud-10001-1'' two_details = set two_details"
    by (auto simp: zone_def two_details_def detail_key_def Nil_less_iff)
  from purge_detail_loses_all [OF list_laws _ _ _ two_details_ok _ _ m, of 2850000000] show ?thesis
    by (simp add: dec_10001 z)
qed

end
