(* ===== verification/Connections.thy ===== *)
theory Connections
  imports Hash_Ids Packet_Split
begin

text \<open>
  The connections of the server, \<^verbatim>\<open>TCP_C/main.c\<close>: the array \<open>an_conn_array\<close> given to \<open>poll\<close>,
  its high-water mark \<open>an_curfds\<close>, and the table of \<open>an_socket_t\<close> structures (theory
  \<open>Hash_Ids\<close>) with the buffers of each connection.

  The operating system is an argument: what \<open>poll\<close>, \<open>accept\<close>, \<open>recv\<close> and \<open>send\<close> return
  (record \<open>io\<close>), and so is the rest of the program behind \<open>al_allocate_task\<close>, a function on
  the whole state. Two histories record the descriptors closed and the bytes sent on each
  slot. An index outside the array is the fault \<open>Out_Of_Bounds\<close>, as a read outside a buffer
  is.

  The invariant \<open>srv_ok\<close> ties array, mark and table together; the lemmas show that accepting
  and closing a connection keep it, and what sending does.
\<close>

section \<open>State\<close>

record pollfd =
  pf_fd :: s32
  pf_events :: u16
  pf_revents :: u16

abbreviation (input) POLLIN :: u16 where "POLLIN \<equiv> 1"
abbreviation (input) POLLOUT :: u16 where "POLLOUT \<equiv> 4"
abbreviation (input) POLLERR :: u16 where "POLLERR \<equiv> 8"

record 'w server =
  conn_array :: "pollfd list"
  an_curfds :: int
  sock_hash :: "an_socket hset"
  closed_fds :: "s32 list"
  sent_on :: "nat \<Rightarrow> string"
  others :: 'w

record io =
  io_recv :: "nat \<Rightarrow> string option"
  io_realloc :: "nat \<Rightarrow> bool"
  io_junk :: "nat \<Rightarrow> nat \<Rightarrow> char"
  io_mem :: "nat \<Rightarrow> nat \<Rightarrow> bool"
  io_send :: "nat \<Rightarrow> int"
  io_errno :: "nat \<Rightarrow> int"

type_synonym 'w alloc = "string \<Rightarrow> nat \<Rightarrow> s32 \<Rightarrow> 'w server \<Rightarrow> 'w server"

definition conn_at :: "nat \<Rightarrow> 'w server \<Rightarrow> pollfd res" where
  "conn_at i s = (if i < length (conn_array s) then Inr (conn_array s ! i) else Inl Out_Of_Bounds)"

definition set_events :: "nat \<Rightarrow> (u16 \<Rightarrow> u16) \<Rightarrow> 'w server \<Rightarrow> 'w server res" where
  "set_events i f s =
     res_bind (conn_at i s) (\<lambda>p.
       Inr (s\<lparr>conn_array := (conn_array s)[i := p\<lparr>pf_events := f (pf_events p)\<rparr>]\<rparr>))"

section \<open>The array\<close>

definition an_poll_init :: "s32 \<Rightarrow> 'w server \<Rightarrow> 'w server" where
  "an_poll_init tcp_fd s =
     s\<lparr>an_curfds := 1,
       conn_array := \<lparr>pf_fd = tcp_fd, pf_events = POLLIN, pf_revents = 0\<rparr>
                     # replicate (AN_POLL_MAX - 1) \<lparr>pf_fd = -1, pf_events = POLLIN, pf_revents = 0\<rparr>\<rparr>"

fun first_index :: "('a \<Rightarrow> bool) \<Rightarrow> 'a list \<Rightarrow> nat option" where
  "first_index P [] = None"
| "first_index P (x # xs) = (if P x then Some 0 else map_option Suc (first_index P xs))"

definition an_sock_poll_del :: "s32 \<Rightarrow> 'w server \<Rightarrow> int \<times> 'w server" where
  "an_sock_poll_del fd s =
     (case first_index (\<lambda>p. pf_fd p = fd) (conn_array s) of
        None \<Rightarrow> (-1, s)
      | Some i \<Rightarrow>
          (0, s\<lparr>conn_array := (conn_array s)[i := (conn_array s ! i)\<lparr>pf_fd := -1, pf_events := POLLIN\<rparr>],
                an_curfds := (if int i = an_curfds s - 1 then an_curfds s - 1 else an_curfds s)\<rparr>))"

definition m_sock_del_write :: "nat \<Rightarrow> 'w server \<Rightarrow> 'w server res" where
  "m_sock_del_write i s = set_events i (\<lambda>e. e AND NOT POLLOUT) s"

definition m_sock_del_read :: "nat \<Rightarrow> 'w server \<Rightarrow> 'w server res" where
  "m_sock_del_read i s = set_events i (\<lambda>e. e AND NOT POLLIN) s"

definition m_sock_add_write :: "nat \<Rightarrow> 'w server \<Rightarrow> 'w server res" where
  "m_sock_add_write i s = set_events i (\<lambda>e. e OR POLLOUT) s"

definition m_sock_add_read :: "nat \<Rightarrow> 'w server \<Rightarrow> 'w server res" where
  "m_sock_add_read i s = set_events i (\<lambda>e. e OR POLLIN) s"

definition an_sock_destory :: "nat \<Rightarrow> 'w server \<Rightarrow> 'w server res" where
  "an_sock_destory i s =
     res_bind (conn_at i s) (\<lambda>p.
     let s1 = s\<lparr>closed_fds := closed_fds s @ [pf_fd p]\<rparr> in
     res_bind (an_socket_t_del (of_nat i) (sock_hash s1)) (\<lambda>t.
     Inr (snd (an_sock_poll_del (pf_fd p) (s1\<lparr>sock_hash := t\<rparr>)))))"

text \<open>\<open>mem\<close> is the result of the allocation of the socket structure.\<close>

definition an_sock_poll_add :: "addr option \<Rightarrow> s32 \<Rightarrow> 'w server \<Rightarrow> int \<times> 'w server" where
  "an_sock_poll_add mem fd s =
     (case first_index (\<lambda>p. sint (pf_fd p) < 0) (drop 1 (conn_array s)) of
        None \<Rightarrow> (-1, s)
      | Some j \<Rightarrow>
          let i = Suc j;
              s1 = s\<lparr>conn_array := (conn_array s)[i := (conn_array s ! i)\<lparr>pf_fd := fd, pf_revents := POLLIN\<rparr>],
                     an_curfds := (if int i = an_curfds s then an_curfds s + 1 else an_curfds s)\<rparr>
          in (case an_socket_t_create mem (sock_hash s1) of
                (t, None) \<Rightarrow> (-1, s1\<lparr>sock_hash := t\<rparr>)
              | (t, Some a) \<Rightarrow>
                  (0, s1\<lparr>sock_hash := hs_link (an_socket_t_get_hash (of_nat i)) a
                           (socket_zero\<lparr>so_send_buflen := 204800, so_index := of_nat i\<rparr>) t\<rparr>)))"

section \<open>Receiving\<close>

definition so_put :: "addr \<Rightarrow> an_socket \<Rightarrow> 'w server \<Rightarrow> 'w server" where
  "so_put a n s = s\<lparr>sock_hash := (sock_hash s)\<lparr>hs_store := (hs_store (sock_hash s))(a \<mapsto> n)\<rparr>\<rparr>"

text \<open>\<open>wys_realloc\<close>: a new block is zeroed, a grown one keeps its bytes.\<close>

definition grown :: "string option \<Rightarrow> nat \<Rightarrow> (nat \<Rightarrow> char) \<Rightarrow> string" where
  "grown b m junk =
     (case b of None \<Rightarrow> replicate m (CHR 0x00) | Some t \<Rightarrow> take m t @ map junk [length t..<m])"

definition memcpy_at :: "string \<Rightarrow> int \<Rightarrow> string \<Rightarrow> string res" where
  "memcpy_at buf k bs =
     (if k < 0 \<or> int (length buf) < k + int (length bs) then Inl Out_Of_Bounds
      else Inr (take (nat k) buf @ bs @ drop (nat k + length bs) buf))"

definition an_tcp_recv :: "'w alloc \<Rightarrow> io \<Rightarrow> nat \<Rightarrow> 'w server \<Rightarrow> (int \<times> 'w server) res" where
  "an_tcp_recv alloc io i s =
     res_bind (conn_at i s) (\<lambda>_.
     res_bind (an_socket_t_find_by_index (of_nat i) (sock_hash s)) (\<lambda>r.
     case r of
       None \<Rightarrow> Inr (-1, s)
     | Some a \<Rightarrow>
         (case (hs_store (sock_hash s) a, io_recv io i) of
            (None, _) \<Rightarrow> Inl Use_After_Free
          | (Some n, None) \<Rightarrow> Inr (-1, s)
          | (Some n, Some bs) \<Rightarrow>
              if bs = [] then Inr (-1, s)
              else
                let need = of_nat (length bs) + so_rcv_len n;
                    short = sint (so_rcv_buflen n) < sint need
                in if short \<and> \<not> io_realloc io i then Inr (-1, so_put a (n\<lparr>so_rcv_buf := None\<rparr>) s)
                else
                  let n1 = (if short then n\<lparr>so_rcv_buf := Some (grown (so_rcv_buf n) (nat (sint need)) (io_junk io i)),
                                            so_rcv_buflen := need\<rparr> else n)
                  in (case so_rcv_buf n1 of
                        None \<Rightarrow> Inl Null_Deref
                      | Some buf \<Rightarrow>
                          res_bind (memcpy_at buf (sint (so_rcv_len n1)) bs) (\<lambda>buf1.
                          let n2 = n1\<lparr>so_rcv_buf := Some buf1, so_rcv_len := need\<rparr> in
                          res_bind (an_split_rcv_buf_to_json (\<lambda>js l w. alloc js l (so_index n2) w)
                             (io_mem io i) (so_rcv_buf n2) (sint need) (so_put a n2 s)) (\<lambda>(ret, buf2, len2, s2).
                          case hs_store (sock_hash s2) a of
                            None \<Rightarrow> Inl Use_After_Free
                          | Some n3 \<Rightarrow>
                              Inr (ret, so_put a (n3\<lparr>so_rcv_buf := buf2, so_rcv_len := word_of_int len2\<rparr>) s2)))))))"

section \<open>Sending\<close>

abbreviation (input) EINTR :: int where "EINTR \<equiv> 4"
abbreviation (input) EAGAIN :: int where "EAGAIN \<equiv> 11"

definition an_ignore_errno :: "int \<Rightarrow> int" where
  "an_ignore_errno eno = (if eno = EAGAIN \<or> eno = EINTR then 0 else -1)"

datatype send_stat = SEND_ERROR | SEND_AGAIN | SEND_FINISH | SEND_SHUTDOWN

definition an_tcp_send :: "io \<Rightarrow> nat \<Rightarrow> 'w server \<Rightarrow> (send_stat \<times> 'w server) res" where
  "an_tcp_send io i s =
     res_bind (conn_at i s) (\<lambda>_.
     res_bind (an_socket_t_find_by_index (of_nat i) (sock_hash s)) (\<lambda>r.
     case r of
       None \<Rightarrow> Inr (SEND_SHUTDOWN, s)
     | Some a \<Rightarrow>
         (case hs_store (sock_hash s) a of
            None \<Rightarrow> Inl Use_After_Free
          | Some n \<Rightarrow>
              let send_len = (if so_send_len n \<noteq> 0 then io_send io i else 0);
                  out = take (nat send_len) (case so_send_buf n of None \<Rightarrow> [] | Some b \<Rightarrow> b);
                  s1 = s\<lparr>sent_on := (sent_on s)(i := sent_on s i @ out)\<rparr>
              in if send_len < 0 then
                   if an_ignore_errno (io_errno io i) \<noteq> 0 then Inr (SEND_ERROR, s)
                   else res_bind (m_sock_add_write i s) (\<lambda>s'. Inr (SEND_AGAIN, s'))
                 else if send_len = 0 then Inr (SEND_SHUTDOWN, s)
                 else if send_len < sint (so_send_len n) then
                   res_bind (m_sock_del_write i s1) (\<lambda>s'. Inr (SEND_AGAIN, s'))
                 else
                   res_bind (m_sock_del_write i s1) (\<lambda>s'.
                     Inr (SEND_FINISH, so_put a (n\<lparr>so_send_buf := None, so_send_len := 0\<rparr>) s')))))"

section \<open>Events\<close>

definition an_tcp_events_do :: "'w alloc \<Rightarrow> io \<Rightarrow> nat \<Rightarrow> 'w server \<Rightarrow> (int \<times> 'w server) res" where
  "an_tcp_events_do alloc io i s =
     res_bind (conn_at i s) (\<lambda>p.
     if pf_revents p AND POLLERR \<noteq> 0 then
       res_bind (an_sock_destory i s) (\<lambda>s1. Inr (-1, s1))
     else if pf_revents p AND POLLOUT \<noteq> 0 then
       res_bind (an_tcp_send io i s) (\<lambda>(st, s1).
       case st of
         SEND_FINISH \<Rightarrow>
           res_bind (m_sock_del_write i s1) (\<lambda>s2. res_bind (an_sock_destory i s2) (\<lambda>s3. Inr (0, s3)))
       | SEND_AGAIN \<Rightarrow> res_bind (m_sock_add_write i s1) (\<lambda>s2. Inr (0, s2))
       | _ \<Rightarrow> res_bind (an_sock_destory i s1) (\<lambda>s2. Inr (0, s2)))
     else if pf_revents p AND POLLIN \<noteq> 0 then
       res_bind (an_tcp_recv alloc io i s) (\<lambda>(ret, s1).
       if ret \<noteq> 0 then res_bind (an_sock_destory i s1) (\<lambda>s2. Inr (0, s2)) else Inr (0, s1))
     else Inr (0, s))"

text \<open>\<open>an_exit\<close> ends the process: the outcome of \<open>an_poll\<close> is a return value or the exit.\<close>

datatype poll_end = Poll_Ret int | Poll_Exit

fun poll_loop :: "'w alloc \<Rightarrow> io \<Rightarrow> nat list \<Rightarrow> 'w server \<Rightarrow> (poll_end \<times> 'w server) res" where
  "poll_loop alloc io [] s = Inr (Poll_Ret 0, s)"
| "poll_loop alloc io (i # is) s =
     (if int i < an_curfds s then
        res_bind (conn_at i s) (\<lambda>p.
        if pf_fd p = -1 then poll_loop alloc io is s
        else if pf_revents p AND (POLLIN OR POLLOUT OR POLLERR) \<noteq> 0 then
          res_bind (an_tcp_events_do alloc io i s) (\<lambda>(ret, s1).
          if ret \<noteq> 0 then Inr (Poll_Exit, s1) else poll_loop alloc io is s1)
        else poll_loop alloc io is s)
      else Inr (Poll_Ret 0, s))"

text \<open>The kernel writes \<open>revents\<close> of the first \<open>an_curfds\<close> entries.\<close>

definition put_revents :: "(nat \<Rightarrow> u16) \<Rightarrow> 'w server \<Rightarrow> 'w server" where
  "put_revents revs s =
     s\<lparr>conn_array := map (\<lambda>i. if int i < an_curfds s then (conn_array s ! i)\<lparr>pf_revents := revs i\<rparr>
                               else conn_array s ! i) [0..<length (conn_array s)]\<rparr>"

definition poll_slots :: "nat list" where
  "poll_slots = [1..<AN_POLL_MAX]"

definition an_poll ::
  "'w alloc \<Rightarrow> io \<Rightarrow> int \<Rightarrow> (nat \<Rightarrow> u16) \<Rightarrow> s32 \<Rightarrow> addr option \<Rightarrow> 'w server \<Rightarrow> (poll_end \<times> 'w server) res" where
  "an_poll alloc io nready revs newfd mem s =
     (if nready < 1 then Inr (Poll_Ret 0, s)
      else
        let s1 = put_revents revs s in
        res_bind (conn_at 0 s1) (\<lambda>p.
        let (r, s2) = (if pf_revents p AND POLLIN \<noteq> 0 \<and> 0 \<le> sint newfd then an_sock_poll_add mem newfd s1 else (0, s1))
        in if r \<noteq> 0 then Inr (Poll_Ret 0, s2) else poll_loop alloc io poll_slots s2))"

section \<open>The invariant\<close>

abbreviation fd_at :: "'w server \<Rightarrow> nat \<Rightarrow> s32" where
  "fd_at s i \<equiv> pf_fd (conn_array s ! i)"

abbreviation sock_of :: "'w server \<Rightarrow> nat \<Rightarrow> an_socket option" where
  "sock_of s i \<equiv> sock_get (sock_hash s) (of_nat i)"

definition srv_ok :: "'w server \<Rightarrow> bool" where
  "srv_ok s \<longleftrightarrow>
     length (conn_array s) = AN_POLL_MAX \<and> 1 \<le> an_curfds s \<and> an_curfds s \<le> int AN_POLL_MAX
     \<and> 0 \<le> sint (fd_at s 0)
     \<and> (\<forall>i < AN_POLL_MAX. sint (fd_at s i) < 0 \<longrightarrow> fd_at s i = -1)
     \<and> (\<forall>i < AN_POLL_MAX. an_curfds s \<le> int i \<longrightarrow> fd_at s i = -1)
     \<and> (\<forall>i < AN_POLL_MAX. \<forall>j < AN_POLL_MAX. fd_at s i = fd_at s j \<longrightarrow> fd_at s i \<noteq> -1 \<longrightarrow> i = j)
     \<and> sock_inv (sock_hash s)
     \<and> (\<forall>k. sock_get (sock_hash s) k \<noteq> None \<longrightarrow>
           (\<exists>i. 0 < i \<and> i < AN_POLL_MAX \<and> k = of_nat i \<and> fd_at s i \<noteq> -1))"

lemma srv_okD:
  assumes "srv_ok s"
  shows "length (conn_array s) = AN_POLL_MAX" "1 \<le> an_curfds s" "an_curfds s \<le> int AN_POLL_MAX"
    "0 \<le> sint (fd_at s 0)"
    "i < AN_POLL_MAX \<Longrightarrow> sint (fd_at s i) < 0 \<Longrightarrow> fd_at s i = -1"
    "i < AN_POLL_MAX \<Longrightarrow> an_curfds s \<le> int i \<Longrightarrow> fd_at s i = -1"
    "i < AN_POLL_MAX \<Longrightarrow> j < AN_POLL_MAX \<Longrightarrow> fd_at s i = fd_at s j \<Longrightarrow> fd_at s i \<noteq> -1 \<Longrightarrow> i = j"
    "sock_inv (sock_hash s)"
    "sock_get (sock_hash s) k \<noteq> None \<Longrightarrow> \<exists>i. 0 < i \<and> i < AN_POLL_MAX \<and> k = of_nat i \<and> fd_at s i \<noteq> -1"
  using assms unfolding srv_ok_def by blast+

text \<open>A change of the sockets only.\<close>

lemma srv_ok_socks:
  assumes "srv_ok s" "conn_array s' = conn_array s" "an_curfds s' = an_curfds s" "sock_inv (sock_hash s')"
    and "\<And>k. sock_get (sock_hash s') k \<noteq> None \<Longrightarrow> \<exists>i. 0 < i \<and> i < AN_POLL_MAX \<and> k = of_nat i \<and> fd_at s i \<noteq> -1"
  shows "srv_ok s'"
  using assms(1) unfolding srv_ok_def assms(2,3) using assms(4,5) by blast

lemma first_index_Some:
  "first_index P xs = Some i \<Longrightarrow> i < length xs \<and> P (xs ! i) \<and> (\<forall>j < i. \<not> P (xs ! j))"
proof (induction xs arbitrary: i)
  case (Cons x xs)
  show ?case
  proof (cases "P x")
    case False
    with Cons.prems obtain j where j: "first_index P xs = Some j" "i = Suc j" by auto
    from Cons.IH [OF j(1)] j(2) False show ?thesis by (auto simp: less_Suc_eq_0_disj)
  qed (use Cons.prems in auto)
qed simp

lemma first_index_None: "first_index P xs = None \<longleftrightarrow> (\<forall>i < length xs. \<not> P (xs ! i))"
  by (induction xs) (auto simp: less_Suc_eq_0_disj)

lemma first_index_unique:
  assumes "i < length xs" "P (xs ! i)" "\<And>j. j < length xs \<Longrightarrow> P (xs ! j) \<Longrightarrow> j = i"
  shows "first_index P xs = Some i"
proof (cases "first_index P xs")
  case None
  with assms(1,2) show ?thesis by (auto simp: first_index_None)
next
  case (Some j)
  with first_index_Some [OF Some] assms(3) show ?thesis by auto
qed

lemma of_nat_index_inj:
  assumes "i < AN_POLL_MAX" "j < AN_POLL_MAX"
  shows "(of_nat i :: s32) = of_nat j \<longleftrightarrow> i = j"
proof -
  have "unat (of_nat i :: s32) = i" "unat (of_nat j :: s32) = j"
    using assms by (simp_all add: unat_of_nat32)
  then show ?thesis by metis
qed

lemma sint_index: "i < AN_POLL_MAX \<Longrightarrow> sint (of_nat i :: s32) = int i"
  by (simp add: signed_of_nat signed_take_bit_int_eq_self)

lemma sint_minus_1 [simp]: "sint (-1 :: s32) = -1"
  by simp

section \<open>Opening and closing\<close>

text \<open>A socket is only reachable from a slot in use.\<close>

lemma free_slot_no_socket:
  assumes "srv_ok s" "i < AN_POLL_MAX" "fd_at s i = -1"
  shows "sock_of s i = None"
proof (rule ccontr)
  assume "sock_of s i \<noteq> None"
  then obtain j where "j < AN_POLL_MAX" "(of_nat i :: s32) = of_nat j" "fd_at s j \<noteq> -1"
    using srv_okD(9) [OF assms(1)] by blast
  with assms(2,3) of_nat_index_inj [of i j] show False by simp
qed

lemma poll_del_slot:
  assumes "srv_ok s" "i < AN_POLL_MAX" "fd_at s i \<noteq> -1" "conn_array s' = conn_array s"
  shows "an_sock_poll_del (fd_at s i) s' =
    (0, s'\<lparr>conn_array := (conn_array s)[i := (conn_array s ! i)\<lparr>pf_fd := -1, pf_events := POLLIN\<rparr>],
           an_curfds := (if int i = an_curfds s' - 1 then an_curfds s' - 1 else an_curfds s')\<rparr>)"
proof -
  have "first_index (\<lambda>p. pf_fd p = fd_at s i) (conn_array s) = Some i"
    using srv_okD(1,7) [OF assms(1)] assms(2,3) by (intro first_index_unique) auto
  then show ?thesis using assms(4) by (simp add: an_sock_poll_del_def)
qed

lemma destory_ok:
  assumes ok: "srv_ok s" and i: "0 < i" "i < AN_POLL_MAX" "fd_at s i \<noteq> -1"
  shows "\<exists>s'. an_sock_destory i s = Inr s' \<and> srv_ok s' \<and> fd_at s' i = -1
    \<and> (\<forall>j < AN_POLL_MAX. j \<noteq> i \<longrightarrow> conn_array s' ! j = conn_array s ! j)
    \<and> closed_fds s' = closed_fds s @ [fd_at s i]
    \<and> sock_get (sock_hash s') = (sock_get (sock_hash s))(of_nat i := None)
    \<and> sent_on s' = sent_on s \<and> others s' = others s"
proof -
  note D = srv_okD [OF ok]
  obtain t where t: "an_socket_t_del (of_nat i) (sock_hash s) = Inr t" "sock_inv t"
    "sock_get t = (sock_get (sock_hash s))(of_nat i := None)"
    using sock_del_total [OF D(8)] by blast
  define s1 where "s1 = s\<lparr>closed_fds := closed_fds s @ [fd_at s i], sock_hash := t,
    conn_array := (conn_array s)[i := (conn_array s ! i)\<lparr>pf_fd := -1, pf_events := POLLIN\<rparr>],
    an_curfds := (if int i = an_curfds s - 1 then an_curfds s - 1 else an_curfds s)\<rparr>"
  have d: "an_sock_destory i s = Inr s1"
    using i(2) D(1) t(1)
    by (simp add: an_sock_destory_def conn_at_def s1_def poll_del_slot [OF ok i(2,3)])
  have fd: "fd_at s1 j = (if j = i then -1 else fd_at s j)" if "j < AN_POLL_MAX" for j
    using that D(1) by (simp add: s1_def nth_list_update)
  have "srv_ok s1"
    unfolding srv_ok_def
  proof (intro conjI allI impI)
    show "an_curfds s1 \<le> int AN_POLL_MAX" "1 \<le> an_curfds s1"
      using D(2,3) i(1) by (auto simp: s1_def)
    show "fd_at s1 j = -1" if "j < AN_POLL_MAX" "an_curfds s1 \<le> int j" for j
      using fd [OF that(1)] D(6) [OF that(1)] that(2) by (auto simp: s1_def split: if_splits)
    show "j = k" if "j < AN_POLL_MAX" "k < AN_POLL_MAX" "fd_at s1 j = fd_at s1 k" "fd_at s1 j \<noteq> -1" for j k
      using that fd D(7) by (metis (full_types))
    show "\<exists>j. 0 < j \<and> j < AN_POLL_MAX \<and> k = of_nat j \<and> fd_at s1 j \<noteq> -1" if "sock_get (sock_hash s1) k \<noteq> None" for k
    proof -
      from that t(3) have "sock_get (sock_hash s) k \<noteq> None" "k \<noteq> of_nat i" by (auto simp: s1_def split: if_splits)
      with D(9) obtain j where "0 < j" "j < AN_POLL_MAX" "k = of_nat j" "fd_at s j \<noteq> -1" "j \<noteq> i" by blast
      with fd show ?thesis by auto
    qed
    show "length (conn_array s1) = AN_POLL_MAX" "sock_inv (sock_hash s1)" using D(1) t(2) by (simp_all add: s1_def)
    show "0 \<le> sint (fd_at s1 0)" using fd [of 0] D(4) i(1) by simp
    show "fd_at s1 k = -1" if "k < AN_POLL_MAX" "sint (fd_at s1 k) < 0" for k
      using fd [OF that(1)] D(5) [OF that(1)] that(2) by (cases "k = i") auto
  qed
  with d t(3) show ?thesis by (intro exI [of _ s1]) (simp add: s1_def D(1) i(2))
qed

text \<open>The lowest free slot, and what \<open>an_sock_poll_add\<close> does to the array and to the table.\<close>

definition lowest_free :: "'w server \<Rightarrow> nat \<Rightarrow> bool" where
  "lowest_free s i \<longleftrightarrow> 0 < i \<and> i < AN_POLL_MAX \<and> fd_at s i = -1 \<and> (\<forall>j. 0 < j \<and> j < i \<longrightarrow> fd_at s j \<noteq> -1)"

definition take_slot :: "nat \<Rightarrow> s32 \<Rightarrow> 'w server \<Rightarrow> 'w server" where
  "take_slot i fd s =
     s\<lparr>conn_array := (conn_array s)[i := (conn_array s ! i)\<lparr>pf_fd := fd, pf_revents := POLLIN\<rparr>],
       an_curfds := (if int i = an_curfds s then an_curfds s + 1 else an_curfds s)\<rparr>"

definition new_socket :: "nat \<Rightarrow> an_socket" where
  "new_socket i = socket_zero\<lparr>so_send_buflen := 204800, so_index := of_nat i\<rparr>"

lemma neg_fd: "srv_ok s \<Longrightarrow> k < AN_POLL_MAX \<Longrightarrow> fd_at s k = -1 \<longleftrightarrow> sint (fd_at s k) < 0"
  using srv_okD(5) [of s k] by auto

lemma first_free:
  assumes ok: "srv_ok s" and i: "lowest_free s i"
  shows "first_index (\<lambda>p. sint (pf_fd p) < 0) (drop 1 (conn_array s)) = Some (i - 1)"
proof (cases "first_index (\<lambda>p. sint (pf_fd p) < 0) (drop 1 (conn_array s))")
  case None
  obtain j where j: "i = Suc j" using i by (cases i) (auto simp: lowest_free_def)
  then have "\<not> sint (fd_at s (Suc j)) < 0"
    using None i srv_okD(1) [OF ok] by (auto simp: first_index_None lowest_free_def)
  with i j show ?thesis by (simp add: lowest_free_def)
next
  case (Some k)
  with first_index_Some [OF Some] srv_okD(1) [OF ok]
  have k: "Suc k < AN_POLL_MAX" "sint (fd_at s (Suc k)) < 0" "\<forall>l < k. \<not> sint (fd_at s (Suc l)) < 0" by auto
  then have k': "fd_at s (Suc k) = -1" "\<forall>l < k. fd_at s (Suc l) \<noteq> -1" using neg_fd [OF ok] by auto
  obtain j where j: "i = Suc j" using i by (cases i) (auto simp: lowest_free_def)
  have "\<not> k < j" "\<not> j < k" using k' i j by (auto simp: lowest_free_def)
  then show ?thesis using Some j by simp
qed

lemma no_free:
  assumes ok: "srv_ok s" and full: "\<forall>i. 0 < i \<and> i < AN_POLL_MAX \<longrightarrow> fd_at s i \<noteq> -1"
  shows "an_sock_poll_add mem fd s = (-1, s)"
proof -
  have "first_index (\<lambda>p. sint (pf_fd p) < 0) (drop 1 (conn_array s)) = None"
    using full srv_okD(1) [OF ok] neg_fd [OF ok] by (auto simp: first_index_None)
  then show ?thesis by (simp add: an_sock_poll_add_def)
qed

lemma free_or_full:
  "(\<exists>i. lowest_free s i) \<or> (\<forall>i. 0 < i \<and> i < AN_POLL_MAX \<longrightarrow> fd_at s i \<noteq> -1)"
proof (rule disjCI)
  assume "\<not> (\<forall>i. 0 < i \<and> i < AN_POLL_MAX \<longrightarrow> fd_at s i \<noteq> -1)"
  then obtain k where k: "0 < k \<and> k < AN_POLL_MAX \<and> fd_at s k = -1" by blast
  let ?P = "\<lambda>i. 0 < i \<and> i < AN_POLL_MAX \<and> fd_at s i = -1"
  have P: "?P (LEAST i. ?P i)" by (rule LeastI [of ?P, OF k])
  moreover have "fd_at s j \<noteq> -1" if "0 < j \<and> j < (LEAST i. ?P i)" for j
    using not_less_Least [of j ?P] that P by auto
  ultimately show "\<exists>i. lowest_free s i" unfolding lowest_free_def by blast
qed

lemma lowest_free_cur:
  assumes ok: "srv_ok s" and i: "lowest_free s i"
  shows "int i \<le> an_curfds s"
proof (rule ccontr)
  assume c: "\<not> int i \<le> an_curfds s"
  have k: "nat (an_curfds s) < i" "0 < nat (an_curfds s)" using c srv_okD(2) [OF ok] by simp_all
  then have "nat (an_curfds s) < AN_POLL_MAX" using i by (simp add: lowest_free_def)
  then have "fd_at s (nat (an_curfds s)) = -1" using srv_okD(2,6) [OF ok] by simp
  with i k show False unfolding lowest_free_def by blast
qed

lemma take_slot_ok:
  assumes ok: "srv_ok s" and i: "lowest_free s i" and fd: "0 \<le> sint fd" "\<forall>i < AN_POLL_MAX. fd_at s i \<noteq> fd"
  shows "srv_ok (take_slot i fd s)" "int i < an_curfds (take_slot i fd s)"
proof -
  note D = srv_okD [OF ok]
  let ?s = "take_slot i fd s"
  have i': "0 < i" "i < AN_POLL_MAX" "fd_at s i = -1" using i by (simp_all add: lowest_free_def)
  have cur: "int i \<le> an_curfds s" by (rule lowest_free_cur [OF ok i])
  show "int i < an_curfds ?s" using cur by (simp add: take_slot_def)
  have f: "fd_at ?s k = (if k = i then fd else fd_at s k)" if "k < AN_POLL_MAX" for k
    using that D(1) by (simp add: take_slot_def nth_list_update)
  have fdn: "fd \<noteq> -1" using fd(1) by auto
  show "srv_ok ?s"
    unfolding srv_ok_def
  proof (intro conjI allI impI)
    show "an_curfds ?s \<le> int AN_POLL_MAX" "1 \<le> an_curfds ?s" using D(2,3) i'(2) by (auto simp: take_slot_def)
    show "fd_at ?s k = -1" if "k < AN_POLL_MAX" "an_curfds ?s \<le> int k" for k
      using f [OF that(1)] D(6) [OF that(1)] that(2) cur by (auto simp: take_slot_def split: if_splits)
    show "k = l" if "k < AN_POLL_MAX" "l < AN_POLL_MAX" "fd_at ?s k = fd_at ?s l" "fd_at ?s k \<noteq> -1" for k l
      using that f D(7) fd(2) by metis
    show "\<exists>l. 0 < l \<and> l < AN_POLL_MAX \<and> k = of_nat l \<and> fd_at ?s l \<noteq> -1" if "sock_get (sock_hash ?s) k \<noteq> None" for k
      using that D(9) [of k] f fdn i'(1,2) by (auto simp: take_slot_def split: if_splits)
    show "length (conn_array ?s) = AN_POLL_MAX" "sock_inv (sock_hash ?s)" using D(1,8) by (simp_all add: take_slot_def)
    show "0 \<le> sint (fd_at ?s 0)" using f [of 0] D(4) i'(1) by simp
    show "fd_at ?s k = -1" if "k < AN_POLL_MAX" "sint (fd_at ?s k) < 0" for k
      using f [OF that(1)] D(5) [OF that(1)] fd(1) that(2) by (cases "k = i") auto
  qed
qed

lemma link_socket_ok:
  assumes ok: "srv_ok s" and i: "0 < i" "i < AN_POLL_MAX" "fd_at s i \<noteq> -1" "sock_of s i = None"
    and a: "a \<noteq> NULL_p" "hs_store (sock_hash s) a = None"
    and s': "s' = s\<lparr>sock_hash := hs_link (byte_sum_hash (of_nat i)) a (new_socket i) (sock_hash s)\<rparr>"
  shows "srv_ok s'" "sock_get (sock_hash s') = (sock_get (sock_hash s))(of_nat i \<mapsto> new_socket i)"
proof -
  note D = srv_okD [OF ok]
  have ix: "so_index (new_socket i) = of_nat i" by (simp add: new_socket_def)
  have sk: "sock_ok (sock_hash s)" using D(8) by (simp add: sock_inv_def)
  show get: "sock_get (sock_hash s') = (sock_get (sock_hash s))(of_nat i \<mapsto> new_socket i)"
    using hs_get_link [OF sk a(2), of "new_socket i"] by (simp add: s' ix)
  have "sock_ok (sock_hash s')"
    using hs_ok_link [OF sk a, of "new_socket i"] i(4) by (simp add: s' ix)
  then have inv: "sock_inv (sock_hash s')"
    using D(8) get sint_index [OF i(2)] i(2) unfolding sock_inv_def by auto
  have live: "\<exists>j. 0 < j \<and> j < AN_POLL_MAX \<and> k = of_nat j \<and> fd_at s j \<noteq> -1" if "sock_get (sock_hash s') k \<noteq> None" for k
    using that D(9) [of k] i(1-3) unfolding get by (cases "k = of_nat i") auto
  show "srv_ok s'" using inv live by (rule srv_ok_socks [OF ok, rotated 2]) (simp_all add: s')
qed

lemma poll_add_steps:
  assumes ok: "srv_ok s" and i: "lowest_free s i"
  shows "an_sock_poll_add None fd s = (-1, take_slot i fd s)"
    and "an_sock_poll_add (Some a) fd s = (0, (take_slot i fd s)\<lparr>sock_hash :=
           hs_link (byte_sum_hash (of_nat i)) a (new_socket i) (sock_hash s)\<rparr>)"
proof -
  have "0 < i" using i by (simp add: lowest_free_def)
  then obtain j where "i = Suc j" by (cases i) auto
  with first_free [OF ok i] show "an_sock_poll_add None fd s = (-1, take_slot i fd s)"
    "an_sock_poll_add (Some a) fd s = (0, (take_slot i fd s)\<lparr>sock_hash :=
           hs_link (byte_sum_hash (of_nat i)) a (new_socket i) (sock_hash s)\<rparr>)"
    by (simp_all add: an_sock_poll_add_def an_socket_t_create_def take_slot_def an_socket_t_get_hash_def
        hs_link_def new_socket_def)
qed

lemma poll_add_ok:
  assumes ok: "srv_ok s" and fd: "0 \<le> sint fd" "\<forall>i < AN_POLL_MAX. fd_at s i \<noteq> fd"
    and a: "a \<noteq> NULL_p" "hs_store (sock_hash s) a = None" and i: "lowest_free s i"
  shows "\<exists>s'. an_sock_poll_add (Some a) fd s = (0, s') \<and> srv_ok s' \<and> int i < an_curfds s'
    \<and> conn_array s' = (conn_array s)[i := (conn_array s ! i)\<lparr>pf_fd := fd, pf_revents := POLLIN\<rparr>]
    \<and> sock_get (sock_hash s') = (sock_get (sock_hash s))(of_nat i \<mapsto> new_socket i)"
proof -
  let ?s = "take_slot i fd s"
  let ?s' = "?s\<lparr>sock_hash := hs_link (byte_sum_hash (of_nat i)) a (new_socket i) (sock_hash s)\<rparr>"
  note T = take_slot_ok [OF ok i fd]
  have i': "0 < i" "i < AN_POLL_MAX" "fd_at s i = -1" using i by (simp_all add: lowest_free_def)
  have "fd_at ?s i \<noteq> -1" using i'(2) srv_okD(1) [OF ok] fd(1) by (auto simp: take_slot_def)
  moreover have "sock_of ?s i = None" using free_slot_no_socket [OF ok i'(2,3)] by (simp add: take_slot_def)
  ultimately have "srv_ok ?s'" "sock_get (sock_hash ?s') = (sock_get (sock_hash ?s))(of_nat i \<mapsto> new_socket i)"
    using link_socket_ok [OF T(1) i'(1,2), of a ?s'] a by (simp_all add: take_slot_def)
  with T(2) poll_add_steps(2) [OF ok i] show ?thesis
    by (intro exI [of _ ?s']) (simp add: take_slot_def)
qed

section \<open>Changing a socket in place\<close>

lemma hs_put:
  assumes ok: "hs_ok h key t" and a: "a \<in> set (hs_bucket t b)" "hs_store t a = Some n" and k: "key n' = key n"
  shows "hs_ok h key (t\<lparr>hs_store := (hs_store t)(a \<mapsto> n')\<rparr>)" (is "hs_ok h key ?t")
    and "hs_get h key (t\<lparr>hs_store := (hs_store t)(a \<mapsto> n')\<rparr>) = (hs_get h key t)(key n \<mapsto> n')"
proof -
  have keys: "key (the (((hs_store t)(a \<mapsto> n')) c)) = key (the (hs_store t c))" for c using a(2) k by simp
  show ok': "hs_ok h key ?t"
    using ok unfolding hs_ok_def chain_ok_def by (simp add: keys del: fun_upd_apply) (simp add: fun_upd_apply)
  have "hs_get h key ?t j = ((hs_get h key t)(key n \<mapsto> n')) j" for j
  proof (cases "j = key n")
    case True
    with hs_get_in [OF ok', of a b] a(1) k show ?thesis by simp
  next
    case False
    have "the (((hs_store t)(a \<mapsto> n')) c) = the (hs_store t c)"
      if "List.find (\<lambda>c. key (the (hs_store t c)) = j) (hs_bucket t (h j)) = Some c" for c
      using find_Some_in [OF that] a(2) False by auto
    then have "map_option (\<lambda>c. the (((hs_store t)(a \<mapsto> n')) c))
          (List.find (\<lambda>c. key (the (hs_store t c)) = j) (hs_bucket t (h j)))
        = map_option (\<lambda>c. the (hs_store t c)) (List.find (\<lambda>c. key (the (hs_store t c)) = j) (hs_bucket t (h j)))"
      by (intro option.map_cong refl) (auto elim: option.set_cases)
    with False show ?thesis
      unfolding hs_get_def by (simp add: keys del: fun_upd_apply) (simp add: fun_upd_apply)
  qed
  then show "hs_get h key ?t = (hs_get h key t)(key n \<mapsto> n')" by (rule ext)
qed

text \<open>The address of the socket of a slot.\<close>

definition sock_addr :: "'w server \<Rightarrow> nat \<Rightarrow> addr \<Rightarrow> an_socket \<Rightarrow> bool" where
  "sock_addr s i a n \<longleftrightarrow> a \<in> set (hs_bucket (sock_hash s) (byte_sum_hash (of_nat i)))
     \<and> hs_store (sock_hash s) a = Some n \<and> so_index n = of_nat i"

lemma sock_find:
  assumes "srv_ok s" "i < AN_POLL_MAX"
  obtains (absent) "an_socket_t_find_by_index (of_nat i) (sock_hash s) = Inr None" "sock_of s i = None"
  | (present) a n where "an_socket_t_find_by_index (of_nat i) (sock_hash s) = Inr (Some a)"
      "sock_of s i = Some n" "sock_addr s i a n"
proof -
  have ok: "sock_ok (sock_hash s)" using srv_okD(8) [OF assms(1)] by (simp add: sock_inv_def)
  have i: "sint (of_nat i :: s32) < 1024" using sint_index [OF assms(2)] assms(2) by simp
  show thesis
  proof (rule sock_find_ok [OF ok i])
    fix a
    assume f: "an_socket_t_find_by_index (of_nat i) (sock_hash s) = Inr (Some a)"
      and a: "a \<in> set (hs_bucket (sock_hash s) (byte_sum_hash (of_nat i)))"
      and g: "sock_of s i = Some (the (hs_store (sock_hash s) a))"
        "so_index (the (hs_store (sock_hash s) a)) = of_nat i"
    have "hs_store (sock_hash s) a \<noteq> None" using hs_okD [OF ok] a unfolding chain_ok_def by blast
    then obtain n where "hs_store (sock_hash s) a = Some n" by blast
    with f a g show thesis by (intro that(2) [of a n]) (simp_all add: sock_addr_def)
  qed (rule that(1))
qed

lemma so_put_ok:
  assumes ok: "srv_ok s" and i: "i < AN_POLL_MAX" and a: "sock_addr s i a n" and n': "so_index n' = of_nat i"
  shows "srv_ok (so_put a n' s)" "sock_get (sock_hash (so_put a n' s)) = (sock_get (sock_hash s))(of_nat i \<mapsto> n')"
    "sock_addr (so_put a n' s) i a n'"
proof -
  note D = srv_okD [OF ok]
  have sk: "sock_ok (sock_hash s)" using D(8) by (simp add: sock_inv_def)
  have a': "a \<in> set (hs_bucket (sock_hash s) (byte_sum_hash (of_nat i)))" "hs_store (sock_hash s) a = Some n"
    "so_index n = of_nat i" using a by (simp_all add: sock_addr_def)
  note P = hs_put [OF sk a'(1,2), of n', simplified a'(3) n', OF refl]
  show get: "sock_get (sock_hash (so_put a n' s)) = (sock_get (sock_hash s))(of_nat i \<mapsto> n')"
    using P(2) by (simp add: so_put_def)
  have present: "sock_get (sock_hash s) (of_nat i) \<noteq> None" using hs_get_in [OF sk a'(1)] a' by simp
  have dom: "sock_get (sock_hash (so_put a n' s)) k \<noteq> None \<longleftrightarrow> sock_get (sock_hash s) k \<noteq> None" for k
    using present unfolding get by simp
  have "sock_inv (sock_hash (so_put a n' s))"
    unfolding sock_inv_def
  proof (intro conjI allI impI)
    show "sock_ok (sock_hash (so_put a n' s))" using P(1) by (simp add: so_put_def)
    show "sock_get (sock_hash (so_put a n' s)) k = None" if "1024 \<le> sint k" for k
    proof -
      have "sock_get (sock_hash s) k = None" using D(8) that by (simp add: sock_inv_def)
      with dom [of k] show ?thesis by (metis (no_types))
    qed
  qed
  then show "srv_ok (so_put a n' s)"
  proof (rule srv_ok_socks [OF ok, rotated 2])
    show "\<exists>j. 0 < j \<and> j < AN_POLL_MAX \<and> k = of_nat j \<and> fd_at s j \<noteq> -1"
      if "sock_get (sock_hash (so_put a n' s)) k \<noteq> None" for k
      using D(9) that unfolding dom by blast
  qed (simp_all add: so_put_def)
  show "sock_addr (so_put a n' s) i a n'" using a' n' by (simp add: sock_addr_def so_put_def)
qed

lemma srv_ok_cong:
  assumes "length (conn_array s') = length (conn_array s)" "\<And>j. j < AN_POLL_MAX \<Longrightarrow> fd_at s' j = fd_at s j"
    "an_curfds s' = an_curfds s" "sock_hash s' = sock_hash s"
  shows "srv_ok s' = srv_ok s"
proof -
  have "(\<exists>i. 0 < i \<and> i < AN_POLL_MAX \<and> k = of_nat i \<and> fd_at s' i \<noteq> -1)
      = (\<exists>i. 0 < i \<and> i < AN_POLL_MAX \<and> k = of_nat i \<and> fd_at s i \<noteq> -1)" for k :: s32
    using assms(2) by metis
  then show ?thesis unfolding srv_ok_def assms(1,3,4) using assms(2) by simp
qed

lemma set_events_ok:
  assumes "srv_ok s" "i < AN_POLL_MAX"
  shows "\<exists>s'. set_events i f s = Inr s' \<and> srv_ok s' \<and> sock_hash s' = sock_hash s \<and> sent_on s' = sent_on s
    \<and> (\<forall>j. fd_at s' j = fd_at s j)"
proof -
  let ?p = "(conn_array s ! i)\<lparr>pf_events := f (pf_events (conn_array s ! i))\<rparr>"
  let ?s = "s\<lparr>conn_array := (conn_array s)[i := ?p]\<rparr>"
  have "fd_at ?s j = fd_at s j" for j by (cases "j = i"; cases "i < length (conn_array s)") (simp_all add: list_update_beyond)
  moreover from this have "srv_ok ?s = srv_ok s" by (intro srv_ok_cong) simp_all
  ultimately show ?thesis
    using assms srv_okD(1) [OF assms(1)] by (intro exI [of _ ?s]) (simp add: set_events_def conn_at_def)
qed

section \<open>Sending and receiving keep the invariant\<close>

lemma conn_at_ok: "srv_ok s \<Longrightarrow> i < AN_POLL_MAX \<Longrightarrow> conn_at i s = Inr (conn_array s ! i)"
  using srv_okD(1) [of s] by (simp add: conn_at_def)

text \<open>A state that differs from another only in histories and in what sockets hold.\<close>

definition same_slots :: "'w server \<Rightarrow> 'w server \<Rightarrow> bool" where
  "same_slots s s' \<longleftrightarrow> srv_ok s' \<and> (\<forall>j < AN_POLL_MAX. fd_at s' j = fd_at s j)"

lemma same_slots_refl: "srv_ok s \<Longrightarrow> same_slots s s"
  by (simp add: same_slots_def)

lemma same_slots_trans: "same_slots s s' \<Longrightarrow> same_slots s' s'' \<Longrightarrow> same_slots s s''"
  by (simp add: same_slots_def)

lemma set_events_slots:
  assumes "srv_ok s" "i < AN_POLL_MAX" "set_events i f s = Inr s'"
  shows "same_slots s s'"
  using set_events_ok [OF assms(1,2), of f] assms(3) by (auto simp: same_slots_def)

lemma so_put_slots:
  assumes "srv_ok s" "i < AN_POLL_MAX" "sock_addr s i a n" "so_index n' = of_nat i"
  shows "same_slots s (so_put a n' s)"
  using so_put_ok(1) [OF assms] by (simp add: same_slots_def so_put_def)

lemma sent_on_slots: "srv_ok s \<Longrightarrow> same_slots s (s\<lparr>sent_on := f\<rparr>)"
  using srv_ok_cong [of "s\<lparr>sent_on := f\<rparr>" s] by (simp add: same_slots_def)

lemma set_events_sock:
  assumes "set_events i f s = Inr s'"
  shows "sock_hash s' = sock_hash s" "sent_on s' = sent_on s"
  using assms by (auto simp: set_events_def)

lemma tcp_send_slots:
  assumes ok: "srv_ok s" and i: "i < AN_POLL_MAX" and r: "an_tcp_send io i s = Inr (st, s')"
  shows "same_slots s s'"
  using ok i
proof (cases rule: sock_find)
  case absent
  with r have "s' = s" by (simp add: an_tcp_send_def conn_at_ok [OF ok i])
  then show ?thesis by (simp add: same_slots_refl [OF ok])
next
  case (present a n)
  let ?s1 = "s\<lparr>sent_on := (sent_on s)(i := sent_on s i @ take (nat (if so_send_len n \<noteq> 0 then io_send io i else 0))
     (case so_send_buf n of None \<Rightarrow> [] | Some b \<Rightarrow> b))\<rparr>"
  have s1: "same_slots s ?s1" "srv_ok ?s1" "sock_addr ?s1 i a n"
    using sent_on_slots [OF ok] present(3) by (simp_all add: same_slots_def sock_addr_def)
  have dw: "same_slots s s2 \<and> same_slots s (so_put a (n\<lparr>so_send_buf := None, so_send_len := 0\<rparr>) s2)"
    if "m_sock_del_write i ?s1 = Inr s2" for s2
  proof -
    have s2: "same_slots ?s1 s2" using set_events_slots [OF s1(2) i] that by (simp add: m_sock_del_write_def)
    have "sock_hash s2 = sock_hash s" using set_events_sock(1) that by (fastforce simp: m_sock_del_write_def)
    then have "sock_addr s2 i a n" "srv_ok s2"
      using present(3) s2 by (simp_all add: sock_addr_def same_slots_def)
    then have "same_slots s2 (so_put a (n\<lparr>so_send_buf := None, so_send_len := 0\<rparr>) s2)"
      using present(3) by (intro so_put_slots [OF _ i, of s2 a n]) (simp_all add: sock_addr_def)
    with s1(1) s2 show ?thesis using same_slots_trans by blast
  qed
  have aw: "same_slots s s2" if "m_sock_add_write i s = Inr s2" for s2
    using set_events_slots [OF ok i] that by (simp add: m_sock_add_write_def)
  have st: "hs_store (sock_hash s) a = Some n" using present(3) by (simp add: sock_addr_def)
  show ?thesis
    using r unfolding an_tcp_send_def conn_at_ok [OF ok i] present(1) Let_def
    by (simp add: st split: if_splits) (use aw dw same_slots_refl [OF ok] in auto)
qed

text \<open>
  The interface to the rest of the program. What the connection code relies on of
  \<open>al_allocate_task\<close>: it keeps the invariant, opens and closes no connection, and frees no socket.
  Theory \<open>Server\<close> interprets it on the model of the allocator.
\<close>

locale task_sink =
  fixes alloc :: "'w alloc"
  assumes keeps_slots: "srv_ok s \<Longrightarrow> same_slots s (alloc js l k s)"
    and keeps_sockets: "srv_ok s \<Longrightarrow> sock_addr s i a n \<Longrightarrow> \<exists>n'. sock_addr (alloc js l k s) i a n'"
begin

lemma tcp_recv_slots:
  assumes ok: "srv_ok s" and i: "i < AN_POLL_MAX"
    and r: "an_tcp_recv alloc io i s = Inr (ret, s')"
  shows "same_slots s s'"
  using ok i
proof (cases rule: sock_find)
  case absent
  with r have "s' = s" by (simp add: an_tcp_recv_def conn_at_ok [OF ok i])
  then show ?thesis by (simp add: same_slots_refl [OF ok])
next
  case (present a n)
  have st: "hs_store (sock_hash s) a = Some n" and ix: "so_index n = of_nat i"
    using present(3) by (simp_all add: sock_addr_def)
  have fin: "same_slots s (so_put a (n3\<lparr>so_rcv_buf := b2, so_rcv_len := l2\<rparr>) s2)"
    if sp: "an_split_rcv_buf_to_json (\<lambda>js l w. alloc js l k w) mem b len (so_put a n2 s) = Inr (rt, b2', len2, s2)"
      and n2: "so_index n2 = of_nat i" and n3: "hs_store (sock_hash s2) a = Some n3"
    for k mem b len n2 rt b2' len2 s2 n3 b2 l2
  proof -
    note p = so_put_slots [OF ok i present(3) n2] so_put_ok(3) [OF ok i present(3) n2]
    have "same_slots s s2 \<and> (\<exists>n'. sock_addr s2 i a n')"
    proof (rule split_world [where P = "\<lambda>s2. same_slots s s2 \<and> (\<exists>n'. sock_addr s2 i a n')", OF _ _ sp])
      show "same_slots s (so_put a n2 s) \<and> (\<exists>n'. sock_addr (so_put a n2 s) i a n')" using p by blast
      show "same_slots s (alloc js l k w) \<and> (\<exists>n'. sock_addr (alloc js l k w) i a n')"
        if "same_slots s w \<and> (\<exists>n'. sock_addr w i a n')" for js l w
        using that keeps_slots keeps_sockets same_slots_trans by (metis same_slots_def)
    qed
    then have s2: "same_slots s s2" "srv_ok s2" "sock_addr s2 i a n3"
      using n3 by (auto simp: same_slots_def sock_addr_def)
    moreover have "so_index n3 = of_nat i" using s2(3) by (simp add: sock_addr_def)
    ultimately show ?thesis using so_put_slots [OF _ i s2(3)] same_slots_trans by fastforce
  qed
  have fail: "same_slots s (so_put a (n\<lparr>so_rcv_buf := None\<rparr>) s)"
    using so_put_slots [OF ok i present(3)] ix by simp
  show ?thesis
    using r st ix fail same_slots_refl [OF ok] unfolding an_tcp_recv_def conn_at_ok [OF ok i] present(1) res_bind_simps
    by (auto simp: Let_def split: option.splits if_splits intro!: fin)
qed

end

section \<open>The event loop\<close>

lemma destory_keeps:
  assumes "srv_ok s" "0 < i" "i < AN_POLL_MAX" "fd_at s i \<noteq> -1" "an_sock_destory i s = Inr s'"
  shows "srv_ok s'"
  using destory_ok [OF assms(1-4)] assms(5) by auto

context task_sink
begin

lemma events_do_keeps:
  assumes ok: "srv_ok s" and i: "0 < i" "i < AN_POLL_MAX" "fd_at s i \<noteq> -1"
    and r: "an_tcp_events_do alloc io i s = Inr (ret, s')"
  shows "srv_ok s'"
proof -
  have destroy: "srv_ok s2" if "same_slots s s1" "an_sock_destory i s1 = Inr s2" for s1 s2
    using destory_keeps [OF _ i(1,2), of s1 s2] that i(2,3) by (simp add: same_slots_def)
  have ev: "same_slots s s2" if "same_slots s s1" "set_events i f s1 = Inr s2" for s1 s2 f
    using set_events_slots [OF _ i(2), of s1 f s2] that same_slots_trans by (auto simp: same_slots_def)
  have good: "srv_ok s1" if "same_slots s s1" for s1 using that by (simp add: same_slots_def)
  let ?rev = "pf_revents (conn_array s ! i)"
  note r' = r [unfolded an_tcp_events_do_def conn_at_ok [OF ok i(2)] res_bind_simps]
  consider (err) "?rev AND POLLERR \<noteq> 0" | (out) "?rev AND POLLERR = 0" "?rev AND POLLOUT \<noteq> 0"
    | (inp) "?rev AND POLLERR = 0" "?rev AND POLLOUT = 0" "?rev AND POLLIN \<noteq> 0"
    | (none) "?rev AND POLLERR = 0" "?rev AND POLLOUT = 0" "?rev AND POLLIN = 0" by blast
  then show ?thesis
  proof cases
    case err
    with r' show ?thesis using destroy [OF same_slots_refl [OF ok]] by auto
  next
    case out
    with r' obtain st s1 where s1: "an_tcp_send io i s = Inr (st, s1)" by auto
    note sl = tcp_send_slots [OF ok i(2) s1]
    show ?thesis
    proof (cases st)
      case SEND_FINISH
      with r' out s1 obtain s2 where "set_events i (\<lambda>e. e AND NOT POLLOUT) s1 = Inr s2" "an_sock_destory i s2 = Inr s'"
        by (auto simp: m_sock_del_write_def)
      with ev [OF sl] destroy show ?thesis by blast
    next
      case SEND_AGAIN
      with r' out s1 have "set_events i (\<lambda>e. e OR POLLOUT) s1 = Inr s'" by (auto simp: m_sock_add_write_def)
      with ev [OF sl] good show ?thesis by blast
    qed (use r' out s1 destroy [OF sl] in auto)
  next
    case inp
    with r' obtain rt s1 where s1: "an_tcp_recv alloc io i s = Inr (rt, s1)" by auto
    note sl = tcp_recv_slots [OF ok i(2) s1]
    show ?thesis using r' inp s1 destroy [OF sl] good [OF sl] by (auto split: if_splits)
  next
    case none
    with r' ok show ?thesis by simp
  qed
qed

lemma poll_loop_keeps:
  "srv_ok s \<Longrightarrow> \<forall>i \<in> set is. 0 < i \<and> i < AN_POLL_MAX \<Longrightarrow> poll_loop alloc io is s = Inr (r, s') \<Longrightarrow> srv_ok s'"
proof (induction "is" arbitrary: s)
  case (Cons i js)
  have i: "0 < i" "i < AN_POLL_MAX" using Cons.prems(2) by auto
  note E = events_do_keeps [OF Cons.prems(1) i]
  show ?case
    using Cons.prems Cons.IH E unfolding poll_loop.simps conn_at_ok [OF Cons.prems(1) i(2)]
    by (auto split: if_splits)
qed simp

end

lemma put_revents_ok: "srv_ok s \<Longrightarrow> srv_ok (put_revents revs s)"
  using srv_okD(1) [of s] srv_ok_cong [of "put_revents revs s" s] by (simp add: put_revents_def)

lemma poll_add_keeps:
  assumes ok: "srv_ok s" and fd: "0 \<le> sint fd" "\<forall>i < AN_POLL_MAX. fd_at s i \<noteq> fd"
    and mem: "\<And>a. mem = Some a \<Longrightarrow> a \<noteq> NULL_p \<and> hs_store (sock_hash s) a = None"
  shows "srv_ok (snd (an_sock_poll_add mem fd s))"
proof (cases "\<exists>i. lowest_free s i")
  case True
  then obtain i where i: "lowest_free s i" by blast
  show ?thesis
  proof (cases mem)
    case None
    with poll_add_steps(1) [OF ok i] take_slot_ok(1) [OF ok i fd] show ?thesis by simp
  next
    case (Some a)
    with poll_add_ok [OF ok fd _ _ i, of a] mem [OF Some] show ?thesis by auto
  qed
next
  case False
  with free_or_full [of s] have "\<forall>i. 0 < i \<and> i < AN_POLL_MAX \<longrightarrow> fd_at s i \<noteq> -1" by blast
  from no_free [OF ok this] ok show ?thesis by simp
qed

lemma put_revents_sel:
  assumes "srv_ok s"
  shows "i < AN_POLL_MAX \<Longrightarrow> fd_at (put_revents revs s) i = fd_at s i"
    "i < AN_POLL_MAX \<Longrightarrow> pf_revents (conn_array (put_revents revs s) ! i)
       = (if int i < an_curfds s then revs i else pf_revents (conn_array s ! i))"
    "sock_hash (put_revents revs s) = sock_hash s" "an_curfds (put_revents revs s) = an_curfds s"
  using srv_okD(1) [OF assms] by (simp_all add: put_revents_def)

lemma poll_loop_quiet:
  assumes "srv_ok s"
  shows "\<forall>j \<in> set js. j < AN_POLL_MAX \<and> int j < an_curfds s \<and> pf_revents (conn_array s ! j) = 0 \<Longrightarrow>
     poll_loop alloc io (js @ ks) s = poll_loop alloc io ks s"
  by (induction js) (simp_all add: conn_at_ok [OF assms])

lemma slots_upto:
  assumes "0 < i" "i < AN_POLL_MAX"
  shows "poll_slots = [1..<i] @ i # [Suc i..<AN_POLL_MAX]"
  unfolding poll_slots_def
proof -
  have "[1..<AN_POLL_MAX] = [1..<i] @ [i..<AN_POLL_MAX]"
    using upt_add_eq_append [of 1 i "AN_POLL_MAX - i"] assms by simp
  also have "[i..<AN_POLL_MAX] = i # [Suc i..<AN_POLL_MAX]" using assms by (intro upt_conv_Cons)
  finally show "[1..<AN_POLL_MAX] = [1..<i] @ i # [Suc i..<AN_POLL_MAX]" .
qed

lemma poll_loop_none: "an_curfds s = 1 \<Longrightarrow> poll_loop alloc io poll_slots s = Inr (Poll_Ret 0, s)"
proof -
  assume c: "an_curfds s = 1"
  obtain js where js: "poll_slots = 1 # js" using slots_upto [of 1] by simp
  show ?thesis using c unfolding js by simp
qed

lemma poll_init_ok:
  assumes "0 \<le> sint fd" "sock_hash s = hs_empty"
  shows "srv_ok (an_poll_init fd s)"
proof -
  let ?s = "an_poll_init fd s"
  have fd: "fd_at ?s i = (if i = 0 then fd else -1)" if "i < AN_POLL_MAX" for i
    using that by (cases i) (simp_all add: an_poll_init_def)
  have "fd \<noteq> -1" using assms(1) by auto
  then show ?thesis
    using assms fd unfolding srv_ok_def
    by (auto simp: an_poll_init_def sock_inv_def simp del: replicate.simps)
qed

lemma send_found:
  assumes ok: "srv_ok s" and i: "i < AN_POLL_MAX" and n: "sock_of s i = Some n"
  obtains a where "an_socket_t_find_by_index (of_nat i) (sock_hash s) = Inr (Some a)" "sock_addr s i a n"
  using ok i
proof (cases rule: sock_find)
  case absent
  with n show thesis by simp
next
  case (present a m)
  with n that show thesis by simp
qed

lemma send_partial:
  assumes ok: "srv_ok s" and i: "i < AN_POLL_MAX" and n: "sock_of s i = Some n" and b: "so_send_buf n = Some b"
    and len: "so_send_len n \<noteq> 0" "sint (so_send_len n) = int (length b)"
    and k: "io_send io i = int k" "0 < k" "k < length b"
  shows "\<exists>s'. an_tcp_send io i s = Inr (SEND_AGAIN, s') \<and> sent_on s' i = sent_on s i @ take k b
    \<and> sock_of s' i = Some n \<and> srv_ok s'"
proof -
  obtain a where a: "an_socket_t_find_by_index (of_nat i) (sock_hash s) = Inr (Some a)" "sock_addr s i a n"
    by (rule send_found [OF ok i n])
  let ?s1 = "s\<lparr>sent_on := (sent_on s)(i := sent_on s i @ take k b)\<rparr>"
  have "srv_ok ?s1" using sent_on_slots [OF ok] by (simp add: same_slots_def)
  then obtain s2 where s2: "m_sock_del_write i ?s1 = Inr s2" "srv_ok s2" "sock_hash s2 = sock_hash ?s1" "sent_on s2 = sent_on ?s1"
    using set_events_ok [OF _ i, of ?s1] by (auto simp: m_sock_del_write_def)
  have "an_tcp_send io i s = Inr (SEND_AGAIN, s2)"
    using a len k b s2(1) unfolding an_tcp_send_def conn_at_ok [OF ok i] a(1) by (simp add: sock_addr_def)
  with s2 n show ?thesis by simp
qed

lemma send_finish:
  assumes ok: "srv_ok s" and i: "i < AN_POLL_MAX" and n: "sock_of s i = Some n" and b: "so_send_buf n = Some b"
    and len: "so_send_len n \<noteq> 0" "sint (so_send_len n) = int (length b)" "b \<noteq> []" and k: "io_send io i = int (length b)"
  shows "\<exists>s'. an_tcp_send io i s = Inr (SEND_FINISH, s') \<and> sent_on s' i = sent_on s i @ b
    \<and> sock_of s' i = Some (n\<lparr>so_send_buf := None, so_send_len := 0\<rparr>) \<and> srv_ok s'"
proof -
  obtain a where a: "an_socket_t_find_by_index (of_nat i) (sock_hash s) = Inr (Some a)" "sock_addr s i a n"
    by (rule send_found [OF ok i n])
  let ?s1 = "s\<lparr>sent_on := (sent_on s)(i := sent_on s i @ b)\<rparr>"
  let ?n = "n\<lparr>so_send_buf := None, so_send_len := 0\<rparr>"
  have "srv_ok ?s1" using sent_on_slots [OF ok] by (simp add: same_slots_def)
  then obtain s2 where s2: "m_sock_del_write i ?s1 = Inr s2" "srv_ok s2" "sock_hash s2 = sock_hash ?s1" "sent_on s2 = sent_on ?s1"
    using set_events_ok [OF _ i, of ?s1] by (auto simp: m_sock_del_write_def)
  have r: "an_tcp_send io i s = Inr (SEND_FINISH, so_put a ?n s2)"
    using a len k b s2(1) unfolding an_tcp_send_def conn_at_ok [OF ok i] a(1) by (simp add: sock_addr_def)
  have "sock_addr s2 i a n" using a(2) s2(3) by (simp add: sock_addr_def)
  from so_put_ok [OF s2(2) i this, of ?n] a(2) r s2(4) show ?thesis
    by (intro exI [of _ "so_put a ?n s2"]) (simp add: sock_addr_def so_put_def)
qed

lemma send_error:
  assumes ok: "srv_ok s" and i: "i < AN_POLL_MAX" and n: "sock_of s i = Some n" and len: "so_send_len n \<noteq> 0"
    and k: "io_send io i < 0" "io_errno io i \<noteq> EAGAIN" "io_errno io i \<noteq> EINTR"
  shows "an_tcp_send io i s = Inr (SEND_ERROR, s)"
proof -
  obtain a where a: "an_socket_t_find_by_index (of_nat i) (sock_hash s) = Inr (Some a)" "sock_addr s i a n"
    by (rule send_found [OF ok i n])
  then show ?thesis
    using len k unfolding an_tcp_send_def conn_at_ok [OF ok i] a(1)
    by (simp add: sock_addr_def an_ignore_errno_def)
qed

lemma send_retry:
  assumes ok: "srv_ok s" and i: "i < AN_POLL_MAX" and n: "sock_of s i = Some n" and len: "so_send_len n \<noteq> 0"
    and k: "io_send io i < 0" "io_errno io i = EAGAIN \<or> io_errno io i = EINTR"
  shows "\<exists>s'. an_tcp_send io i s = Inr (SEND_AGAIN, s') \<and> sent_on s' = sent_on s \<and> sock_of s' i = Some n \<and> srv_ok s'"
proof -
  obtain a where a: "an_socket_t_find_by_index (of_nat i) (sock_hash s) = Inr (Some a)" "sock_addr s i a n"
    by (rule send_found [OF ok i n])
  obtain s2 where s2: "m_sock_add_write i s = Inr s2" "srv_ok s2" "sock_hash s2 = sock_hash s" "sent_on s2 = sent_on s"
    using set_events_ok [OF ok i] by (auto simp: m_sock_add_write_def)
  have "an_tcp_send io i s = Inr (SEND_AGAIN, s2)"
    using a len k s2(1) unfolding an_tcp_send_def conn_at_ok [OF ok i] a(1)
    by (simp add: sock_addr_def an_ignore_errno_def)
  with s2 n show ?thesis by simp
qed

lemma poll_add_no_memory:
  assumes ok: "srv_ok s" and fd: "0 \<le> sint fd" "\<forall>i < AN_POLL_MAX. fd_at s i \<noteq> fd" and i: "lowest_free s i"
  shows "\<exists>s'. an_sock_poll_add None fd s = (-1, s') \<and> srv_ok s' \<and> fd_at s' i = fd \<and> sock_of s' i = None
    \<and> conn_array s' = (conn_array s)[i := (conn_array s ! i)\<lparr>pf_fd := fd, pf_revents := POLLIN\<rparr>] \<and> sock_hash s' = sock_hash s"
proof -
  have i': "i < AN_POLL_MAX" "fd_at s i = -1" using i by (simp_all add: lowest_free_def)
  then show ?thesis
    using poll_add_steps(1) [OF ok i] take_slot_ok(1) [OF ok i fd] free_slot_no_socket [OF ok i'] srv_okD(1) [OF ok]
    by (intro exI [of _ "take_slot i fd s"]) (simp add: take_slot_def)
qed

section \<open>Properties\<close>

text \<open>A server with a listening socket and nothing else.\<close>

definition idle_server :: "unit server" where
  "idle_server = an_poll_init 3 \<lparr>conn_array = [], an_curfds = 0, sock_hash = hs_empty, closed_fds = [],
     sent_on = (\<lambda>_. []), others = ()\<rparr>"

lemma idle_server_ok: "srv_ok idle_server"
  unfolding idle_server_def by (rule poll_init_ok) simp_all

lemma idle_server_sel:
  "i < AN_POLL_MAX \<Longrightarrow> fd_at idle_server i = (if i = 0 then 3 else -1)" "sock_hash idle_server = hs_empty"
  "an_curfds idle_server = 1"
  by (cases i) (simp_all add: idle_server_def an_poll_init_def)

text \<open>The same server with one connection that has two bytes to send.\<close>

lemma busy_server:
  obtains s :: "unit server" and n where "srv_ok s" "sock_of s 1 = Some n" "so_send_buf n = Some ''ab''"
    "so_send_len n = 2" "fd_at s 1 = 7" "1 < an_curfds s"
proof -
  have lf: "lowest_free idle_server 1" by (simp add: lowest_free_def idle_server_sel)
  have nf: "\<forall>i < AN_POLL_MAX. fd_at idle_server i \<noteq> 7" by (simp add: idle_server_sel(1))
  obtain s :: "unit server" where s: "srv_ok s" "int 1 < an_curfds s"
    "conn_array s = (conn_array idle_server)[1 := (conn_array idle_server ! 1)\<lparr>pf_fd := 7, pf_revents := POLLIN\<rparr>]"
    "sock_get (sock_hash s) = (sock_get (sock_hash idle_server))(of_nat 1 \<mapsto> new_socket 1)"
    using poll_add_ok [OF idle_server_ok _ nf _ _ lf, of 64] by (simp add: idle_server_sel(2)) blast
  have fd: "fd_at s 1 = 7" using s(3) srv_okD(1) [OF idle_server_ok] by simp
  obtain a where a: "sock_addr s 1 a (new_socket 1)"
    using send_found [OF s(1), of 1 "new_socket 1"] s(4) by auto
  let ?n = "(new_socket 1)\<lparr>so_send_buf := Some ''ab'', so_send_len := 2\<rparr>"
  have "so_index ?n = of_nat 1" by (simp add: new_socket_def)
  note P = so_put_ok [OF s(1) _ a this]
  show thesis
  proof (rule that)
    show "srv_ok (so_put a ?n s)" "sock_of (so_put a ?n s) 1 = Some ?n" using P by simp_all
    show "fd_at (so_put a ?n s) 1 = 7" "1 < an_curfds (so_put a ?n s)" using fd s(2) by (simp_all add: so_put_def)
  qed simp_all
qed

definition io_sending :: "int \<Rightarrow> io" where
  "io_sending k = \<lparr>io_recv = (\<lambda>_. None), io_realloc = (\<lambda>_. True), io_junk = (\<lambda>_ _. CHR 0x00),
     io_mem = (\<lambda>_ _. True), io_send = (\<lambda>_. k), io_errno = (\<lambda>_. 32)\<rparr>"

text \<open>
  C23: Opening and closing a connection. From a consistent state, accepting a descriptor that is
  not in the array takes the lowest free slot, marks it readable, gives it a fresh socket and
  leaves the other slots alone. It fails in two ways: when every slot is taken nothing changes (the
  caller then keeps the accepted descriptor open); when there is no memory for the socket the
  slot stays taken by the descriptor, without a socket. Destroying the connection of a slot closes
  its descriptor, frees the slot and removes exactly its socket. Both keep the state
  consistent.
\<close>

theorem connection_open_close:
  assumes "srv_ok s" "0 \<le> sint fd" "\<forall>i < AN_POLL_MAX. fd_at s i \<noteq> fd"
    and "a \<noteq> NULL_p" "hs_store (sock_hash s) a = None"
  shows "(\<forall>i. lowest_free s i \<longrightarrow> (\<exists>s'. an_sock_poll_add (Some a) fd s = (0, s') \<and> srv_ok s' \<and> int i < an_curfds s'
            \<and> conn_array s' = (conn_array s)[i := (conn_array s ! i)\<lparr>pf_fd := fd, pf_revents := POLLIN\<rparr>]
            \<and> sock_get (sock_hash s') = (sock_get (sock_hash s))(of_nat i \<mapsto> new_socket i)))
    \<and> (\<forall>i. lowest_free s i \<longrightarrow> (\<exists>s'. an_sock_poll_add None fd s = (-1, s') \<and> srv_ok s' \<and> fd_at s' i = fd \<and> sock_of s' i = None
            \<and> conn_array s' = (conn_array s)[i := (conn_array s ! i)\<lparr>pf_fd := fd, pf_revents := POLLIN\<rparr>] \<and> sock_hash s' = sock_hash s))
    \<and> ((\<forall>i. 0 < i \<and> i < AN_POLL_MAX \<longrightarrow> fd_at s i \<noteq> -1) \<longrightarrow> an_sock_poll_add mem fd s = (-1, s))
    \<and> (\<forall>i. 0 < i \<and> i < AN_POLL_MAX \<and> fd_at s i \<noteq> -1 \<longrightarrow> (\<exists>s'. an_sock_destory i s = Inr s' \<and> srv_ok s'
            \<and> fd_at s' i = -1 \<and> closed_fds s' = closed_fds s @ [fd_at s i]
            \<and> (\<forall>j < AN_POLL_MAX. j \<noteq> i \<longrightarrow> conn_array s' ! j = conn_array s ! j)
            \<and> sock_get (sock_hash s') = (sock_get (sock_hash s))(of_nat i := None)))"
  using poll_add_ok [OF assms] poll_add_no_memory [OF assms(1-3)] no_free [OF assms(1)] destory_ok [OF assms(1)] by blast

theorem connection_open_close_witness:
  "\<exists>s'. an_sock_poll_add (Some 64) 7 idle_server = (0, s') \<and> srv_ok s' \<and> fd_at s' 1 = 7 \<and> sock_of s' 1 = Some (new_socket 1)"
proof -
  have "lowest_free idle_server 1" by (simp add: lowest_free_def idle_server_sel)
  moreover have len: "length (conn_array idle_server) = 1024" using srv_okD(1) [OF idle_server_ok] .
  moreover have "\<forall>i < AN_POLL_MAX. fd_at idle_server i \<noteq> 7" by (simp add: idle_server_sel(1))
  ultimately obtain s' where "an_sock_poll_add (Some 64) 7 idle_server = (0, s')" "srv_ok s'"
    "conn_array s' = (conn_array idle_server)[1 := (conn_array idle_server ! 1)\<lparr>pf_fd := 7, pf_revents := POLLIN\<rparr>]"
    "sock_get (sock_hash s') = (sock_get (sock_hash idle_server))(of_nat 1 \<mapsto> new_socket 1)"
    using connection_open_close [of idle_server 7 64 None, OF idle_server_ok] by (auto simp: idle_server_sel(2))
  with len show ?thesis by auto
qed

context task_sink
begin

lemma an_poll_keeps:
  assumes "srv_ok s"
    and "0 \<le> sint newfd \<longrightarrow> (\<forall>i < AN_POLL_MAX. fd_at s i \<noteq> newfd)"
    and "\<forall>a. mem = Some a \<longrightarrow> a \<noteq> NULL_p \<and> hs_store (sock_hash s) a = None"
    and "an_poll alloc io nready revs newfd mem s = Inr (r, s')"
  shows "srv_ok s'"
proof (cases "nready < 1")
  case True
  with assms(1,4) show ?thesis by (simp add: an_poll_def)
next
  case False
  let ?s1 = "put_revents revs s"
  have s1: "srv_ok ?s1" by (rule put_revents_ok [OF assms(1)])
  have add: "srv_ok (snd (an_sock_poll_add mem newfd ?s1))" if "0 \<le> sint newfd"
    using assms(2,3) that by (intro poll_add_keeps [OF s1]) (simp_all add: put_revents_sel [OF assms(1)])
  have loop: "srv_ok s'" if "srv_ok s2" "poll_loop alloc io poll_slots s2 = Inr (r, s')" for s2
    by (rule poll_loop_keeps [OF that(1) _ that(2)]) (simp add: poll_slots_def)
  obtain rc s2 where p: "(if pf_revents (conn_array ?s1 ! 0) AND POLLIN \<noteq> 0 \<and> 0 \<le> sint newfd
      then an_sock_poll_add mem newfd ?s1 else (0, ?s1)) = (rc, s2)" by (metis prod.exhaust)
  have s2: "srv_ok s2" using p add s1 by (auto split: if_splits)
  have "(if rc \<noteq> 0 then Inr (Poll_Ret 0, s2) else poll_loop alloc io poll_slots s2) = Inr (r, s')"
    using assms(4) False unfolding an_poll_def Let_def conn_at_ok [OF s1, of 0, simplified]
    by (simp only: if_False res_bind_simps p prod.case)
  with s2 loop show ?thesis by (auto split: if_splits)
qed

end

text \<open>
  C24: Sending. A complete \<open>send\<close> transmits the whole buffer, releases it and reports the end; a
  failed one leaves the buffer for another try after \<open>EAGAIN\<close> or \<open>EINTR\<close> and is reported otherwise. A partial one is
  reported as not finished but does not advance the buffer: after \<open>k\<close> bytes and then a
  complete \<open>send\<close> the peer has received the first \<open>k\<close> bytes twice.
\<close>

theorem tcp_send_outcomes:
  assumes "srv_ok s" "0 < i" "i < AN_POLL_MAX" "sock_of s i = Some n" "so_send_buf n = Some b" "b \<noteq> []"
    "length b < 2 ^ 31" "so_send_len n = of_nat (length b)"
    and "io_send io i = int (length b)" "io_send io1 i = int k" "0 < k" "k < length b"
    and "io_send io2 i = -1" "io_errno io2 i \<noteq> EAGAIN" "io_errno io2 i \<noteq> EINTR"
  shows "(\<exists>s'. an_tcp_send io i s = Inr (SEND_FINISH, s') \<and> sent_on s' i = sent_on s i @ b
            \<and> sock_of s' i = Some (n\<lparr>so_send_buf := None, so_send_len := 0\<rparr>) \<and> srv_ok s')
    \<and> (\<exists>s1 s2. an_tcp_send io1 i s = Inr (SEND_AGAIN, s1) \<and> sock_of s1 i = Some n
            \<and> an_tcp_send io i s1 = Inr (SEND_FINISH, s2) \<and> sent_on s2 i = sent_on s i @ take k b @ b)
    \<and> an_tcp_send io2 i s = Inr (SEND_ERROR, s)
    \<and> (\<forall>io3. io_send io3 i < 0 \<and> (io_errno io3 i = EAGAIN \<or> io_errno io3 i = EINTR) \<longrightarrow>
          (\<exists>s'. an_tcp_send io3 i s = Inr (SEND_AGAIN, s') \<and> sent_on s' = sent_on s \<and> sock_of s' i = Some n \<and> srv_ok s'))"
proof (intro conjI)
  have len: "so_send_len n \<noteq> 0" "sint (so_send_len n) = int (length b)"
    using assms(6-8) by (auto simp: signed_of_nat signed_take_bit_int_eq_self_iff word_of_nat_eq_0_iff dest: nat_dvd_not_less)
  note steps = send_finish [OF _ assms(3) _ assms(5) len assms(6,9)] send_partial [OF _ assms(3) _ assms(5) len assms(10,11,12)]
  show "\<exists>s'. an_tcp_send io i s = Inr (SEND_FINISH, s') \<and> sent_on s' i = sent_on s i @ b
            \<and> sock_of s' i = Some (n\<lparr>so_send_buf := None, so_send_len := 0\<rparr>) \<and> srv_ok s'"
    using steps(1) [OF assms(1,4)] by blast
  show "\<exists>s1 s2. an_tcp_send io1 i s = Inr (SEND_AGAIN, s1) \<and> sock_of s1 i = Some n
            \<and> an_tcp_send io i s1 = Inr (SEND_FINISH, s2) \<and> sent_on s2 i = sent_on s i @ take k b @ b"
    using steps(2) [OF assms(1,4)] steps(1) by (metis append.assoc)
  show "an_tcp_send io2 i s = Inr (SEND_ERROR, s)"
    by (rule send_error [OF assms(1,3,4) len(1)]) (simp_all add: assms(13-15))
  show "\<forall>io3. io_send io3 i < 0 \<and> (io_errno io3 i = EAGAIN \<or> io_errno io3 i = EINTR) \<longrightarrow>
          (\<exists>s'. an_tcp_send io3 i s = Inr (SEND_AGAIN, s') \<and> sent_on s' = sent_on s \<and> sock_of s' i = Some n \<and> srv_ok s')"
    using send_retry [OF assms(1,3,4) len(1)] by blast
qed

theorem tcp_send_outcomes_witness:
  "\<exists>(s :: unit server) s1 s2. an_tcp_send (io_sending 1) 1 s = Inr (SEND_AGAIN, s1)
     \<and> an_tcp_send (io_sending 2) 1 s1 = Inr (SEND_FINISH, s2) \<and> sent_on s2 1 = sent_on s 1 @ ''aab''"
proof (rule busy_server)
  fix s :: "unit server" and n
  assume s: "srv_ok s" "sock_of s 1 = Some n" "so_send_buf n = Some ''ab''" "so_send_len n = 2"
  show ?thesis
    using tcp_send_outcomes [OF s(1) _ _ s(2,3), of "io_sending 2" "io_sending 1" 1 "io_sending (-1)"] s(4)
    by (auto simp: io_sending_def)
qed

text \<open>
  One failing connection ends the server: when \<open>poll\<close> reports \<open>POLLERR\<close> on a slot in use
  (and nothing on the slots before it), \<open>an_poll\<close> closes that connection and then calls
  \<open>an_exit\<close>, because \<open>an_tcp_events_do\<close> returns an error for it.
\<close>

lemma poll_error_exits:
  assumes "srv_ok s" "1 \<le> nready" "revs 0 = 0" "0 < i" "int i < an_curfds s" "fd_at s i \<noteq> -1"
    and "revs i AND POLLERR \<noteq> 0" "\<forall>j. 0 < j \<and> j < i \<longrightarrow> revs j = 0"
  shows "\<exists>s'. an_poll alloc io nready revs newfd mem s = Inr (Poll_Exit, s') \<and> closed_fds s' = closed_fds s @ [fd_at s i]"
proof -
  let ?s = "put_revents revs s"
  have i: "i < AN_POLL_MAX" using srv_okD(3) [OF assms(1)] assms(5) by simp
  have ok: "srv_ok ?s" by (rule put_revents_ok [OF assms(1)])
  note S = put_revents_sel [OF assms(1), where revs = revs]
  obtain s' where s': "an_sock_destory i ?s = Inr s'" "closed_fds s' = closed_fds ?s @ [fd_at ?s i]"
    using destory_ok [OF ok assms(4) i] assms(6) S(1) [OF i] by auto
  have rev: "pf_revents (conn_array ?s ! i) = revs i" using S(2) [OF i] assms(5) by simp
  have ev: "an_tcp_events_do alloc io i ?s = Inr (-1, s')"
    using s'(1) rev assms(7) by (simp add: an_tcp_events_do_def conn_at_ok [OF ok i])
  have nz: "revs i AND (POLLIN OR POLLOUT OR POLLERR) \<noteq> 0"
    using assms(7) by (metis and_zero_eq bit.conj_disj_distrib or_eq_0_iff)
  have "poll_loop alloc io ([1..<i] @ i # [Suc i..<AN_POLL_MAX]) ?s = poll_loop alloc io (i # [Suc i..<AN_POLL_MAX]) ?s"
    using assms(5,8) i by (intro poll_loop_quiet [OF ok]) (auto simp: S)
  also have "\<dots> = Inr (Poll_Exit, s')"
    unfolding poll_loop.simps conn_at_ok [OF ok i] using assms(5,6) S(1) [OF i] S(4) rev nz ev by simp
  finally have "poll_loop alloc io poll_slots ?s = Inr (Poll_Exit, s')"
    unfolding slots_upto [OF assms(4) i] .
  moreover have "pf_revents (conn_array ?s ! 0) = 0" using S(2) [of 0] assms(3) srv_okD(2) [OF assms(1)] by simp
  moreover have "closed_fds ?s = closed_fds s" by (simp add: put_revents_def)
  ultimately show ?thesis
    using assms(2) s'(2) S(1) [OF i] conn_at_ok [OF ok, of 0]
    unfolding an_poll_def Let_def by (simp only: res_bind_simps) simp
qed

lemma poll_error_exits_witness:
  "\<exists>(s :: unit server) s'. an_poll (\<lambda>js l k s. s) (io_sending 0) 1 (\<lambda>i. if i = 1 then POLLERR else 0) (-1) None s
     = Inr (Poll_Exit, s') \<and> closed_fds s' = closed_fds s @ [7]"
proof (rule busy_server)
  fix s :: "unit server" and n
  assume s: "srv_ok s" "fd_at s 1 = 7" "1 < an_curfds s"
  have "\<exists>s'. an_poll (\<lambda>js l k s. s) (io_sending 0) 1 (\<lambda>i. if i = 1 then POLLERR else 0) (-1) None s
      = Inr (Poll_Exit, s') \<and> closed_fds s' = closed_fds s @ [fd_at s 1]"
    by (rule poll_error_exits [OF s(1)]) (use s(2,3) in simp_all)
  with s(2) show ?thesis by auto
qed

end
