(* ===== verification/CJson.thy ===== *)
theory CJson
  imports Public_Util "HOL-Library.Sublist"
begin

text \<open>
  The JSON reader and writer of \<^verbatim>\<open>TCP_C/cJSON.c\<close>, which the server uses for every request.

  A node of the C tree is a value of \<open>json\<close>: the chain of children of an array or object is a
  list, the name of a member is beside its value. A number is kept as the decimal mantissa and
  exponent the text has; the rounding of the C \<open>double\<close> made from them is not modelled. The
  text is a C string, a position in it is what is left of it, and the end of the list is the
  terminator.

  \<open>parse_string\<close> first measures the text and then writes into a block of that size: a write
  behind the block, and a read behind the terminator, are the outcome \<open>P_Oob\<close>. What
  \<open>sscanf("%4x")\<close> leaves in its variable when the text has no four hexadecimal digits (which
  may be nothing: the variable is not initialised) is the argument \<open>ud\<close>. Memory for nodes is
  taken to be there.

  The recursion of the parser is bounded by fuel; \<open>cJSON_Parse\<close> takes as much as the length of
  the text gives, and \<open>parse_total\<close> shows that this is always enough.
\<close>

section \<open>Values\<close>

datatype json =
    JNull
  | JFalse
  | JTrue
  | JNumber int int
  | JString string
  | JArray "json list"
  | JObject "(string \<times> json) list"

datatype 'a pr = P_Ok 'a string | P_Fail | P_Oob | P_Fuel

definition pr_bind :: "'a pr \<Rightarrow> ('a \<Rightarrow> string \<Rightarrow> 'b pr) \<Rightarrow> 'b pr" where
  "pr_bind p f = (case p of P_Ok x r \<Rightarrow> f x r | P_Fail \<Rightarrow> P_Fail | P_Oob \<Rightarrow> P_Oob | P_Fuel \<Rightarrow> P_Fuel)"

lemma pr_bind_simps [simp]:
  "pr_bind (P_Ok x r) f = f x r" "pr_bind P_Fail f = P_Fail" "pr_bind P_Oob f = P_Oob" "pr_bind P_Fuel f = P_Fuel"
  by (simp_all add: pr_bind_def)

abbreviation (input) QUOTE :: char where "QUOTE \<equiv> CHR 0x22"
abbreviation (input) BSLASH :: char where "BSLASH \<equiv> CHR 0x5C"

section \<open>Strings\<close>

text \<open>The first loop of \<open>parse_string\<close>: the number of characters, escapes counted once.\<close>

fun str_len :: "string \<Rightarrow> nat option" where
  "str_len [] = Some 0"
| "str_len (c # cs) =
     (if c = QUOTE then Some 0
      else if c = BSLASH then (case cs of [] \<Rightarrow> None | _ # ds \<Rightarrow> map_option Suc (str_len ds))
      else map_option Suc (str_len cs))"

definition hex_val :: "char \<Rightarrow> nat option" where
  "hex_val c =
     (let v = uchar c in
      if 48 \<le> v \<and> v \<le> 57 then Some (v - 48)
      else if 97 \<le> v \<and> v \<le> 102 then Some (v - 87)
      else if 65 \<le> v \<and> v \<le> 70 then Some (v - 55)
      else None)"

definition scan4x :: "(string \<Rightarrow> nat) \<Rightarrow> string \<Rightarrow> nat" where
  "scan4x ud s =
     (case s of
        a # b # c # d # _ \<Rightarrow>
          (case (hex_val a, hex_val b, hex_val c, hex_val d) of
             (Some w, Some x, Some y, Some z) \<Rightarrow> ((w * 16 + x) * 16 + y) * 16 + z
           | _ \<Rightarrow> ud s)
      | _ \<Rightarrow> ud s)"

text \<open>
  The UTF-8 bytes of a code point: the switch that falls through its cases, from the last byte
  to the first.
\<close>

definition utf8_len :: "nat \<Rightarrow> nat" where
  "utf8_len uc = (if uc < 0x80 then 1 else if uc < 0x800 then 2 else if uc < 0x10000 then 3 else 4)"

definition firstByteMark :: "nat list" where
  "firstByteMark = [0x00, 0x00, 0xC0, 0xE0, 0xF0, 0xF8, 0xFC]"

definition cont_byte :: "nat \<Rightarrow> char" where
  "cont_byte uc = char_of ((uc OR 0x80) AND 0xBF)"

fun utf8_tail :: "nat \<Rightarrow> nat \<times> string \<Rightarrow> nat \<times> string" where
  "utf8_tail 0 st = st"
| "utf8_tail (Suc k) (uc, bs) = utf8_tail k (uc div 64, cont_byte uc # bs)"

definition utf8 :: "nat \<Rightarrow> string" where
  "utf8 uc =
     (let len = utf8_len uc; (top, bs) = utf8_tail (len - 1) (uc, [])
      in char_of ((top OR firstByteMark ! len) mod 256) # bs)"

text \<open>
  The case \<open>'u'\<close> of the second loop: the bytes it writes and how many characters it moves on;
  None when that is behind the terminator.
\<close>

definition unicode_step :: "(string \<Rightarrow> nat) \<Rightarrow> string \<Rightarrow> (string \<times> nat) option" where
  "unicode_step ud r =
     (if length r < 4 then None
      else
        let uc = scan4x ud r in
        if (0xDC00 \<le> uc \<and> uc \<le> 0xDFFF) \<or> uc = 0 then Some ([], 4)
        else if 0xD800 \<le> uc \<and> uc \<le> 0xDBFF then
          (if take 2 (drop 4 r) \<noteq> [BSLASH, CHR ''u''] then Some ([], 4)
           else if length r < 10 then None
           else
             let uc2 = scan4x ud (drop 6 r) in
             if uc2 < 0xDC00 \<or> 0xDFFF < uc2 then Some ([], 10)
             else Some (utf8 (0x10000 OR ((uc AND 0x3FF) * 1024) OR (uc2 AND 0x3FF)), 10))
        else Some (utf8 uc, 4))"

text \<open>
  The second loop: \<open>out\<close> is what has been written to the block of \<open>cap\<close> bytes, the last of
  which is for the terminator.
\<close>

definition simple_escape :: "char \<Rightarrow> char" where
  "simple_escape c =
     (if c = CHR ''b'' then CHR 0x08 else if c = CHR ''f'' then CHR 0x0C else if c = CHR ''n'' then CHR 0x0A
      else if c = CHR ''r'' then CHR 0x0D else if c = CHR ''t'' then CHR 0x09 else c)"

function copy_string :: "(string \<Rightarrow> nat) \<Rightarrow> nat \<Rightarrow> string \<Rightarrow> string \<Rightarrow> string pr" where
  "copy_string ud cap out [] = (if length out < cap then P_Ok out [] else P_Oob)"
| "copy_string ud cap out (c # cs) =
     (if c = QUOTE then (if length out < cap then P_Ok out cs else P_Oob)
      else if c \<noteq> BSLASH then
        (if length out < cap then copy_string ud cap (out @ [c]) cs else P_Oob)
      else
        (case cs of
           [] \<Rightarrow> P_Oob
         | e # r \<Rightarrow>
             if e \<noteq> CHR ''u'' then
               (if length out < cap then copy_string ud cap (out @ [simple_escape e]) r else P_Oob)
             else
               (case unicode_step ud r of
                  None \<Rightarrow> P_Oob
                | Some (bs, k) \<Rightarrow>
                    if length out + length bs \<le> cap then copy_string ud cap (out @ bs) (drop k r) else P_Oob)))"
  by pat_completeness auto
termination by (relation "measure (\<lambda>(ud, cap, out, s). length s)") auto


definition parse_string :: "(string \<Rightarrow> nat) \<Rightarrow> string \<Rightarrow> string pr" where
  "parse_string ud s =
     (case s of
        [] \<Rightarrow> P_Fail
      | c # cs \<Rightarrow>
          if c \<noteq> QUOTE then P_Fail
          else (case str_len cs of None \<Rightarrow> P_Oob | Some n \<Rightarrow> copy_string ud (Suc n) [] cs))"

section \<open>Numbers\<close>

text \<open>
  The mantissa without its point and the power of ten it is scaled by: \<open>subscale\<close> is a C
  \<open>int\<close> that wraps around, the number of decimals is taken off.
\<close>

definition digits :: "string \<Rightarrow> string \<times> string" where
  "digits s = (takeWhile is_digit_c s, dropWhile is_digit_c s)"

definition take_char :: "char \<Rightarrow> string \<Rightarrow> bool \<times> string" where
  "take_char c s = (case s of [] \<Rightarrow> (False, []) | d # ds \<Rightarrow> if d = c then (True, ds) else (False, s))"

definition subscale_of :: "string \<Rightarrow> s32" where
  "subscale_of ds = foldl (\<lambda>a c. a * 10 + of_nat (uchar c - 48)) 0 ds"

definition parse_exponent :: "string \<Rightarrow> int \<times> string" where
  "parse_exponent s =
     (case s of
        [] \<Rightarrow> (0, [])
      | c # cs \<Rightarrow>
          if c \<noteq> CHR ''e'' \<and> c \<noteq> CHR ''E'' then (0, s)
          else
            let (plus, t) = take_char CHR ''+'' cs;
                (minus, u) = (if plus then (False, t) else take_char CHR ''-'' t);
                (ds, r) = digits u
            in (sint (subscale_of ds * (if minus then -1 else 1)), r))"

definition parse_fraction :: "nat \<Rightarrow> string \<Rightarrow> nat \<times> nat \<times> string" where
  "parse_fraction n s =
     (if cat s 0 = CHR ''.'' \<and> is_digit_c (cat s 1)
      then (let (ds, r) = digits (tl s) in (digits_val n ds, length ds, r))
      else (n, 0, s))"

definition parse_number :: "string \<Rightarrow> json pr" where
  "parse_number s =
     (let (neg, s1) = take_char CHR ''-'' s;
          (_, s2) = take_char CHR ''0'' s1;
          (n1, s3) = (if is_digit_c (cat s2 0) \<and> cat s2 0 \<noteq> CHR ''0''
                      then (let (ds, r) = digits s2 in (digits_val 0 ds, r)) else (0, s2));
          (n2, decimals, s4) = parse_fraction n1 s3;
          (ex, s5) = parse_exponent s4
      in P_Ok (JNumber (if neg then - int n2 else int n2) (ex - int decimals)) s5)"

section \<open>Values, arrays and objects\<close>

definition skip :: "string \<Rightarrow> string" where
  "skip s = dropWhile (\<lambda>c. uchar c \<le> 32) s"

fun parse_value :: "(string \<Rightarrow> nat) \<Rightarrow> nat \<Rightarrow> string \<Rightarrow> json pr"
and parse_array :: "(string \<Rightarrow> nat) \<Rightarrow> nat \<Rightarrow> string \<Rightarrow> json pr"
and parse_elems :: "(string \<Rightarrow> nat) \<Rightarrow> nat \<Rightarrow> string \<Rightarrow> json list pr"
and parse_object :: "(string \<Rightarrow> nat) \<Rightarrow> nat \<Rightarrow> string \<Rightarrow> json pr"
and parse_members :: "(string \<Rightarrow> nat) \<Rightarrow> nat \<Rightarrow> string \<Rightarrow> (string \<times> json) list pr" where
  "parse_value ud 0 s = P_Fuel"
| "parse_value ud (Suc n) s =
     (if is_prefix ''null'' s then P_Ok JNull (drop 4 s)
      else if is_prefix ''false'' s then P_Ok JFalse (drop 5 s)
      else if is_prefix ''true'' s then P_Ok JTrue (drop 4 s)
      else if cat s 0 = QUOTE then pr_bind (parse_string ud s) (\<lambda>t r. P_Ok (JString t) r)
      else if cat s 0 = CHR ''-'' \<or> is_digit_c (cat s 0) then parse_number s
      else if cat s 0 = CHR ''['' then parse_array ud n s
      else if cat s 0 = CHR ''{'' then parse_object ud n s
      else P_Fail)"
| "parse_array ud 0 s = P_Fuel"
| "parse_array ud (Suc n) s =
     (let t = skip (tl s) in
      if cat t 0 = CHR '']'' then P_Ok (JArray []) (tl t)
      else pr_bind (parse_elems ud n t) (\<lambda>vs r. P_Ok (JArray vs) r))"
| "parse_elems ud 0 s = P_Fuel"
| "parse_elems ud (Suc n) s =
     pr_bind (parse_value ud n (skip s)) (\<lambda>v r.
       let t = skip r in
       if cat t 0 = CHR '','' then pr_bind (parse_elems ud n (tl t)) (\<lambda>vs r'. P_Ok (v # vs) r')
       else if cat t 0 = CHR '']'' then P_Ok [v] (tl t)
       else P_Fail)"
| "parse_object ud 0 s = P_Fuel"
| "parse_object ud (Suc n) s =
     (let t = skip (tl s) in
      if cat t 0 = CHR ''}'' then P_Ok (JObject []) (tl t)
      else pr_bind (parse_members ud n t) (\<lambda>ms r. P_Ok (JObject ms) r))"
| "parse_members ud 0 s = P_Fuel"
| "parse_members ud (Suc n) s =
     pr_bind (parse_string ud (skip s)) (\<lambda>k r.
       let t = skip r in
       if cat t 0 \<noteq> CHR '':'' then P_Fail
       else pr_bind (parse_value ud n (skip (tl t))) (\<lambda>v r'.
         let u = skip r' in
         if cat u 0 = CHR '','' then pr_bind (parse_members ud n (tl u)) (\<lambda>ms r''. P_Ok ((k, v) # ms) r'')
         else if cat u 0 = CHR ''}'' then P_Ok [(k, v)] (tl u)
         else P_Fail))"

definition parse_fuel :: "string \<Rightarrow> nat" where
  "parse_fuel s = 3 * length s + 3"

definition cJSON_Parse :: "(string \<Rightarrow> nat) \<Rightarrow> string \<Rightarrow> json pr" where
  "cJSON_Parse ud s = parse_value ud (parse_fuel s) (skip s)"

section \<open>Printing\<close>

text \<open>
  The text of a number that is not a whole number of the range of \<open>int\<close> comes from the
  floating-point formats of \<open>sprintf\<close> and is the argument \<open>fd\<close>.
\<close>

definition print_number :: "(int \<Rightarrow> int \<Rightarrow> string) \<Rightarrow> int \<Rightarrow> int \<Rightarrow> string" where
  "print_number fd m e =
     (if e = 0 \<and> - (2 ^ 31) \<le> m \<and> m < 2 ^ 31
      then (if m < 0 then CHR ''-'' # dec_string (nat (- m)) else dec_string (nat m))
      else fd m e)"

definition hex_lower :: "nat \<Rightarrow> char" where
  "hex_lower n = (if n < 10 then char_of (48 + n) else char_of (87 + n))"

definition print_char :: "char \<Rightarrow> string" where
  "print_char c =
     (if 31 < uchar c \<and> c \<noteq> QUOTE \<and> c \<noteq> BSLASH then [c]
      else BSLASH #
        (if c = BSLASH then [BSLASH] else if c = QUOTE then [QUOTE]
         else if c = CHR 0x08 then ''b'' else if c = CHR 0x0C then ''f'' else if c = CHR 0x0A then ''n''
         else if c = CHR 0x0D then ''r'' else if c = CHR 0x09 then ''t''
         else [CHR ''u'', CHR ''0'', CHR ''0'', hex_lower (uchar c div 16), hex_lower (uchar c mod 16)]))"

definition print_string_ptr :: "string \<Rightarrow> string" where
  "print_string_ptr s = QUOTE # concat (map print_char s) @ [QUOTE]"

definition string_block :: "string \<Rightarrow> nat" where
  "string_block s =
     sum_list (map (\<lambda>c. if c \<in> {QUOTE, BSLASH, CHR 0x08, CHR 0x0C, CHR 0x0A, CHR 0x0D, CHR 0x09} then 2
                        else if uchar c < 32 then 6 else 1) s) + 3"

definition spaced :: "bool \<Rightarrow> string \<Rightarrow> string" where
  "spaced fmt w = (if fmt then w else [])"

fun print_value :: "(int \<Rightarrow> int \<Rightarrow> string) \<Rightarrow> bool \<Rightarrow> nat \<Rightarrow> json \<Rightarrow> string"
and print_elems :: "(int \<Rightarrow> int \<Rightarrow> string) \<Rightarrow> bool \<Rightarrow> nat \<Rightarrow> json list \<Rightarrow> string"
and print_members :: "(int \<Rightarrow> int \<Rightarrow> string) \<Rightarrow> bool \<Rightarrow> nat \<Rightarrow> (string \<times> json) list \<Rightarrow> string" where
  "print_value fd fmt d JNull = ''null''"
| "print_value fd fmt d JFalse = ''false''"
| "print_value fd fmt d JTrue = ''true''"
| "print_value fd fmt d (JNumber m e) = print_number fd m e"
| "print_value fd fmt d (JString s) = print_string_ptr s"
| "print_value fd fmt d (JArray vs) = CHR ''['' # print_elems fd fmt d vs @ '']''"
| "print_value fd fmt d (JObject ms) =
     CHR ''{'' # spaced fmt [CHR 0x0A] @ print_members fd fmt (Suc d) ms
       @ spaced fmt (replicate d (CHR 0x09)) @ ''}''"
| "print_elems fd fmt d [] = []"
| "print_elems fd fmt d (v # vs) =
     print_value fd fmt (Suc d) v
       @ (if vs = [] then [] else CHR '','' # spaced fmt '' '') @ print_elems fd fmt d vs"
| "print_members fd fmt d [] = []"
| "print_members fd fmt d (kv # ms) =
     spaced fmt (replicate d (CHR 0x09)) @ print_string_ptr (fst kv)
       @ CHR '':'' # spaced fmt [CHR 0x09] @ print_value fd fmt d (snd kv)
       @ (if ms = [] then [] else '','') @ spaced fmt [CHR 0x0A] @ print_members fd fmt d ms"

definition cJSON_Print :: "(int \<Rightarrow> int \<Rightarrow> string) \<Rightarrow> json \<Rightarrow> string" where
  "cJSON_Print fd v = print_value fd True 0 v"

definition cJSON_PrintUnformatted :: "(int \<Rightarrow> int \<Rightarrow> string) \<Rightarrow> json \<Rightarrow> string" where
  "cJSON_PrintUnformatted fd v = print_value fd False 0 v"

text \<open>The sizes \<open>print_array\<close> and \<open>print_object\<close> compute for the blocks they write to.\<close>

definition array_block :: "bool \<Rightarrow> string list \<Rightarrow> nat" where
  "array_block fmt ts = 5 + sum_list (map (\<lambda>t. length t + 2 + (if fmt then 1 else 0)) ts)"

definition object_block :: "bool \<Rightarrow> nat \<Rightarrow> (string \<times> string) list \<Rightarrow> nat" where
  "object_block fmt d ts =
     7 + (if fmt then d else 0)
       + sum_list (map (\<lambda>t. length (snd t) + length (fst t) + 2 + (if fmt then 2 + d else 0)) ts)"

section \<open>The parser only moves forward\<close>

lemma str_in_plain [simp]: "skip [] = []"
  by (simp add: skip_def)

lemma suffix_skip [simp]: "suffix (skip s) s"
  by (simp add: skip_def suffix_dropWhile)

lemma cat_0: "cat s 0 = c \<Longrightarrow> c \<noteq> CHR 0x00 \<Longrightarrow> s = c # tl s"
  by (cases s) (auto simp: cat_def)

lemma suffix_digits: "digits s = (ds, r) \<Longrightarrow> suffix r s"
  by (auto simp: digits_def suffix_dropWhile)

lemma suffix_take_char: "take_char c s = (b, r) \<Longrightarrow> suffix r s"
  by (auto simp: take_char_def suffix_Cons split: list.splits if_splits)

lemma suffix_parse_exponent:
  assumes "parse_exponent s = (x, r)" shows "suffix r s"
proof (cases s)
  case Nil
  with assms show ?thesis by (simp add: parse_exponent_def)
next
  case (Cons c cs)
  show ?thesis
  proof (cases "c = CHR ''e'' \<or> c = CHR ''E''")
    case True
    obtain p t where t: "take_char CHR ''+'' cs = (p, t)" by fastforce
    obtain m u where u: "(if p then (False, t) else take_char CHR ''-'' t) = (m, u)" by fastforce
    obtain ds q where q: "digits u = (ds, q)" by fastforce
    have "suffix u t" using u suffix_take_char by (auto split: if_splits)
    then have "suffix q cs"
      using suffix_take_char [OF t] suffix_digits [OF q] suffix_order.trans by blast
    moreover have "r = q" using assms Cons True t u q by (auto simp: parse_exponent_def)
    ultimately show ?thesis using Cons by (simp add: suffix_ConsI)
  next
    case False
    with assms Cons show ?thesis by (simp add: parse_exponent_def)
  qed
qed

lemma suffix_parse_fraction: "parse_fraction n s = (m, k, r) \<Longrightarrow> suffix r s"
  unfolding parse_fraction_def
  by (auto split: if_splits prod.splits dest!: suffix_digits intro: suffix_order.trans suffix_tl)

lemma parse_number_rest:
  assumes "parse_number s = P_Ok v r" "cat s 0 = CHR ''-'' \<or> is_digit_c (cat s 0)"
  shows "strict_suffix r s"
proof -
  obtain neg s1 where 1: "take_char CHR ''-'' s = (neg, s1)" by fastforce
  obtain z s2 where 2: "take_char CHR ''0'' s1 = (z, s2)" by fastforce
  define st where "st = (if is_digit_c (cat s2 0) \<and> cat s2 0 \<noteq> CHR ''0''
                         then (let (ds, r) = digits s2 in (digits_val 0 ds, r)) else (0, s2))"
  obtain n1 s3 where 3: "st = (n1, s3)" by fastforce
  obtain n2 k s4 where 4: "parse_fraction n1 s3 = (n2, k, s4)" by (metis prod_cases3)
  obtain x s5 where 5: "parse_exponent s4 = (x, s5)" by fastforce
  have r: "r = s5" using assms(1) 1 2 3 4 5 by (simp add: parse_number_def st_def)
  have "suffix s5 s3"
    using suffix_parse_fraction [OF 4] suffix_parse_exponent [OF 5] suffix_order.trans by blast
  moreover have "suffix s3 s2"
    using 3 suffix_digits [of s2] by (auto simp: st_def split: if_splits prod.splits)
  moreover have "suffix s2 s1" "suffix s1 s" using 1 2 suffix_take_char by blast+
  moreover have "strict_suffix s3 s"
  proof -
    consider "neg" | "z" | "\<not> neg" "\<not> z" by blast
    then show ?thesis
    proof cases
      case 1
      then have "strict_suffix s1 s" using \<open>take_char CHR ''-'' s = (neg, s1)\<close>
        by (auto simp: take_char_def strict_suffix_def suffix_Cons split: list.splits if_splits)
      with calculation show ?thesis by (meson suffix_order.le_less_trans suffix_order.trans)
    next
      case z: 2
      then have "strict_suffix s2 s1" using 2
        by (auto simp: take_char_def strict_suffix_def suffix_Cons split: list.splits if_splits)
      with calculation show ?thesis by (meson suffix_order.le_less_trans suffix_order.less_le_trans)
    next
      case n: 3
      from n 1 have "s1 = s" "cat s 0 \<noteq> CHR ''-''"
        by (auto simp: take_char_def cat_def split: list.splits if_splits)
      with n 2 have s2: "s2 = s" "cat s2 0 \<noteq> CHR ''0''"
        by (auto simp: take_char_def cat_def split: list.splits if_splits)
      with assms(2) \<open>cat s 0 \<noteq> CHR ''-''\<close> have d: "is_digit_c (cat s 0)" by simp
      then obtain c cs where c: "s = c # cs" "is_digit_c c"
        by (cases s) (auto simp: cat_def is_digit_c_def uchar_def)
      with 3 s2 d have "s3 = dropWhile is_digit_c cs" by (auto simp: st_def digits_def)
      with c show ?thesis
        using suffix_dropWhile [of is_digit_c cs] by (auto simp: strict_suffix_def suffix_Cons dest: suffix_length_le)
    qed
  qed
  ultimately show ?thesis using r by (meson suffix_order.le_less_trans)
qed

declare copy_string.simps(2) [simp del]

lemma copy_string_quote:
  "copy_string ud cap out (QUOTE # cs) = (if length out < cap then P_Ok out cs else P_Oob)"
  by (simp add: copy_string.simps)

lemma copy_string_plain:
  "c \<noteq> QUOTE \<Longrightarrow> c \<noteq> BSLASH \<Longrightarrow>
   copy_string ud cap out (c # cs) = (if length out < cap then copy_string ud cap (out @ [c]) cs else P_Oob)"
  by (simp add: copy_string.simps)

lemma copy_string_escape:
  "e \<noteq> CHR ''u'' \<Longrightarrow>
   copy_string ud cap out (BSLASH # e # r) =
     (if length out < cap then copy_string ud cap (out @ [simple_escape e]) r else P_Oob)"
  by (simp add: copy_string.simps)

lemma copy_string_unicode:
  "copy_string ud cap out (BSLASH # CHR ''u'' # r) =
     (case unicode_step ud r of
        None \<Rightarrow> P_Oob
      | Some (bs, k) \<Rightarrow> if length out + length bs \<le> cap then copy_string ud cap (out @ bs) (drop k r) else P_Oob)"
  by (simp add: copy_string.simps)

lemma copy_string_rest: "copy_string ud cap out s = P_Ok t r \<Longrightarrow> length out \<le> cap \<Longrightarrow> suffix r s"
proof (induction s arbitrary: out rule: length_induct)
  case (1 s)
  show ?case
  proof (cases s)
    case Nil
    with 1 show ?thesis by (simp split: if_splits)
  next
    case s: (Cons c cs)
    consider "c = QUOTE" | "c \<noteq> QUOTE" "c \<noteq> BSLASH" | "c = BSLASH" by blast
    then show ?thesis
    proof cases
      case 1
      with \<open>copy_string ud cap out s = P_Ok t r\<close> s show ?thesis
        by (simp add: copy_string_quote suffix_ConsI split: if_splits)
    next
      case 2
      with 1 s have "suffix r cs" by (auto simp: copy_string_plain split: if_splits)
      with s show ?thesis by (simp add: suffix_ConsI)
    next
      case bs: 3
      show ?thesis
      proof (cases cs)
        case Nil
        with 1 bs s show ?thesis by (simp add: copy_string.simps)
      next
        case (Cons e q)
        have "suffix r q"
        proof (cases "e = CHR ''u''")
          case False
          with 1 s bs Cons show ?thesis by (auto simp: copy_string_escape split: if_splits)
        next
          case True
          with 1 s bs Cons have "copy_string ud cap out (BSLASH # CHR ''u'' # q) = P_Ok t r" "length out \<le> cap" by simp_all
          then obtain b k where "copy_string ud cap (out @ b) (drop k q) = P_Ok t r" "length (out @ b) \<le> cap"
            by (auto simp: copy_string_unicode split: option.splits if_splits)
          moreover have "length (drop k q) < length s" using s Cons by simp
          ultimately have "suffix r (drop k q)" using 1(1) by blast
          then show ?thesis using suffix_drop suffix_order.trans by blast
        qed
        with s Cons show ?thesis by (simp add: suffix_ConsI)
      qed
    qed
  qed
qed

lemma parse_string_rest: "parse_string ud s = P_Ok t r \<Longrightarrow> strict_suffix r s"
  using copy_string_rest [of ud _ "[]"]
  by (fastforce simp: parse_string_def strict_suffix_def suffix_Cons split: list.splits if_splits option.splits
      dest: suffix_length_le)

lemma strict_suffix_tl: "cat s 0 = c \<Longrightarrow> c \<noteq> CHR 0x00 \<Longrightarrow> suffix s t \<Longrightarrow> strict_suffix (tl s) t"
  by (cases s) (auto simp: cat_def strict_suffix_def suffix_Cons dest: suffix_length_le intro: suffix_order.trans suffix_ConsI)

lemma pr_bind_Ok: "pr_bind p f = P_Ok y r \<longleftrightarrow> (\<exists>x q. p = P_Ok x q \<and> f x q = P_Ok y r)"
  by (cases p) auto

lemma parse_rest:
  "(\<forall>s v r. parse_value ud n s = P_Ok v r \<longrightarrow> strict_suffix r s) \<and>
   (\<forall>s v r. parse_array ud n s = P_Ok v r \<longrightarrow> strict_suffix r s) \<and>
   (\<forall>s v r. parse_elems ud n s = P_Ok v r \<longrightarrow> strict_suffix r s) \<and>
   (\<forall>s v r. parse_object ud n s = P_Ok v r \<longrightarrow> strict_suffix r s) \<and>
   (\<forall>s v r. parse_members ud n s = P_Ok v r \<longrightarrow> strict_suffix r s)" (is "?V n \<and> ?A n \<and> ?E n \<and> ?O n \<and> ?M n")
proof (induction n)
  case 0
  show ?case by simp
next
  case (Suc n)
  then have IH: "?V n" "?A n" "?E n" "?O n" "?M n" by blast+
  note lt = suffix_order.less_le_trans and le = suffix_order.le_less_trans
  have ws: "suffix (skip q) t" if "suffix q t" for q t using that suffix_skip suffix_order.trans by blast
  have pre: "strict_suffix (drop k s) s" if "is_prefix p s" "length p = k" "0 < k" for p s k
    using that by (auto simp: is_prefix_iff strict_suffix_def suffix_def)
  have "?V (Suc n)"
    using IH(2,4) parse_number_rest pre
    by (auto split: if_splits simp: pr_bind_Ok dest: parse_string_rest)
  moreover have "?A (Suc n)"
  proof (intro allI impI)
    fix s v r assume a: "parse_array ud (Suc n) s = P_Ok v r"
    show "strict_suffix r s"
    proof (cases "cat (skip (tl s)) 0 = CHR '']''")
      case True
      with a show ?thesis using strict_suffix_tl [OF True] ws [OF suffix_tl] by auto
    next
      case False
      with a obtain vs where "parse_elems ud n (skip (tl s)) = P_Ok vs r" by (auto simp: pr_bind_Ok)
      with IH(3) show ?thesis using lt ws [OF suffix_tl] by blast
    qed
  qed
  moreover have "?O (Suc n)"
  proof (intro allI impI)
    fix s v r assume a: "parse_object ud (Suc n) s = P_Ok v r"
    show "strict_suffix r s"
    proof (cases "cat (skip (tl s)) 0 = CHR ''}''")
      case True
      with a show ?thesis using strict_suffix_tl [OF True] ws [OF suffix_tl] by auto
    next
      case False
      with a obtain ms where "parse_members ud n (skip (tl s)) = P_Ok ms r" by (auto simp: pr_bind_Ok)
      with IH(5) show ?thesis using lt ws [OF suffix_tl] by blast
    qed
  qed
  moreover have "?E (Suc n)"
  proof (intro allI impI)
    fix s vs r assume a: "parse_elems ud (Suc n) s = P_Ok vs r"
    then obtain v q where v: "parse_value ud n (skip s) = P_Ok v q" by (auto simp: pr_bind_Ok)
    then have q: "strict_suffix q s" using IH(1) lt suffix_skip by blast
    then have sq: "suffix (skip q) s" using ws suffix_order.less_imp_le by blast
    from a v consider "cat (skip q) 0 = CHR '','' " "\<exists>ws. parse_elems ud n (tl (skip q)) = P_Ok ws r"
      | "cat (skip q) 0 = CHR '']''" "r = tl (skip q)"
      by (auto simp: pr_bind_Ok Let_def split: if_splits)
    then show "strict_suffix r s"
    proof cases
      case 1
      with IH(3) have "strict_suffix r (tl (skip q))" by blast
      with sq show ?thesis using strict_suffix_tl [OF 1(1)] suffix_order.less_trans by auto
    next
      case 2
      with sq show ?thesis using strict_suffix_tl by auto
    qed
  qed
  moreover have "?M (Suc n)"
  proof (intro allI impI)
    fix s ms r assume a: "parse_members ud (Suc n) s = P_Ok ms r"
    then obtain k q where k: "parse_string ud (skip s) = P_Ok k q" by (auto simp: pr_bind_Ok)
    then have q: "suffix (skip q) s"
      using parse_string_rest ws suffix_skip suffix_order.less_imp_le suffix_order.trans by meson
    from a k obtain v p where v: "parse_value ud n (skip (tl (skip q))) = P_Ok v p"
      by (auto simp: pr_bind_Ok Let_def split: if_splits)
    then have "suffix p (skip (tl (skip q)))" using IH(1) suffix_order.less_imp_le by blast
    then have sp: "suffix (skip p) s" using q ws suffix_skip suffix_tl suffix_order.trans by meson
    from a k v consider "cat (skip p) 0 = CHR '','' " "\<exists>ws. parse_members ud n (tl (skip p)) = P_Ok ws r"
      | "cat (skip p) 0 = CHR ''}''" "r = tl (skip p)"
      by (auto simp: pr_bind_Ok Let_def split: if_splits)
    then show "strict_suffix r s"
    proof cases
      case 1
      with IH(5) have "strict_suffix r (tl (skip p))" by blast
      with sp show ?thesis using strict_suffix_tl [OF 1(1)] suffix_order.less_trans by auto
    next
      case 2
      with sp show ?thesis using strict_suffix_tl by auto
    qed
  qed
  ultimately show ?case by blast
qed

section \<open>Which texts are read safely\<close>

text \<open>
  A text whose escapes are complete: something follows every backslash, and four hexadecimal
  digits follow every \<open>\u\<close>.
\<close>

definition hex4 :: "string \<Rightarrow> bool" where
  "hex4 r \<longleftrightarrow> 4 \<le> length r \<and> list_all (\<lambda>c. hex_val c \<noteq> None) (take 4 r)"

fun escapes_ok :: "string \<Rightarrow> bool" where
  "escapes_ok [] \<longleftrightarrow> True"
| "escapes_ok (c # cs) \<longleftrightarrow>
     (c = BSLASH \<longrightarrow> cs \<noteq> [] \<and> (hd cs = CHR ''u'' \<longrightarrow> hex4 (tl cs))) \<and> escapes_ok cs"

lemma escapes_ok_append: "escapes_ok (p @ s) \<Longrightarrow> escapes_ok s"
  by (induction p) auto

lemma escapes_ok_suffix: "suffix r s \<Longrightarrow> escapes_ok s \<Longrightarrow> escapes_ok r"
  by (auto simp: suffix_def dest: escapes_ok_append)

lemma escapes_ok_plain: "BSLASH \<notin> set s \<Longrightarrow> escapes_ok s"
  by (induction s) auto

lemma hex_not_special: "hex_val c \<noteq> None \<Longrightarrow> c \<noteq> QUOTE \<and> c \<noteq> BSLASH"
  by (auto simp: hex_val_def uchar_def)

lemma hex4_split:
  assumes "hex4 r"
  obtains a b c d q where "r = a # b # c # d # q" "list_all (\<lambda>c. hex_val c \<noteq> None) [a, b, c, d]"
proof -
  from assms have r: "4 \<le> length r" "list_all (\<lambda>c. hex_val c \<noteq> None) (take 4 r)" by (auto simp: hex4_def)
  then obtain a b c d q where "r = a # b # c # d # q"
    by (auto simp: numeral_eq_Suc Suc_le_length_iff)
  with r(2) that show ?thesis by simp
qed

lemma str_len_hex4: "hex4 r \<Longrightarrow> str_len r = map_option (\<lambda>m. m + 4) (str_len (drop 4 r))"
proof -
  assume "hex4 r"
  then obtain a b c d q where r: "r = a # b # c # d # q" "list_all (\<lambda>c. hex_val c \<noteq> None) [a, b, c, d]"
    by (rule hex4_split)
  then show ?thesis
    using hex_not_special [of a] hex_not_special [of b] hex_not_special [of c] hex_not_special [of d]
    by (cases "str_len q") auto
qed

lemma length_utf8_tail: "length (snd (utf8_tail k st)) = k + length (snd st)"
  by (induction k arbitrary: st) (simp, case_tac st, simp)

lemma length_utf8: "length (utf8 uc) = utf8_len uc"
proof -
  obtain top bs where t: "utf8_tail (utf8_len uc - 1) (uc, []) = (top, bs)" by fastforce
  then have "length bs = utf8_len uc - 1" using length_utf8_tail [of "utf8_len uc - 1" "(uc, [])"] by simp
  moreover have "1 \<le> utf8_len uc" by (simp add: utf8_len_def)
  ultimately show ?thesis using t by (simp add: utf8_def Let_def)
qed

lemma utf8_len_le: "utf8_len uc \<le> 4"
  by (simp add: utf8_len_def)

lemma unicode_step_bounds:
  assumes "hex4 r" "escapes_ok (drop 4 r)"
  obtains bs k j where "unicode_step ud r = Some (bs, k)" "length bs \<le> j"
    "str_len r = map_option (\<lambda>m. m + j) (str_len (drop k r))"
proof (cases "take 2 (drop 4 r) = [BSLASH, CHR ''u'']")
  case True
  obtain q where q: "drop 4 r = BSLASH # CHR ''u'' # q"
    using True by (cases "drop 4 r"; cases "tl (drop 4 r)") auto
  with assms(2) have h: "hex4 q" by simp
  have "drop 10 r = drop 6 (drop 4 r)" by simp
  also have "\<dots> = drop 4 q" unfolding q by simp
  finally have d: "drop 10 r = drop 4 q" .
  have "length (drop 4 r) = Suc (Suc (length q))" using q by simp
  then have "length r = 6 + length q" by simp
  with h have l: "4 \<le> length r" "10 \<le> length r" by (auto simp: hex4_def)
  have s4: "str_len r = map_option (\<lambda>m. m + 4) (str_len (drop 4 r))" by (rule str_len_hex4 [OF assms(1)])
  also have "\<dots> = map_option (\<lambda>m. m + 5) (str_len q)" unfolding q by (cases "str_len q") simp_all
  also have "\<dots> = map_option (\<lambda>m. m + 9) (str_len (drop 10 r))"
    unfolding str_len_hex4 [OF h] d by (cases "str_len (drop 4 q)") simp_all
  finally have s10: "str_len r = map_option (\<lambda>m. m + 9) (str_len (drop 10 r))" .
  define uc uc2 where "uc = scan4x ud r" and "uc2 = scan4x ud (drop 6 r)"
  have "unicode_step ud r \<in>
      {Some ([], 4), Some ([], 10), Some (utf8 uc, 4), Some (utf8 (0x10000 OR ((uc AND 0x3FF) * 1024) OR (uc2 AND 0x3FF)), 10)}"
    using l True by (simp add: unicode_step_def uc_def uc2_def Let_def)
  then show ?thesis
    using that [of _ 4 4] that [of _ 10 9] s4 s10 utf8_len_le [of uc]
      utf8_len_le [of "0x10000 OR ((uc AND 0x3FF) * 1024) OR (uc2 AND 0x3FF)"]
    by (auto simp: length_utf8)
next
  case False
  have "unicode_step ud r \<in> {Some ([], 4), Some (utf8 (scan4x ud r), 4)}"
    using False assms(1) by (simp add: unicode_step_def Let_def hex4_def)
  then show ?thesis
    using that [of _ 4 4] str_len_hex4 [OF assms(1)] utf8_len_le [of "scan4x ud r"] by (auto simp: length_utf8)
qed

lemma copy_string_safe:
  assumes "escapes_ok s"
  shows "\<exists>m. str_len s = Some m \<and>
    (\<forall>cap out. length out + m < cap \<longrightarrow> (\<exists>t r. copy_string ud cap out s = P_Ok t r \<and> length t < cap))"
  using assms
proof (induction s rule: length_induct)
  case (1 s)
  show ?case
  proof (cases s)
    case Nil
    then show ?thesis by simp
  next
    case s: (Cons c cs)
    have go: ?thesis
      if "length q < length s" "escapes_ok q" "str_len s = map_option (\<lambda>m. m + j) (str_len q)" "length bs \<le> j"
        and step: "\<And>cap out. length out + j < cap \<Longrightarrow> copy_string ud cap out s = copy_string ud cap (out @ bs) q"
      for q j bs
    proof -
      from 1 that(1,2) obtain m where m: "str_len q = Some m"
        "\<And>cap out. length out + m < cap \<Longrightarrow> \<exists>t r. copy_string ud cap out q = P_Ok t r \<and> length t < cap" by blast
      have "\<exists>t r. copy_string ud cap out s = P_Ok t r \<and> length t < cap" if "length out + (m + j) < cap" for cap out
        using m(2) [of "out @ bs" cap] step [of out cap] that \<open>length bs \<le> j\<close> by simp
      with m(1) that(3) show ?thesis by auto
    qed
    consider "c = QUOTE" | "c \<noteq> QUOTE" "c \<noteq> BSLASH" | "c = BSLASH" by blast
    then show ?thesis
    proof cases
      case 1
      with s show ?thesis by (simp add: copy_string_quote)
    next
      case 2
      show ?thesis
        by (rule go [of cs 1 "[c]"]) (use s 2 1 in \<open>simp_all add: copy_string_plain\<close>)
    next
      case bs: 3
      with 1 s obtain e q where cs: "cs = e # q" by (cases cs) auto
      show ?thesis
      proof (cases "e = CHR ''u''")
        case False
        show ?thesis
          by (rule go [of q 1 "[simple_escape e]"]) (use s bs cs 1 False in \<open>simp_all add: copy_string_escape\<close>)
      next
        case u: True
        with 1 s bs cs have h: "hex4 q" "escapes_ok q" by simp_all
        then have "escapes_ok (drop 4 q)" using escapes_ok_suffix suffix_drop by blast
        with h(1) obtain b k j where st: "unicode_step ud q = Some (b, k)" "length b \<le> j"
          "str_len q = map_option (\<lambda>m. m + j) (str_len (drop k q))" by (rule unicode_step_bounds)
        show ?thesis
        proof (rule go [of "drop k q" "Suc j" b])
          show "length (drop k q) < length s" using s cs by simp
          show "escapes_ok (drop k q)" using h(2) escapes_ok_suffix suffix_drop by blast
          show "str_len s = map_option (\<lambda>m. m + Suc j) (str_len (drop k q))"
            using s bs cs st(3) by (cases "str_len (drop k q)") simp_all
          show "length b \<le> Suc j" using st(2) by simp
          show "copy_string ud cap out s = copy_string ud cap (out @ b) (drop k q)" if "length out + Suc j < cap" for cap out
            using that s bs cs u st by (simp add: copy_string_unicode)
        qed
      qed
    qed
  qed
qed

lemma parse_string_safe: "escapes_ok s \<Longrightarrow> parse_string ud s \<noteq> P_Oob"
proof (cases s)
  case (Cons c cs)
  assume "escapes_ok s"
  with Cons have "escapes_ok cs" by simp
  from copy_string_safe [OF this, of ud] obtain m where m: "str_len cs = Some m"
    "\<And>cap out. length out + m < cap \<Longrightarrow> \<exists>t r. copy_string ud cap out cs = P_Ok t r \<and> length t < cap" by blast
  from m(2) [of "[]" "Suc m"] obtain t r where "copy_string ud (Suc m) [] cs = P_Ok t r" by auto
  with Cons m(1) show ?thesis by (simp add: parse_string_def)
qed (simp add: parse_string_def)

lemma copy_string_no_fuel: "copy_string ud cap out s \<noteq> P_Fuel"
proof (induction s arbitrary: out rule: length_induct)
  case (1 s)
  show ?case
  proof (cases s)
    case s: (Cons c cs)
    consider "c = QUOTE" | "c \<noteq> QUOTE" "c \<noteq> BSLASH" | "c = BSLASH" "cs = []"
      | e q where "c = BSLASH" "cs = e # q" "e \<noteq> CHR ''u''" | q where "c = BSLASH" "cs = CHR ''u'' # q"
      by (cases cs) auto
    then show ?thesis
    proof cases
      case (5 q)
      have "copy_string ud cap out' (drop k q) \<noteq> P_Fuel" for out' k using 1 s 5 by simp
      with s 5 show ?thesis by (simp add: copy_string_unicode split: option.split)
    qed (use 1 s in \<open>simp_all add: copy_string_quote copy_string_plain copy_string_escape copy_string.simps\<close>)
  qed simp
qed

lemma parse_string_no_fuel: "parse_string ud s \<noteq> P_Fuel"
  by (simp add: parse_string_def copy_string_no_fuel split: list.split option.split)

lemma parse_number_ok: "\<exists>v r. parse_number s = P_Ok v r"
  by (simp add: parse_number_def split: prod.split)

text \<open>
  An outcome is good when it is not for lack of fuel and, if the escapes of the text are
  complete (\<open>b\<close>), touches only its own memory.
\<close>

definition good :: "bool \<Rightarrow> 'a pr \<Rightarrow> bool" where
  "good b p \<longleftrightarrow> p \<noteq> P_Fuel \<and> (b \<longrightarrow> p \<noteq> P_Oob)"

lemma good_simps [simp]: "good b (P_Ok x r)" "good b P_Fail" "\<not> good b P_Fuel" "good b P_Oob \<longleftrightarrow> \<not> b"
  by (simp_all add: good_def)

lemma good_bind: "good b p \<Longrightarrow> (\<And>x r. p = P_Ok x r \<Longrightarrow> good b (f x r)) \<Longrightarrow> good b (pr_bind p f)"
  by (cases p) auto

lemma good_parse_string: "(b \<Longrightarrow> escapes_ok s) \<Longrightarrow> good b (parse_string ud s)"
  using parse_string_safe parse_string_no_fuel by (auto simp: good_def)

lemma good_parse_number: "good b (parse_number s)"
  using parse_number_ok [of s] by auto

lemmas parse_value_rest = parse_rest [THEN conjunct1, rule_format]
lemmas parse_elems_rest = parse_rest [THEN conjunct2, THEN conjunct2, THEN conjunct1, rule_format]

lemma suffix_len: "suffix r s \<Longrightarrow> length r \<le> length s" "strict_suffix r s \<Longrightarrow> length r < length s"
  by (auto simp: suffix_length_le strict_suffix_def suffix_def)

lemma skip_len: "length (skip s) \<le> length s"
  by (simp add: suffix_len)

lemma parse_good:
  assumes e: "\<And>q. suffix q t \<Longrightarrow> b \<Longrightarrow> escapes_ok q"
  shows
  "(\<forall>s. suffix s t \<and> 3 * length s < n \<longrightarrow> good b (parse_value ud n s)) \<and>
   (\<forall>s. suffix s t \<and> s \<noteq> [] \<and> 3 * length s \<le> n \<longrightarrow> good b (parse_array ud n s)) \<and>
   (\<forall>s. suffix s t \<and> 3 * length s + 1 < n \<longrightarrow> good b (parse_elems ud n s)) \<and>
   (\<forall>s. suffix s t \<and> s \<noteq> [] \<and> 3 * length s \<le> n \<longrightarrow> good b (parse_object ud n s)) \<and>
   (\<forall>s. suffix s t \<and> 3 * length s + 1 < n \<longrightarrow> good b (parse_members ud n s))" (is "?V n \<and> ?A n \<and> ?E n \<and> ?O n \<and> ?M n")
proof (induction n)
  case 0
  show ?case by simp
next
  case (Suc n)
  then have V: "?V n" and A: "?A n" and E: "?E n" and O: "?O n" and M: "?M n" by blast+
  have ts: "suffix (skip q) t" "suffix (tl q) t" if "suffix q t" for q
    using that suffix_skip suffix_tl suffix_order.trans by blast+
  have after: "suffix (tl (skip r)) t \<and> length (tl (skip r)) < length q"
    if "strict_suffix r q" "suffix q t" for r q
  proof
    show "suffix (tl (skip r)) t" using that ts suffix_order.trans suffix_order.less_imp_le by meson
    have "length (tl (skip r)) \<le> length r" using skip_len [of r] by simp
    then show "length (tl (skip r)) < length q" using suffix_len(2) [OF that(1)] by simp
  qed
  have "?V (Suc n)"
  proof (intro allI impI)
    fix s assume s: "suffix s t \<and> 3 * length s < Suc n"
    have "good b (parse_array ud n s)" if "cat s 0 = CHR ''[''" using that A s by (auto simp: cat_def)
    moreover have "good b (parse_object ud n s)" if "cat s 0 = CHR ''{''" using that O s by (auto simp: cat_def)
    moreover have "good b (parse_string ud s)" using e s by (intro good_parse_string) blast
    ultimately show "good b (parse_value ud (Suc n) s)"
      using good_parse_number [of b s] by (auto intro: good_bind)
  qed
  moreover have "?A (Suc n)"
  proof (intro allI impI)
    fix s assume s: "suffix s t \<and> s \<noteq> [] \<and> 3 * length s \<le> Suc n"
    then have "3 * length (skip (tl s)) + 1 < n" using skip_len [of "tl s"] by (cases s) auto
    then have "good b (parse_elems ud n (skip (tl s)))" using E s ts by blast
    then show "good b (parse_array ud (Suc n) s)" by (auto simp: Let_def intro: good_bind)
  qed
  moreover have "?O (Suc n)"
  proof (intro allI impI)
    fix s assume s: "suffix s t \<and> s \<noteq> [] \<and> 3 * length s \<le> Suc n"
    then have "3 * length (skip (tl s)) + 1 < n" using skip_len [of "tl s"] by (cases s) auto
    then have "good b (parse_members ud n (skip (tl s)))" using M s ts by blast
    then show "good b (parse_object ud (Suc n) s)" by (auto simp: Let_def intro: good_bind)
  qed
  moreover have "?E (Suc n)"
  proof (intro allI impI)
    fix s assume s: "suffix s t \<and> 3 * length s + 1 < Suc n"
    have "good b (parse_value ud n (skip s))" using V s ts skip_len [of s] by auto
    moreover have "good b (parse_elems ud n (tl (skip r)))" if "parse_value ud n (skip s) = P_Ok v r" for v r
      using E s after [OF parse_value_rest [OF that]] ts skip_len [of s] by fastforce
    ultimately show "good b (parse_elems ud (Suc n) s)" by (auto simp: Let_def intro!: good_bind)
  qed
  moreover have "?M (Suc n)"
  proof (intro allI impI)
    fix s assume s: "suffix s t \<and> 3 * length s + 1 < Suc n"
    have "good b (parse_string ud (skip s))" using e s ts by (intro good_parse_string) blast
    moreover have "good b (parse_value ud n (skip (tl (skip r))))"
      if "parse_string ud (skip s) = P_Ok k r" for k r
      using V s after [OF parse_string_rest [OF that]] ts skip_len [of s] skip_len [of "tl (skip r)"] by fastforce
    moreover have "good b (parse_members ud n (tl (skip r')))"
      if "parse_string ud (skip s) = P_Ok k r" "parse_value ud n (skip (tl (skip r))) = P_Ok v r'" for k r v r'
    proof -
      have q: "suffix (skip (tl (skip r))) t" "length (skip (tl (skip r))) \<le> length s"
        using s after [OF parse_string_rest [OF that(1)]] ts skip_len [of s] skip_len [of "tl (skip r)"] by fastforce+
      show ?thesis using M s q after [OF parse_value_rest [OF that(2)] q(1)] by fastforce
    qed
    ultimately show "good b (parse_members ud (Suc n) s)" by (auto simp: Let_def intro!: good_bind)
  qed
  ultimately show ?case by blast
qed

lemma cJSON_Parse_good: "(b \<Longrightarrow> escapes_ok s) \<Longrightarrow> good b (cJSON_Parse ud s)"
proof -
  assume "b \<Longrightarrow> escapes_ok s"
  then have "good b (parse_value ud (parse_fuel s) (skip s))"
    using parse_good [of s b "parse_fuel s" ud] escapes_ok_suffix skip_len [of s]
    by (auto simp: parse_fuel_def)
  then show ?thesis by (simp add: cJSON_Parse_def)
qed

section \<open>A tree is no larger than its text\<close>

text \<open>The characters a tree takes at least: quotes, colons and braces that have to be there included.\<close>

fun json_weight :: "json \<Rightarrow> nat" where
  "json_weight (JString s) = length s + 1"
| "json_weight (JArray vs) = sum_list (map json_weight vs)"
| "json_weight (JObject ms) = 1 + sum_list (map (\<lambda>kv. length (fst kv) + 2 + json_weight (snd kv)) ms)"
| "json_weight _ = 0"

lemma unicode_step_length:
  "unicode_step ud r = Some (bs, k) \<Longrightarrow> length bs \<le> 4 \<and> 4 \<le> k \<and> k \<le> length r"
  using utf8_len_le by (auto simp: unicode_step_def Let_def length_utf8 split: if_splits)

lemma copy_string_length: "copy_string ud cap out s = P_Ok t r \<Longrightarrow> length t + length r \<le> length out + length s"
proof (induction s arbitrary: out rule: length_induct)
  case (1 s)
  show ?case
  proof (cases s)
    case Nil
    with 1 show ?thesis by (simp split: if_splits)
  next
    case s: (Cons c cs)
    consider "c = QUOTE" | "c \<noteq> QUOTE" "c \<noteq> BSLASH" | "c = BSLASH" "cs = []"
      | e q where "c = BSLASH" "cs = e # q" "e \<noteq> CHR ''u''" | q where "c = BSLASH" "cs = CHR ''u'' # q"
      by (cases cs) auto
    then show ?thesis
    proof cases
      case 1
      with \<open>copy_string ud cap out s = P_Ok t r\<close> s show ?thesis by (simp add: copy_string_quote split: if_splits)
    next
      case 2
      with 1(2) s have "copy_string ud cap (out @ [c]) cs = P_Ok t r" by (simp add: copy_string_plain split: if_splits)
      with 1(1) s have "length t + length r \<le> length (out @ [c]) + length cs" by (metis length_Cons lessI)
      with s show ?thesis by simp
    next
      case 3
      with 1 s show ?thesis by (simp add: copy_string.simps)
    next
      case (4 e q)
      with 1(2) s have "copy_string ud cap (out @ [simple_escape e]) q = P_Ok t r"
        by (simp add: copy_string_escape split: if_splits)
      moreover have "length q < length s" using s 4 by simp
      ultimately have "length t + length r \<le> length (out @ [simple_escape e]) + length q" using 1(1) by blast
      with s 4 show ?thesis by simp
    next
      case (5 q)
      with 1 s obtain b k where u: "unicode_step ud q = Some (b, k)" "copy_string ud cap (out @ b) (drop k q) = P_Ok t r"
        by (auto simp: copy_string_unicode split: option.splits if_splits)
      have "length (drop k q) < length s" using s 5 by simp
      with 1 u(2) have "length t + length r \<le> length (out @ b) + length (drop k q)" by blast
      with s 5 unicode_step_length [OF u(1)] show ?thesis by auto
    qed
  qed
qed

lemma parse_string_length: "parse_string ud s = P_Ok t r \<Longrightarrow> length t + 1 + length r \<le> length s"
  by (auto simp: parse_string_def split: list.splits if_splits option.splits dest!: copy_string_length)

lemma tl_len: "cat s 0 = c \<Longrightarrow> c \<noteq> CHR 0x00 \<Longrightarrow> length (tl s) + 1 \<le> length s"
  by (cases s) (auto simp: cat_def)

lemma parse_weight:
  "(\<forall>s v r. parse_value ud n s = P_Ok v r \<longrightarrow> json_weight v + length r \<le> length s) \<and>
   (\<forall>s v r. s \<noteq> [] \<and> parse_array ud n s = P_Ok v r \<longrightarrow> json_weight v + length r \<le> length s) \<and>
   (\<forall>s vs r. parse_elems ud n s = P_Ok vs r \<longrightarrow> sum_list (map json_weight vs) + length r \<le> length s) \<and>
   (\<forall>s v r. s \<noteq> [] \<and> parse_object ud n s = P_Ok v r \<longrightarrow> json_weight v + length r \<le> length s) \<and>
   (\<forall>s ms r. parse_members ud n s = P_Ok ms r \<longrightarrow>
      sum_list (map (\<lambda>kv. length (fst kv) + 2 + json_weight (snd kv)) ms) + length r \<le> length s)"
  (is "?V n \<and> ?A n \<and> ?E n \<and> ?O n \<and> ?M n")
proof (induction n)
  case 0
  show ?case by simp
next
  case (Suc n)
  then have V: "?V n" and A: "?A n" and E: "?E n" and O: "?O n" and M: "?M n" by blast+
  have "?V (Suc n)"
  proof (intro allI impI)
    fix s v r assume v: "parse_value ud (Suc n) s = P_Ok v r"
    have num: "length r \<le> length s \<and> json_weight v = 0" if "parse_number s = P_Ok v r" "cat s 0 = CHR ''-'' \<or> is_digit_c (cat s 0)"
      using parse_number_rest [OF that] suffix_len(2) that(1)
      by (fastforce simp: parse_number_def Let_def split: prod.splits)
    have ne: "s \<noteq> []" if "cat s 0 = c" "c \<noteq> CHR 0x00" for c using that by (auto simp: cat_def)
    show "json_weight v + length r \<le> length s"
      using v A O num ne [of "CHR ''[''"] ne [of "CHR ''{''"] parse_string_length
      by (auto simp: parse_value.simps pr_bind_Ok split: if_splits)
  qed
  moreover have "?A (Suc n)"
  proof (intro allI impI)
    fix s v r assume a: "s \<noteq> [] \<and> parse_array ud (Suc n) s = P_Ok v r"
    have "length (skip (tl s)) \<le> length s" using skip_len [of "tl s"] by simp
    moreover have "(v = JArray [] \<and> r = tl (skip (tl s))) \<or> (\<exists>vs. v = JArray vs \<and> parse_elems ud n (skip (tl s)) = P_Ok vs r)"
      using a by (auto simp: Let_def pr_bind_Ok split: if_splits)
    ultimately show "json_weight v + length r \<le> length s" using E by force
  qed
  moreover have "?O (Suc n)"
  proof (intro allI impI)
    fix s v r assume a: "s \<noteq> [] \<and> parse_object ud (Suc n) s = P_Ok v r"
    then have "length (skip (tl s)) + 1 \<le> length s" using skip_len [of "tl s"] by (cases s) auto
    moreover have "(v = JObject [] \<and> r = tl (skip (tl s))) \<or> (\<exists>ms. v = JObject ms \<and> parse_members ud n (skip (tl s)) = P_Ok ms r)"
      using a by (auto simp: Let_def pr_bind_Ok split: if_splits)
    ultimately show "json_weight v + length r \<le> length s" using M by force
  qed
  moreover have "?E (Suc n)"
  proof (intro allI impI)
    fix s vs r assume a: "parse_elems ud (Suc n) s = P_Ok vs r"
    then obtain v q where v: "parse_value ud n (skip s) = P_Ok v q" by (auto simp: pr_bind_Ok)
    then have q: "json_weight v + length (skip q) \<le> length s" using V skip_len [of s] skip_len [of q] by fastforce
    from a v consider us where "vs = v # us" "parse_elems ud n (tl (skip q)) = P_Ok us r" | "vs = [v]" "r = tl (skip q)"
      by (auto simp: pr_bind_Ok Let_def split: if_splits)
    then show "sum_list (map json_weight vs) + length r \<le> length s" using E q by cases force+
  qed
  moreover have "?M (Suc n)"
  proof (intro allI impI)
    fix s ms r assume a: "parse_members ud (Suc n) s = P_Ok ms r"
    then obtain k q where k: "parse_string ud (skip s) = P_Ok k q" and c: "cat (skip q) 0 = CHR '':''"
      by (auto simp: pr_bind_Ok Let_def split: if_splits)
    have q: "length k + 1 + length (skip q) \<le> length s"
      using parse_string_length [OF k] skip_len [of s] skip_len [of q] by simp
    have t: "length (tl (skip q)) + 1 \<le> length (skip q)" using tl_len [OF c] by simp
    from a k c obtain v p where v: "parse_value ud n (skip (tl (skip q))) = P_Ok v p"
      by (auto simp: pr_bind_Ok Let_def split: if_splits)
    have p: "length k + 2 + json_weight v + length (skip p) \<le> length s"
      using V v skip_len [of "tl (skip q)"] skip_len [of p] q t by fastforce
    from a k c v consider us where "ms = (k, v) # us" "parse_members ud n (tl (skip p)) = P_Ok us r"
      | "ms = [(k, v)]" "r = tl (skip p)"
      by (auto simp: pr_bind_Ok Let_def split: if_splits)
    then show "sum_list (map (\<lambda>kv. length (fst kv) + 2 + json_weight (snd kv)) ms) + length r \<le> length s"
      using M p by cases force+
  qed
  ultimately show ?case by blast
qed

lemma cJSON_Parse_weight: "cJSON_Parse ud s = P_Ok j r \<Longrightarrow> json_weight j \<le> length s"
  using parse_weight [THEN conjunct1, of ud "parse_fuel s"] skip_len [of s] by (fastforce simp: cJSON_Parse_def)

section \<open>Reading what was printed\<close>

lemma hex_val_hex_lower: "n < 16 \<Longrightarrow> hex_val (hex_lower n) = Some n"
  by (auto simp: hex_val_def hex_lower_def uchar_def Let_def)

lemma scan4x_hex_lower:
  "n < 256 \<Longrightarrow> scan4x ud (CHR ''0'' # CHR ''0'' # hex_lower (n div 16) # hex_lower (n mod 16) # t) = n"
proof -
  assume n: "n < 256"
  have z: "hex_val CHR ''0'' = Some 0" by (simp add: hex_val_def uchar_def)
  from n have "n div 16 < 16" by simp
  then show ?thesis by (simp add: scan4x_def z hex_val_hex_lower)
qed

lemma utf8_ascii: "0 < n \<Longrightarrow> n < 0x80 \<Longrightarrow> utf8 n = [char_of n]"
  by (simp add: utf8_def utf8_len_def firstByteMark_def Let_def)

lemma uchar_eq: "char_of (uchar c) = c"
  by (simp add: uchar_def)

lemma uchar_0: "uchar c = 0 \<longleftrightarrow> c = CHR 0x00"
proof
  assume "uchar c = 0"
  then have "(of_char c :: nat) = of_char CHR 0x00" by (simp add: uchar_def)
  then show "c = CHR 0x00" by (simp only: of_char_eq_iff)
qed (simp add: uchar_def)

lemma copy_print_char:
  assumes "length out < cap" "c \<noteq> CHR 0x00"
  shows "copy_string ud cap out (print_char c @ t) = copy_string ud cap (out @ [c]) t"
proof (cases "uchar c \<le> 31 \<and> c \<notin> {CHR 0x08, CHR 0x0C, CHR 0x0A, CHR 0x0D, CHR 0x09}")
  case True
  have c: "c \<noteq> BSLASH" "c \<noteq> QUOTE" using True by (auto simp: uchar_def)
  have pos: "0 < uchar c" using assms(2) uchar_0 [of c] by simp
  let ?r = "CHR ''0'' # CHR ''0'' # hex_lower (uchar c div 16) # hex_lower (uchar c mod 16) # t"
  have p: "print_char c @ t = BSLASH # CHR ''u'' # ?r" using True c by (simp add: print_char_def)
  have "unicode_step ud ?r = Some ([c], 4)"
    using scan4x_hex_lower [of "uchar c" ud t] True pos utf8_ascii [of "uchar c"]
    by (simp add: unicode_step_def Let_def uchar_eq)
  with assms(1) show ?thesis unfolding p by (simp add: copy_string_unicode)
next
  case False
  then consider "31 < uchar c" "c \<noteq> QUOTE" "c \<noteq> BSLASH" | "c \<in> {QUOTE, BSLASH, CHR 0x08, CHR 0x0C, CHR 0x0A, CHR 0x0D, CHR 0x09}"
    by force
  then show ?thesis
  proof cases
    case 1
    with assms(1) show ?thesis by (simp add: print_char_def copy_string_plain)
  next
    case 2
    with assms(1) show ?thesis
      by (auto simp: print_char_def copy_string_escape simple_escape_def uchar_def)
  qed
qed

lemma str_len_print_char: "\<exists>j \<ge> 1. \<forall>t. str_len (print_char c @ t) = map_option (\<lambda>m. m + j) (str_len t)"
proof -
  have h: "hex_lower n \<noteq> QUOTE" "hex_lower n \<noteq> BSLASH" if "n < 16" for n
    using hex_not_special hex_val_hex_lower [OF that] by auto
  have d: "uchar c div 16 < 16" using uchar_less [of c] by linarith
  have five: "(\<lambda>x. Suc (Suc (Suc (Suc (Suc x))))) = (\<lambda>m. m + 5)" by auto
  consider "c \<noteq> QUOTE" "c \<noteq> BSLASH" "31 < uchar c"
    | "\<not> (31 < uchar c \<and> c \<noteq> QUOTE \<and> c \<noteq> BSLASH)" "c \<in> {QUOTE, BSLASH, CHR 0x08, CHR 0x0C, CHR 0x0A, CHR 0x0D, CHR 0x09}"
    | "uchar c \<le> 31" "c \<notin> {QUOTE, BSLASH, CHR 0x08, CHR 0x0C, CHR 0x0A, CHR 0x0D, CHR 0x09}" by force
  then show ?thesis
  proof cases
    case 1
    then have "\<forall>t. str_len (print_char c @ t) = map_option (\<lambda>m. m + 1) (str_len t)"
      by (simp add: print_char_def)
    then show ?thesis by blast
  next
    case 2
    then have "\<forall>t. str_len (print_char c @ t) = map_option (\<lambda>m. m + 1) (str_len t)"
      by (auto simp: print_char_def)
    then show ?thesis by blast
  next
    case 3
    then have "\<forall>t. str_len (print_char c @ t) = map_option (\<lambda>m. m + 5) (str_len t)"
      using h d five by (auto simp: print_char_def option.map_comp comp_def)
    then show ?thesis by (intro exI [of _ 5]) simp
  qed
qed

lemma str_len_printed: "\<exists>k \<ge> length s. str_len (concat (map print_char s) @ QUOTE # t) = Some k"
proof (induction s)
  case (Cons c s)
  then obtain k where k: "k \<ge> length s" "str_len (concat (map print_char s) @ QUOTE # t) = Some k" by blast
  from str_len_print_char obtain j where "j \<ge> 1" "\<forall>t. str_len (print_char c @ t) = map_option (\<lambda>m. m + j) (str_len t)" by blast
  with k show ?case by (intro exI [of _ "k + j"]) simp
qed simp

lemma copy_printed:
  "length out + length s < cap \<Longrightarrow> is_cstr s \<Longrightarrow>
   copy_string ud cap out (concat (map print_char s) @ QUOTE # t) = P_Ok (out @ s) t"
  by (induction s arbitrary: out) (auto simp: copy_print_char copy_string_quote is_cstr_def)

lemma parse_print_string: "is_cstr s \<Longrightarrow> parse_string ud (print_string_ptr s @ t) = P_Ok s t"
  using str_len_printed [of s t] copy_printed [of "[]" s _ ud t]
  by (auto simp: parse_string_def print_string_ptr_def)

text \<open>What may follow a number so that its text ends there.\<close>

definition ends_number :: "string \<Rightarrow> bool" where
  "ends_number r \<longleftrightarrow> \<not> is_digit_c (cat r 0) \<and> cat r 0 \<notin> {CHR ''.'', CHR ''e'', CHR ''E''}"

lemma digits_append: "list_all is_digit_c s \<Longrightarrow> \<not> is_digit_c (cat r 0) \<Longrightarrow> digits (s @ r) = (s, r)"
  by (cases r) (auto simp: digits_def list_all_iff cat_def takeWhile_append dropWhile_append)

lemma ends_number_rest:
  assumes "ends_number r"
  shows "parse_fraction n r = (n, 0, r)" "parse_exponent r = (0, r)"
  using assms by (auto simp: ends_number_def parse_fraction_def parse_exponent_def cat_def split: list.splits)

lemma digit_not: "is_digit_c c \<Longrightarrow> c \<notin> {CHR ''-'', QUOTE, CHR ''n'', CHR ''f'', CHR ''t'', CHR ''['', CHR ''{'', CHR 0x00}"
  by (auto simp: is_digit_c_def uchar_def)

lemma dec_string_cons: "\<exists>c cs. dec_string n = c # cs \<and> is_digit_c c \<and> (c = CHR ''0'' \<longleftrightarrow> n = 0) \<and> (n = 0 \<longrightarrow> cs = [])"
proof (cases "n = 0")
  case True
  have "dec_digit 0 = CHR ''0''" using dec_digit_zero [of 0] by simp
  with True show ?thesis by (simp add: dec_string.simps [of 0] dec_digit_def is_digit_c_def uchar_def)
next
  case False
  then obtain d cs where "dec_string n = dec_digit d # cs" "0 < d" "d < 10" using dec_string_first by blast
  with False show ?thesis using is_digit_dec_digit dec_digit_zero by simp
qed

lemma parse_number_dec:
  assumes r: "ends_number r"
  shows "parse_number (dec_string n @ r) = P_Ok (JNumber (int n) 0) r"
    and "parse_number (CHR ''-'' # dec_string n @ r) = P_Ok (JNumber (- int n) 0) r"
proof -
  obtain c cs where c: "dec_string n = c # cs" "is_digit_c c" "c = CHR ''0'' \<longleftrightarrow> n = 0" "n = 0 \<longrightarrow> cs = []"
    using dec_string_cons by blast
  have nd: "\<not> is_digit_c (cat r 0)" using r by (simp add: ends_number_def)
  have s: "take_char CHR ''-'' (dec_string n @ r) = (False, dec_string n @ r)"
    using c digit_not by (auto simp: take_char_def)
  define body where "body s2 = (if is_digit_c (cat s2 0) \<and> cat s2 0 \<noteq> CHR ''0''
                                then (let (ds, q) = digits s2 in (digits_val 0 ds, q)) else (0 :: nat, s2))" for s2
  have b: "body (snd (take_char CHR ''0'' (dec_string n @ r))) = (n, r)"
  proof (cases "n = 0")
    case True
    with c nd show ?thesis by (simp add: take_char_def body_def)
  next
    case False
    have "cat (dec_string n @ r) 0 = c" using c(1) by (simp add: cat_def)
    moreover have "snd (take_char CHR ''0'' (dec_string n @ r)) = dec_string n @ r"
      using c False by (simp add: take_char_def)
    ultimately show ?thesis
      using c(2,3) False digits_append [OF dec_string_all_digits nd, of n] by (simp add: body_def digits_val_dec_string)
  qed
  have p: "parse_number t =
      (let (neg, s1) = take_char CHR ''-'' t; (n1, s3) = body (snd (take_char CHR ''0'' s1));
           (n2, decimals, s4) = parse_fraction n1 s3; (ex, s5) = parse_exponent s4
       in P_Ok (JNumber (if neg then - int n2 else int n2) (ex - int decimals)) s5)" for t
    by (simp add: parse_number_def body_def Let_def split: prod.split)
  show "parse_number (dec_string n @ r) = P_Ok (JNumber (int n) 0) r"
    by (simp add: p s b ends_number_rest [OF r])
  show "parse_number (CHR ''-'' # dec_string n @ r) = P_Ok (JNumber (- int n) 0) r"
    by (simp add: p take_char_def [of "CHR ''-''"] b ends_number_rest [OF r])
qed

fun wf_json :: "json \<Rightarrow> bool" where
  "wf_json JNull \<longleftrightarrow> True"
| "wf_json JFalse \<longleftrightarrow> True"
| "wf_json JTrue \<longleftrightarrow> True"
| "wf_json (JNumber m e) \<longleftrightarrow> e = 0 \<and> - (2 ^ 31) \<le> m \<and> m < 2 ^ 31"
| "wf_json (JString s) \<longleftrightarrow> is_cstr s"
| "wf_json (JArray vs) \<longleftrightarrow> list_all wf_json vs"
| "wf_json (JObject ms) \<longleftrightarrow> list_all (\<lambda>kv. is_cstr (fst kv) \<and> wf_json (snd kv)) ms"

lemma parse_print_number:
  assumes "wf_json (JNumber m e)" "ends_number r"
  shows "parse_number (print_number fd m e @ r) = P_Ok (JNumber m e) r"
  using assms parse_number_dec [of r "nat m"] parse_number_dec [of r "nat (- m)"]
  by (auto simp: print_number_def)

lemma print_number_cons:
  assumes "wf_json (JNumber m e)"
  shows "\<exists>c cs. print_number fd m e = c # cs \<and> (c = CHR ''-'' \<or> is_digit_c c)"
  using assms dec_string_cons [of "nat m"] by (auto simp: print_number_def)

lemma print_value_cons: "wf_json v \<Longrightarrow> \<exists>c cs. print_value fd fmt d v = c # cs \<and> 32 < uchar c \<and> c \<noteq> CHR '']''"
proof (cases v)
  case (JNumber m e)
  assume "wf_json v"
  with JNumber print_number_cons [of m e fd] obtain c cs
    where "print_value fd fmt d v = c # cs" "c = CHR ''-'' \<or> is_digit_c c" by auto
  then show ?thesis by (auto simp: is_digit_c_def uchar_def)
qed (auto simp: print_string_ptr_def uchar_def)

lemma skip_cons: "32 < uchar c \<Longrightarrow> skip (c # cs) = c # cs"
  by (simp add: skip_def)

lemma skip_ws: "\<forall>c \<in> set w. uchar c \<le> 32 \<Longrightarrow> skip (w @ s) = skip s"
  by (simp add: skip_def dropWhile_append)

lemma skip_print_value: "wf_json v \<Longrightarrow> skip (print_value fd fmt d v @ r) = print_value fd fmt d v @ r"
  using print_value_cons [of v fd fmt d] skip_cons by fastforce

lemma skip_print_string: "skip (print_string_ptr s @ r) = print_string_ptr s @ r"
  by (simp add: print_string_ptr_def skip_cons uchar_def)

definition blank :: "string \<Rightarrow> bool" where
  "blank w \<longleftrightarrow> list_all (\<lambda>c. uchar c \<le> 32) w"

lemma blank_simps [simp]: "blank []" "blank (c # w) \<longleftrightarrow> uchar c \<le> 32 \<and> blank w" "blank (v @ w) \<longleftrightarrow> blank v \<and> blank w"
  "blank (spaced fmt (replicate k (CHR 0x09)))" "blank (spaced fmt [CHR 0x0A])" "blank (spaced fmt [CHR 0x09])" "blank (spaced fmt '' '')"
  by (auto simp: blank_def list_all_iff uchar_def spaced_def)

lemma skip_blank: "blank w \<Longrightarrow> skip (w @ s) = skip s"
  by (rule skip_ws) (simp add: blank_def list_all_iff)

lemma ends_blank:
  assumes "blank w" "c \<in> {CHR '','', CHR '']'', CHR ''}''}"
  shows "ends_number (w @ c # r)"
  using assms by (cases w) (auto simp: ends_number_def cat_def is_digit_c_def uchar_def)

lemma cat_Cons_0 [simp]: "cat (c # cs) 0 = c"
  by (simp add: cat_def)

lemma parse_value_number:
  "c = CHR ''-'' \<or> is_digit_c c \<Longrightarrow> parse_value ud (Suc n) (c # cs) = parse_number (c # cs)"
  using digit_not [of c] by auto

lemma parse_value_string:
  "parse_value ud (Suc n) (QUOTE # cs) = pr_bind (parse_string ud (QUOTE # cs)) (\<lambda>t r. P_Ok (JString t) r)"
  by simp

lemma parse_value_array: "parse_value ud (Suc n) (CHR ''['' # cs) = parse_array ud n (CHR ''['' # cs)"
  by (simp add: is_digit_c_def uchar_def)

lemma parse_value_object: "parse_value ud (Suc n) (CHR ''{'' # cs) = parse_object ud n (CHR ''{'' # cs)"
  by (simp add: is_digit_c_def uchar_def)

lemma skip_punct [simp]:
  "skip (CHR '','' # s) = CHR '','' # s" "skip (CHR '']'' # s) = CHR '']'' # s" "skip (CHR ''}'' # s) = CHR ''}'' # s"
  "skip (CHR '':'' # s) = CHR '':'' # s"
  by (simp_all add: skip_def uchar_def)

lemma parse_print_scalar:
  assumes "wf_json v" "ends_number r" "0 < n"
    "v = JNull \<or> v = JTrue \<or> v = JFalse \<or> (\<exists>m e. v = JNumber m e) \<or> (\<exists>s. v = JString s)"
  shows "parse_value ud n (print_value fd fmt d v @ r) = P_Ok v r"
proof -
  obtain k where n: "n = Suc k" using assms(3) by (cases n) auto
  show ?thesis
  proof (cases v)
    case (JNumber m e)
    with assms(1) print_number_cons [of m e fd] obtain c cs
      where c: "print_number fd m e = c # cs" "c = CHR ''-'' \<or> is_digit_c c" by auto
    with assms JNumber parse_print_number [of m e r fd] show ?thesis
      using parse_value_number [OF c(2), of ud k "cs @ r"] by (simp add: n)
  next
    case (JString s)
    have "print_string_ptr s @ r = QUOTE # tl (print_string_ptr s @ r)" by (simp add: print_string_ptr_def)
    with assms(1) JString show ?thesis
      using parse_value_string [of ud k "tl (print_string_ptr s @ r)"] parse_print_string [of s ud r] by (simp add: n)
  qed (use assms in \<open>simp_all add: n eval_nat_numeral\<close>)
qed

declare parse_value.simps(2) [simp del]

lemma skip_skip [simp]: "skip (skip s) = skip s"
  by (simp add: skip_def)

lemma parse_members_skip [simp]: "parse_members ud n (skip s) = parse_members ud n s"
  by (cases n) simp_all

lemma parse_elems_skip [simp]: "parse_elems ud n (skip s) = parse_elems ud n s"
  by (cases n) simp_all

lemma parse_elems_step:
  assumes "wf_json v" "blank w" and v: "parse_value ud n (print_value fd fmt (Suc d) v @ r) = P_Ok v r"
  shows "r = CHR '']'' # q \<Longrightarrow> parse_elems ud (Suc n) (w @ print_value fd fmt (Suc d) v @ r) = P_Ok [v] q"
    and "r = CHR '','' # q \<Longrightarrow> parse_elems ud n q = P_Ok vs p \<Longrightarrow>
      parse_elems ud (Suc n) (w @ print_value fd fmt (Suc d) v @ r) = P_Ok (v # vs) p"
  using assms by (simp_all add: skip_blank skip_print_value)

lemma parse_members_step:
  assumes "wf_json v" "is_cstr k" "blank w" "blank w'"
    and v: "parse_value ud n (print_value fd fmt d v @ r) = P_Ok v r"
  shows "skip r = CHR ''}'' # q \<Longrightarrow>
      parse_members ud (Suc n) (w @ print_string_ptr k @ CHR '':'' # w' @ print_value fd fmt d v @ r) = P_Ok [(k, v)] q"
    and "skip r = CHR '','' # q \<Longrightarrow> parse_members ud n q = P_Ok ms p \<Longrightarrow>
      parse_members ud (Suc n) (w @ print_string_ptr k @ CHR '':'' # w' @ print_value fd fmt d v @ r) = P_Ok ((k, v) # ms) p"
  using assms by (simp_all add: skip_blank skip_print_value skip_print_string parse_print_string)

lemma parse_print:
  "wf_json v \<Longrightarrow> ends_number r \<Longrightarrow> 3 * length (print_value fd fmt d v @ r) < n \<Longrightarrow>
     parse_value ud n (print_value fd fmt d v @ r) = P_Ok v r"
  "vs \<noteq> [] \<Longrightarrow> list_all wf_json vs \<Longrightarrow> blank w \<Longrightarrow> 3 * length (w @ print_elems fd fmt d vs @ CHR '']'' # r) + 1 < n \<Longrightarrow>
     parse_elems ud n (w @ print_elems fd fmt d vs @ CHR '']'' # r) = P_Ok vs r"
  "ms \<noteq> [] \<Longrightarrow> list_all (\<lambda>kv. is_cstr (fst kv) \<and> wf_json (snd kv)) ms \<Longrightarrow> blank w \<Longrightarrow> blank w' \<Longrightarrow>
     3 * length (w @ print_members fd fmt d ms @ w' @ CHR ''}'' # r) + 1 < n \<Longrightarrow>
     parse_members ud n (w @ print_members fd fmt d ms @ w' @ CHR ''}'' # r) = P_Ok ms r"
proof (induction fd fmt d v and fd fmt d vs and fd fmt d ms arbitrary: n r and n r w and n r w w'
    rule: print_value_print_elems_print_members.induct)
  case (6 fd fmt d vs)
  then obtain m where n: "n = Suc (Suc m)" by (cases n; cases "n - 1") auto
  show ?case
  proof (cases "vs = []")
    case True
    then show ?thesis by (simp add: n parse_value_array)
  next
    case False
    then obtain x xs where x: "vs = x # xs" by (cases vs) auto
    have "wf_json x" using 6 x by simp
    then obtain c cs where c: "print_elems fd fmt d vs @ CHR '']'' # r = c # cs" "32 < uchar c" "c \<noteq> CHR '']''"
      using x print_value_cons [of x fd fmt "Suc d"] by fastforce
    then have sk: "cat (skip (print_elems fd fmt d vs @ CHR '']'' # r)) 0 \<noteq> CHR '']''" by (simp add: skip_cons)
    have "parse_elems ud m (print_elems fd fmt d vs @ CHR '']'' # r) = P_Ok vs r"
      using 6(1) [of "[]" r m] 6(2,4) False n by simp
    with sk show ?thesis by (simp add: n parse_value_array Let_def)
  qed
next
  case (7 fd fmt d ms)
  then obtain m where n: "n = Suc (Suc m)" by (cases n; cases "n - 1") auto
  let ?nl = "spaced fmt [CHR 0x0A]" and ?tabs = "spaced fmt (replicate d (CHR 0x09))"
  have bl: "blank ?nl" "blank ?tabs" by simp_all
  let ?txt = "?nl @ print_members fd fmt (Suc d) ms @ ?tabs @ CHR ''}'' # r"
  have whole: "print_value fd fmt d (JObject ms) @ r = CHR ''{'' # ?txt" by simp
  show ?case
  proof (cases "ms = []")
    case True
    then have "skip ?txt = CHR ''}'' # r" using bl by (simp only: skip_blank skip_punct print_members.simps append_Nil)
    with True show ?thesis unfolding whole by (simp add: n parse_value_object)
  next
    case False
    then obtain k v xs where x: "ms = (k, v) # xs" by (cases ms) auto
    have sk: "cat (skip ?txt) 0 = QUOTE" 
      by (simp add: x skip_blank skip_print_string del: replicate_Suc) (simp add: print_string_ptr_def)
    have "length (CHR ''{'' # ?txt) = Suc (length ?txt)" by simp
    with 7(4) n have "3 * length ?txt + 1 < m" unfolding whole by linarith
    then have "parse_members ud m ?txt = P_Ok ms r"
      using 7(1) [of ?nl ?tabs r m] 7(2) False bl by simp
    with sk show ?thesis unfolding whole by (simp add: n parse_value_object Let_def)
  qed
next
  case (9 fd fmt d v vs)
  then obtain m where n: "n = Suc m" by (cases n) auto
  let ?sep = "if vs = [] then [] else CHR '','' # spaced fmt '' ''"
  define q where "q = ?sep @ print_elems fd fmt d vs @ CHR '']'' # r"
  have whole: "w @ print_elems fd fmt d (v # vs) @ CHR '']'' # r = w @ print_value fd fmt (Suc d) v @ q"
    by (simp add: q_def)
  have wf: "wf_json v" "list_all wf_json vs" using 9(4) by simp_all
  have q: "ends_number q" using ends_blank [of "[]"] by (simp add: q_def)
  have v: "parse_value ud m (print_value fd fmt (Suc d) v @ q) = P_Ok v q"
    using 9(1) [OF wf(1) q] 9(6) n unfolding whole by simp
  show ?case
  proof (cases "vs = []")
    case True
    with parse_elems_step(1) [OF wf(1) 9(5) v, of r] show ?thesis unfolding whole n by (simp add: q_def)
  next
    case False
    let ?p = "spaced fmt '' '' @ print_elems fd fmt d vs @ CHR '']'' # r"
    have len: "length q = Suc (length ?p)" and c: "q = CHR '','' # ?p" using False by (simp_all add: q_def)
    have "parse_elems ud m ?p = P_Ok vs r"
      using 9(2) [OF False wf(2), of "spaced fmt '' ''" r m] 9(6) n len unfolding whole by simp
    with parse_elems_step(2) [OF wf(1) 9(5) v c] show ?thesis unfolding whole n by simp
  qed
next
  case (11 fd fmt d kv ms)
  then obtain m where n: "n = Suc m" by (cases n) auto
  obtain k v where kv: "kv = (k, v)" by fastforce
  let ?sep = "if ms = [] then [] else '',''"
  define q where "q = ?sep @ spaced fmt [CHR 0x0A] @ print_members fd fmt d ms @ w' @ CHR ''}'' # r"
  have whole: "w @ print_members fd fmt d (kv # ms) @ w' @ CHR ''}'' # r =
      (w @ spaced fmt (replicate d (CHR 0x09))) @ print_string_ptr k @ CHR '':'' # spaced fmt [CHR 0x09] @ print_value fd fmt d v @ q"
    by (simp add: q_def kv)
  have wf: "wf_json v" "is_cstr k" "list_all (\<lambda>kv. is_cstr (fst kv) \<and> wf_json (snd kv)) ms" using 11(4) by (simp_all add: kv)
  have bl: "blank (w @ spaced fmt (replicate d (CHR 0x09)))" "blank (spaced fmt [CHR 0x09])" using 11(5) by simp_all
  have q: "ends_number q"
    using ends_blank [of "[]"] ends_blank [of "spaced fmt [CHR 0x0A] @ w'"] 11(6) by (simp add: q_def)
  have v: "parse_value ud m (print_value fd fmt d v @ q) = P_Ok v q"
    using 11(1) [of q m] wf(1) q 11(7) n kv unfolding whole by simp
  show ?case
  proof (cases "ms = []")
    case True
    then have "skip q = CHR ''}'' # r" using 11(6) by (simp add: q_def skip_blank)
    with parse_members_step(1) [OF wf(1,2) bl v] show ?thesis unfolding whole n by (simp add: True kv)
  next
    case False
    let ?p = "spaced fmt [CHR 0x0A] @ print_members fd fmt d ms @ w' @ CHR ''}'' # r"
    have len: "length q = Suc (length ?p)" and c: "skip q = CHR '','' # ?p" using False by (simp_all add: q_def)
    have "parse_members ud m ?p = P_Ok ms r"
      using 11(2) [OF False wf(3), of "spaced fmt [CHR 0x0A]" w' r m] 11(6,7) n len unfolding whole by simp
    with parse_members_step(2) [OF wf(1,2) bl v c] show ?thesis unfolding whole n by (simp add: kv)
  qed
qed ((rule parse_print_scalar, (simp; fail)+)[1] | (simp; fail))+

section \<open>Children of a node\<close>

text \<open>
  The chain of children, with the name of each (\<open>NULL\<close> in an array): what the access functions
  walk along. An index is an \<open>int\<close>; a negative one is taken as 0 by the loops.
\<close>

type_synonym child = "string option \<times> json"

definition children :: "json \<Rightarrow> child list" where
  "children j = (case j of
     JArray vs \<Rightarrow> map (\<lambda>v. (None, v)) vs | JObject ms \<Rightarrow> map (\<lambda>kv. (Some (fst kv), snd kv)) ms | _ \<Rightarrow> [])"

definition cJSON_strcasecmp :: "string option \<Rightarrow> string option \<Rightarrow> bool" where
  "cJSON_strcasecmp s1 s2 = (case s1 of
     None \<Rightarrow> s2 \<noteq> None | Some a \<Rightarrow> (case s2 of None \<Rightarrow> True | Some b \<Rightarrow> \<not> strcaseeq a b))"

definition cJSON_GetArraySize :: "json \<Rightarrow> nat" where
  "cJSON_GetArraySize j = length (children j)"

definition cJSON_GetArrayItem :: "json \<Rightarrow> int \<Rightarrow> json option" where
  "cJSON_GetArrayItem j item =
     (if nat item < length (children j) then Some (snd (children j ! nat item)) else None)"

definition cJSON_GetObjectItem :: "json \<Rightarrow> string \<Rightarrow> json option" where
  "cJSON_GetObjectItem j name =
     map_option snd (List.find (\<lambda>c. \<not> cJSON_strcasecmp (fst c) (Some name)) (children j))"

definition cJSON_AddItemToArray :: "child list \<Rightarrow> child option \<Rightarrow> child list" where
  "cJSON_AddItemToArray cs item = (case item of None \<Rightarrow> cs | Some x \<Rightarrow> cs @ [x])"

definition cJSON_AddItemToObject :: "child list \<Rightarrow> string \<Rightarrow> json option \<Rightarrow> child list" where
  "cJSON_AddItemToObject cs name item = cJSON_AddItemToArray cs (map_option (\<lambda>v. (Some name, v)) item)"

definition cJSON_DetachItemFromArray :: "child list \<Rightarrow> int \<Rightarrow> child option \<times> child list" where
  "cJSON_DetachItemFromArray cs which =
     (let k = nat which in
      if k < length cs then (Some (cs ! k), take k cs @ drop (Suc k) cs) else (None, cs))"

fun child_index :: "child list \<Rightarrow> string \<Rightarrow> nat option" where
  "child_index [] name = None"
| "child_index (c # cs) name =
     (if cJSON_strcasecmp (fst c) (Some name) then map_option Suc (child_index cs name) else Some 0)"

definition cJSON_DetachItemFromObject :: "child list \<Rightarrow> string \<Rightarrow> child option \<times> child list" where
  "cJSON_DetachItemFromObject cs name =
     (case child_index cs name of None \<Rightarrow> (None, cs) | Some i \<Rightarrow> cJSON_DetachItemFromArray cs (int i))"

definition cJSON_ReplaceItemInArray :: "child list \<Rightarrow> int \<Rightarrow> child \<Rightarrow> child list" where
  "cJSON_ReplaceItemInArray cs which item =
     (let k = nat which in if k < length cs then cs[k := item] else cs)"

definition cJSON_ReplaceItemInObject :: "child list \<Rightarrow> string \<Rightarrow> json \<Rightarrow> child list" where
  "cJSON_ReplaceItemInObject cs name v =
     (case child_index cs name of None \<Rightarrow> cs | Some i \<Rightarrow> cJSON_ReplaceItemInArray cs (int i) (Some name, v))"

lemma child_index_Some:
  "child_index cs name = Some i \<Longrightarrow>
     i < length cs \<and> \<not> cJSON_strcasecmp (fst (cs ! i)) (Some name) \<and>
     list_all (\<lambda>c. cJSON_strcasecmp (fst c) (Some name)) (take i cs)"
  by (induction cs name arbitrary: i rule: child_index.induct) (auto split: if_splits)

lemma child_index_None: "child_index cs name = None \<longleftrightarrow> list_all (\<lambda>c. cJSON_strcasecmp (fst c) (Some name)) cs"
  by (induction cs name rule: child_index.induct) auto

lemma find_child_index:
  "List.find (\<lambda>c. \<not> cJSON_strcasecmp (fst c) (Some name)) cs = map_option ((!) cs) (child_index cs name)"
  by (induction cs name rule: child_index.induct) (auto simp: option.map_comp comp_def)

lemma strcasecmp_refl [simp]: "\<not> cJSON_strcasecmp (Some s) (Some s)"
  by (simp add: cJSON_strcasecmp_def strcaseeq_def)

section \<open>Properties\<close>

lemma parse_printed: "wf_json v \<Longrightarrow> cJSON_Parse ud (print_value fd fmt 0 v) = P_Ok v []"
  using parse_print(1) [of v "[]" fd fmt 0 "parse_fuel (print_value fd fmt 0 v)" ud]
    skip_print_value [of v fd fmt 0 "[]"]
  by (simp add: cJSON_Parse_def parse_fuel_def ends_number_def cat_def is_digit_c_def uchar_def)

text \<open>
  C7: what \<open>cJSON_Print\<close> and \<open>cJSON_PrintUnformatted\<close> write, \<open>cJSON_Parse\<close> reads back as the same
  tree and to the last character: for every tree whose numbers are integers of the range of
  \<open>int\<close> and whose strings are C strings, control characters, quotes and backslashes included.
\<close>

theorem json_print_parse:
  assumes "wf_json v"
  shows "cJSON_Parse ud (cJSON_PrintUnformatted fd v) = P_Ok v [] \<and> cJSON_Parse ud (cJSON_Print fd v) = P_Ok v []"
  using parse_printed [OF assms] by (simp add: cJSON_PrintUnformatted_def cJSON_Print_def)

theorem json_print_parse_witness:
  "cJSON_Parse (\<lambda>_. 0) (cJSON_Print (\<lambda>_ _. []) (JObject [([QUOTE, CHR 0x01], JArray [JNumber (-120) 0, JNull, JObject []])]))
     = P_Ok (JObject [([QUOTE, CHR 0x01], JArray [JNumber (-120) 0, JNull, JObject []])]) []"
  by (rule json_print_parse [THEN conjunct2]) (simp add: is_cstr_def)

text \<open>
  C8: \<open>cJSON_Parse\<close> always returns: the fuel its length gives is enough for every text. On a text
  whose escapes are complete it stays inside its blocks and inside the text, whatever
  \<open>sscanf\<close> does, and either fails or returns a tree and has moved forward.
\<close>

theorem json_parse_safe:
  "cJSON_Parse ud s \<noteq> P_Fuel \<and>
   (escapes_ok s \<longrightarrow> cJSON_Parse ud s = P_Fail \<or> (\<exists>v r. cJSON_Parse ud s = P_Ok v r \<and> strict_suffix r s))"
proof (intro conjI impI)
  show "cJSON_Parse ud s \<noteq> P_Fuel" using cJSON_Parse_good [of False s ud] by (auto simp: good_def)
  assume "escapes_ok s"
  then have g: "good True (cJSON_Parse ud s)" using cJSON_Parse_good by blast
  show "cJSON_Parse ud s = P_Fail \<or> (\<exists>v r. cJSON_Parse ud s = P_Ok v r \<and> strict_suffix r s)"
  proof (cases "cJSON_Parse ud s")
    case (P_Ok v r)
    then have "strict_suffix r (skip s)" using parse_value_rest by (simp add: cJSON_Parse_def)
    with P_Ok show ?thesis using suffix_skip suffix_order.less_le_trans by blast
  qed (use g in auto)
qed

theorem json_parse_safe_witness:
  "cJSON_Parse (\<lambda>_. 7) ''{,}'' = P_Fail \<or> (\<exists>v r. cJSON_Parse (\<lambda>_. 7) ''{,}'' = P_Ok v r \<and> strict_suffix r ''{,}'')"
  by (rule json_parse_safe [THEN conjunct2, THEN mp]) simp

lemma copy_overflow:
  "QUOTE \<notin> set w \<Longrightarrow> BSLASH \<notin> set w \<Longrightarrow> cap \<le> length out + length w \<Longrightarrow>
   copy_string ud cap out (w @ QUOTE # r) = P_Oob"
  by (induction w arbitrary: out) (auto simp: copy_string_quote copy_string_plain)

lemma unicode_overflow:
  assumes "length h = 3" "QUOTE \<notin> set w" "BSLASH \<notin> set w" "2 \<le> length w"
  shows "copy_string ud 2 [] (BSLASH # CHR ''u'' # QUOTE # h @ w @ QUOTE # r) = P_Oob"
proof -
  let ?q = "QUOTE # h @ w @ QUOTE # r"
  have d: "drop 4 ?q = w @ QUOTE # r" using assms(1) by simp
  have "take 2 (w @ QUOTE # r) \<noteq> [BSLASH, CHR ''u'']" using assms(3,4) by (cases w) auto
  then have "unicode_step ud ?q \<in> {Some ([], 4), Some (utf8 (scan4x ud ?q), 4)}"
    using assms(1) unfolding unicode_step_def Let_def d by simp
  then obtain bs where bs: "unicode_step ud ?q = Some (bs, 4)" by auto
  have "copy_string ud 2 bs (drop 4 ?q) = P_Oob"
    unfolding d using assms by (intro copy_overflow) auto
  with bs show ?thesis by (simp add: copy_string_unicode)
qed

lemma parse_string_overflow:
  "length h = 3 \<Longrightarrow> QUOTE \<notin> set w \<Longrightarrow> BSLASH \<notin> set w \<Longrightarrow> 2 \<le> length w \<Longrightarrow>
   parse_string ud (QUOTE # BSLASH # CHR ''u'' # QUOTE # h @ w @ QUOTE # r) = P_Oob"
  using unicode_overflow [of h w ud r] by (simp add: parse_string_def eval_nat_numeral)

lemma cJSON_Parse_object_key:
  assumes "parse_string ud (QUOTE # s) = P_Oob"
  shows "cJSON_Parse ud (CHR ''{'' # QUOTE # s) = P_Oob"
proof -
  obtain n where "parse_fuel (CHR ''{'' # QUOTE # s) = Suc (Suc (Suc n))"
    using that [of "3 * length s + 6"] by (simp add: parse_fuel_def)
  then show ?thesis
    using assms by (simp add: cJSON_Parse_def skip_cons uchar_def parse_value_object Let_def)
qed

text \<open>
  An incomplete \<open>\u\<close> directly before a closing quote makes \<open>parse_string\<close> write behind its block,
  for every behaviour of \<open>sscanf\<close>: the first loop stops at that quote, the second jumps over it
  and three more characters and copies on to the next quote. A lone backslash, or \<open>\u\<close> with
  fewer than four characters behind it, makes it read behind the terminator. An object whose
  first name is \<open>\u\<close> and whose value is a string of three plain characters or more, which any
  client can send, is enough.
\<close>

lemma json_string_overflow:
  assumes "length h = 3" "QUOTE \<notin> set w" "BSLASH \<notin> set w" "2 \<le> length w"
    and "length t < 4" "QUOTE \<notin> set t" "BSLASH \<notin> set t"
  shows "parse_string ud (QUOTE # BSLASH # CHR ''u'' # QUOTE # h @ w @ QUOTE # r) = P_Oob
    \<and> parse_string ud [QUOTE, BSLASH] = P_Oob
    \<and> parse_string ud (QUOTE # BSLASH # CHR ''u'' # t) = P_Oob
    \<and> cJSON_Parse ud (CHR ''{'' # QUOTE # BSLASH # CHR ''u'' # QUOTE # CHR '':'' # QUOTE # x # w @ QUOTE # r) = P_Oob"
proof (intro conjI)
  show "parse_string ud (QUOTE # BSLASH # CHR ''u'' # QUOTE # h @ w @ QUOTE # r) = P_Oob"
    by (rule parse_string_overflow [OF assms(1-4)])
  show "parse_string ud [QUOTE, BSLASH] = P_Oob" by (simp add: parse_string_def)
  show "parse_string ud (QUOTE # BSLASH # CHR ''u'' # t) = P_Oob"
    using assms(5) by (simp add: parse_string_def copy_string_unicode unicode_step_def split: option.split)
  show "cJSON_Parse ud (CHR ''{'' # QUOTE # BSLASH # CHR ''u'' # QUOTE # CHR '':'' # QUOTE # x # w @ QUOTE # r) = P_Oob"
    using cJSON_Parse_object_key parse_string_overflow [of "[CHR '':'', QUOTE, x]", OF _ assms(2-4)] by simp
qed

lemma json_string_overflow_witness:
  "cJSON_Parse (\<lambda>_. 0) (CHR ''{'' # QUOTE # BSLASH # CHR ''u'' # QUOTE # CHR '':'' # QUOTE # CHR ''a'' # ''bc'' @ QUOTE # ''}'') = P_Oob"
  by (rule json_string_overflow [of "''abc''" "''bc''" "[]", THEN conjunct2, THEN conjunct2, THEN conjunct2]) simp_all

lemma length_print_char:
  "length (print_char c) = (if c \<in> {QUOTE, BSLASH, CHR 0x08, CHR 0x0C, CHR 0x0A, CHR 0x0D, CHR 0x09} then 2
     else if uchar c < 32 then 6 else 1)"
  by (auto simp: print_char_def uchar_def)

lemma length_print_elems:
  "length (print_elems fd fmt d vs) + 4 < array_block fmt (map (print_value fd fmt (Suc d)) vs)"
  by (induction vs) (auto simp: array_block_def spaced_def)

lemma length_print_members:
  "length (print_members fd fmt d ms) + (if fmt then d else 0) + 7
     \<le> object_block fmt d (map (\<lambda>kv. (print_string_ptr (fst kv), print_value fd fmt d (snd kv))) ms)"
  by (induction ms) (auto simp: object_block_def spaced_def)

text \<open>
  C31: printing stays inside its blocks. The size \<open>print_string_ptr\<close> computes is exactly the length
  of its text and terminator, and the sizes \<open>print_array\<close> and \<open>print_object\<close> compute are never
  smaller than theirs, formatted or not and at every depth.
\<close>

theorem json_print_fits:
  "length (print_string_ptr s) + 1 = string_block s
   \<and> length (print_value fd fmt d (JArray vs)) + 1 \<le> array_block fmt (map (print_value fd fmt (Suc d)) vs)
   \<and> length (print_value fd fmt d (JObject ms)) + 1
       \<le> object_block fmt (Suc d) (map (\<lambda>kv. (print_string_ptr (fst kv), print_value fd fmt (Suc d) (snd kv))) ms)"
proof (intro conjI)
  show "length (print_string_ptr s) + 1 = string_block s"
    by (simp add: print_string_ptr_def string_block_def length_concat comp_def length_print_char)
  show "length (print_value fd fmt d (JArray vs)) + 1 \<le> array_block fmt (map (print_value fd fmt (Suc d)) vs)"
    using length_print_elems [of fd fmt d vs] by simp
  show "length (print_value fd fmt d (JObject ms)) + 1
       \<le> object_block fmt (Suc d) (map (\<lambda>kv. (print_string_ptr (fst kv), print_value fd fmt (Suc d) (snd kv))) ms)"
    using length_print_members [of fd fmt "Suc d" ms] by (auto simp: spaced_def)
qed

text \<open>
  A surrogate pair is put together with \<open>|\<close> where the sum is meant: from U+20000 on the code point
  that comes out is another one.
\<close>

lemma surrogate_pair_wrong:
  "unicode_step ud (''d840'' @ BSLASH # ''udc00'' @ s) = Some (utf8 0x10000, 10)"
proof -
  have "scan4x ud (''d840'' @ BSLASH # ''udc00'' @ s) = 0xD840" "scan4x ud (''dc00'' @ s) = 0xDC00"
    by (simp_all add: scan4x_def hex_val_def uchar_def)
  then show ?thesis by (simp add: unicode_step_def)
qed

end
