(* ===== verification/Web_Cache.thy ===== *)
theory Web_Cache
  imports Hash_Ids
begin

text \<open>
  The page caches of \<^verbatim>\<open>TCP_C/hash.c\<close>: per administrator (a cookie token) a list of action
  records (\<open>an_detail_wk_act_t\<close>) and a list of QQ messages (\<open>an_qq_wk_msg_t\<close>), dropped by a
  timer. Messages may also be in the chains of a table the caller supplies.

  The timers are the map of pending ones here: \<open>add_timer\<close> and \<open>del_timer\<close> on the structure
  inside the cache, whose address stands for the timer (theory \<open>Timer_Wheel\<close> models the
  wheel that implements them).

  Shown: every cache that can be found has exactly one pending timer and vice versa, the
  timeout frees the cache and everything in it, and deleting a message that is the last of
  its chain leaves the chain pointing to freed memory.
\<close>

section \<open>Records and messages\<close>

record an_detail_wk_act =
  dw_time :: u64
  dw_type :: u32
  dw_category :: u32
  dw_uid :: u32
  dw_gid :: s32
  dw_process :: string
  dw_actname :: string

definition detail_wk_zero :: an_detail_wk_act where
  "detail_wk_zero = \<lparr>dw_time = 0, dw_type = 0, dw_category = 0, dw_uid = 0, dw_gid = 0,
     dw_process = [], dw_actname = []\<rparr>"

record an_qq_wk_msg =
  qw_time :: u64
  qw_user_account :: u32
  qw_user_name :: string
  qw_obj_account :: u32
  qw_obj_name :: string
  qw_msg_num :: u32
  qw_issend :: u32
  qw_msg_len :: u32
  qw_uid :: u32
  qw_data :: string

definition qq_wk_zero :: an_qq_wk_msg where
  "qq_wk_zero = \<lparr>qw_time = 0, qw_user_account = 0, qw_user_name = [], qw_obj_account = 0,
     qw_obj_name = [], qw_msg_num = 0, qw_issend = 0, qw_msg_len = 0, qw_uid = 0, qw_data = []\<rparr>"

text \<open>The allocated records and messages, and the caller's table of message chains.\<close>

record wk_state =
  wk_acts :: "addr \<Rightarrow> an_detail_wk_act option"
  wk_msgs :: "addr \<Rightarrow> an_qq_wk_msg option"
  wk_chains :: "nat \<Rightarrow> addr list"

definition an_detail_wk_act_t_create :: "addr option \<Rightarrow> wk_state \<Rightarrow> wk_state \<times> addr option" where
  "an_detail_wk_act_t_create mem w =
     (case mem of
        None \<Rightarrow> (w, None)
      | Some a \<Rightarrow> (w\<lparr>wk_acts := (wk_acts w)(a \<mapsto> detail_wk_zero)\<rparr>, Some a))"

text \<open>\<open>list_del\<close> takes the node out of the list it is in; the list is passed along.\<close>

definition an_detail_wk_act_t_del :: "addr \<Rightarrow> addr list \<Rightarrow> wk_state \<Rightarrow> (addr list \<times> wk_state) res" where
  "an_detail_wk_act_t_del temp lst w =
     (if temp = NULL_p then Inr (lst, w)
      else if wk_acts w temp = None then Inl Use_After_Free
      else Inr (removeAll temp lst, w\<lparr>wk_acts := (wk_acts w)(temp := None)\<rparr>))"

fun detail_del_loop :: "addr list \<Rightarrow> addr list \<Rightarrow> wk_state \<Rightarrow> (addr list \<times> wk_state) res" where
  "detail_del_loop [] lst w = Inr (lst, w)"
| "detail_del_loop (a # as) lst w =
     res_bind (an_detail_wk_act_t_del a lst w) (\<lambda>(lst, w). detail_del_loop as lst w)"

definition an_detail_wk_act_t_del_list :: "addr list \<Rightarrow> wk_state \<Rightarrow> (addr list \<times> wk_state) res" where
  "an_detail_wk_act_t_del_list head w = detail_del_loop head head w"

definition an_qq_wk_msg_t_get_hash :: "u32 \<Rightarrow> nat" where
  "an_qq_wk_msg_t_get_hash qq_account = byte_sum_hash qq_account"

definition an_qq_wk_msg_t_create :: "u32 \<Rightarrow> addr option \<Rightarrow> wk_state \<Rightarrow> wk_state \<times> addr option" where
  "an_qq_wk_msg_t_create msg_len mem w =
     (case mem of
        None \<Rightarrow> (w, None)
      | Some a \<Rightarrow> (w\<lparr>wk_msgs := (wk_msgs w)(a \<mapsto> qq_wk_zero\<lparr>qw_msg_len := msg_len\<rparr>)\<rparr>, Some a))"

definition an_qq_wk_msg_t_find_by_qq_account :: "u32 \<Rightarrow> u32 \<Rightarrow> wk_state \<Rightarrow> addr option res" where
  "an_qq_wk_msg_t_find_by_qq_account qq_account uid w =
     ht_scan (\<lambda>n. qw_obj_account n = qq_account \<and> qw_uid n = uid) (wk_msgs w)
       (wk_chains w (an_qq_wk_msg_t_get_hash qq_account))"

text \<open>\<open>hash.next\<close> of a node: NULL for a node in no chain and for the last node of a chain.\<close>

definition chain_next :: "addr list \<Rightarrow> addr \<Rightarrow> addr" where
  "chain_next xs a = (case dropWhile (\<lambda>c. c \<noteq> a) xs of _ # y # _ \<Rightarrow> y | _ \<Rightarrow> NULL_p)"

definition wk_next :: "an_qq_wk_msg \<Rightarrow> addr \<Rightarrow> wk_state \<Rightarrow> addr" where
  "wk_next n a w = chain_next (wk_chains w (an_qq_wk_msg_t_get_hash (qw_obj_account n))) a"

definition an_qq_wk_msg_t_del :: "addr \<Rightarrow> addr list \<Rightarrow> wk_state \<Rightarrow> (addr list \<times> wk_state) res" where
  "an_qq_wk_msg_t_del temp lst w =
     (if temp = NULL_p then Inr (lst, w)
      else case wk_msgs w temp of
        None \<Rightarrow> Inl Use_After_Free
      | Some n \<Rightarrow>
          Inr (removeAll temp lst,
               w\<lparr>wk_chains := (if wk_next n temp w \<noteq> NULL_p
                               then (\<lambda>b. removeAll temp (wk_chains w b)) else wk_chains w),
                 wk_msgs := (wk_msgs w)(temp := None)\<rparr>))"

fun qq_del_loop :: "addr list \<Rightarrow> addr list \<Rightarrow> wk_state \<Rightarrow> (addr list \<times> wk_state) res" where
  "qq_del_loop [] lst w = Inr (lst, w)"
| "qq_del_loop (a # as) lst w =
     res_bind (an_qq_wk_msg_t_del a lst w) (\<lambda>(lst, w). qq_del_loop as lst w)"

definition an_qq_wk_msg_t_del_list :: "addr list \<Rightarrow> wk_state \<Rightarrow> (addr list \<times> wk_state) res" where
  "an_qq_wk_msg_t_del_list head w = qq_del_loop head head w"

section \<open>Caches\<close>

record an_web_cache =
  wc_token :: s32
  wc_detail_act_list :: "addr list"
  wc_qq_msg_list :: "addr list"

record cache_state =
  cs_tab :: "an_web_cache hset"
  cs_timers :: "addr \<Rightarrow> u64 option"
  cs_wk :: wk_state

abbreviation (input) COOKIE_AGEING_TIME :: u64 where "COOKIE_AGEING_TIME \<equiv> 3600"
abbreviation (input) HZ :: u64 where "HZ \<equiv> 1000"

definition an_web_cache_t_timeout :: "addr \<Rightarrow> cache_state \<Rightarrow> cache_state res" where
  "an_web_cache_t_timeout data c =
     (case hs_store (cs_tab c) data of
        None \<Rightarrow> Inl Use_After_Free
      | Some n \<Rightarrow>
          res_bind (an_detail_wk_act_t_del_list (wc_detail_act_list n) (cs_wk c)) (\<lambda>(_, w).
          res_bind (an_qq_wk_msg_t_del_list (wc_qq_msg_list n) w) (\<lambda>(_, w).
            Inr (c\<lparr>cs_tab := hs_unlink data (cs_tab c),
                   cs_timers := (cs_timers c)(data := None), cs_wk := w\<rparr>))))"

definition an_web_cache_t_create :: "s32 \<Rightarrow> u64 \<Rightarrow> addr option \<Rightarrow> cache_state \<Rightarrow> cache_state \<times> addr option" where
  "an_web_cache_t_create token jiffies mem c =
     (case mem of
        None \<Rightarrow> (c, None)
      | Some a \<Rightarrow>
          (c\<lparr>cs_timers := (cs_timers c)(a \<mapsto> jiffies + COOKIE_AGEING_TIME * HZ),
             cs_tab := hs_link (an_web_cache_t_get_hash token) a
                         \<lparr>wc_token = token, wc_detail_act_list = [], wc_qq_msg_list = []\<rparr> (cs_tab c)\<rparr>,
           Some a))"

definition an_web_cache_t_find_by_token :: "s32 \<Rightarrow> cache_state \<Rightarrow> addr option res" where
  "an_web_cache_t_find_by_token token c =
     ht_scan (\<lambda>n. wc_token n = token) (hs_store (cs_tab c))
       (hs_bucket (cs_tab c) (an_web_cache_t_get_hash token))"

definition an_web_cache_t_find_create_by_token ::
  "s32 \<Rightarrow> u64 \<Rightarrow> addr option \<Rightarrow> cache_state \<Rightarrow> (cache_state \<times> addr option) res" where
  "an_web_cache_t_find_create_by_token token jiffies mem c =
     res_bind (an_web_cache_t_find_by_token token c) (\<lambda>r.
       case r of
         None \<Rightarrow> Inr (an_web_cache_t_create token jiffies mem c)
       | Some a \<Rightarrow> Inr (c, Some a))"

section \<open>Deleting lists\<close>

lemma detail_del_loop_ok:
  assumes "distinct as" "NULL_p \<notin> set as" "\<forall>a \<in> set as. wk_acts w a \<noteq> None"
  shows "detail_del_loop as lst w
    = Inr (filter (\<lambda>a. a \<notin> set as) lst, w\<lparr>wk_acts := (\<lambda>a. if a \<in> set as then None else wk_acts w a)\<rparr>)"
  using assms
proof (induction as arbitrary: lst w)
  case Nil
  then show ?case by simp
next
  case (Cons a as)
  let ?w = "w\<lparr>wk_acts := (wk_acts w)(a := None)\<rparr>"
  have d: "an_detail_wk_act_t_del a lst w = Inr (removeAll a lst, ?w)"
    using Cons.prems by (auto simp: an_detail_wk_act_t_del_def)
  have ih: "detail_del_loop as (removeAll a lst) ?w
    = Inr (filter (\<lambda>a. a \<notin> set as) (removeAll a lst), ?w\<lparr>wk_acts := (\<lambda>a. if a \<in> set as then None else wk_acts ?w a)\<rparr>)"
    using Cons.prems by (intro Cons.IH) auto
  have "(\<lambda>c. if c \<in> set as then None else ((wk_acts w)(a := None)) c)
      = (\<lambda>c. if c \<in> set (a # as) then None else wk_acts w c)" by auto
  with d ih show ?case by (simp add: removeAll_filter conj_commute cong: if_cong)
qed

text \<open>A message list is freed completely; what happens to the chains is a separate matter.\<close>

lemma qq_del_loop_ok:
  assumes "distinct as" "NULL_p \<notin> set as" "\<forall>a \<in> set as. wk_msgs w a \<noteq> None"
  shows "\<exists>w'. qq_del_loop as lst w = Inr (filter (\<lambda>a. a \<notin> set as) lst, w')
    \<and> wk_msgs w' = (\<lambda>a. if a \<in> set as then None else wk_msgs w a) \<and> wk_acts w' = wk_acts w"
  using assms
proof (induction as arbitrary: lst w)
  case Nil
  then show ?case by auto
next
  case (Cons a as)
  then obtain n where n: "wk_msgs w a = Some n" by auto
  obtain w1 where d: "an_qq_wk_msg_t_del a lst w = Inr (removeAll a lst, w1)"
    and w1: "wk_msgs w1 = (wk_msgs w)(a := None)" "wk_acts w1 = wk_acts w"
    using n Cons.prems(2) by (auto simp: an_qq_wk_msg_t_del_def)
  have "\<exists>w'. qq_del_loop as (removeAll a lst) w1 = Inr (filter (\<lambda>a. a \<notin> set as) (removeAll a lst), w')
    \<and> wk_msgs w' = (\<lambda>a. if a \<in> set as then None else wk_msgs w1 a) \<and> wk_acts w' = wk_acts w1"
    using Cons.prems w1 by (intro Cons.IH) auto
  moreover have "(\<lambda>c. if c \<in> set as then None else wk_msgs w1 c)
      = (\<lambda>c. if c \<in> set (a # as) then None else wk_msgs w c)" using w1 by auto
  ultimately show ?case using d w1(2) by (simp add: removeAll_filter conj_commute)
qed

section \<open>The invariant of the caches\<close>

abbreviation cache_get :: "cache_state \<Rightarrow> s32 \<Rightarrow> an_web_cache option" where
  "cache_get c \<equiv> hs_get byte_sum_hash wc_token (cs_tab c)"

definition cache_linked :: "cache_state \<Rightarrow> addr set" where
  "cache_linked c = (\<Union>b. set (hs_bucket (cs_tab c) b))"

definition cache_contents_ok :: "wk_state \<Rightarrow> an_web_cache \<Rightarrow> bool" where
  "cache_contents_ok w n \<longleftrightarrow>
     distinct (wc_detail_act_list n) \<and> NULL_p \<notin> set (wc_detail_act_list n)
     \<and> distinct (wc_qq_msg_list n) \<and> NULL_p \<notin> set (wc_qq_msg_list n)
     \<and> (\<forall>a \<in> set (wc_detail_act_list n). wk_acts w a \<noteq> None)
     \<and> (\<forall>a \<in> set (wc_qq_msg_list n). wk_msgs w a \<noteq> None)"

definition cache_disjoint :: "an_web_cache hset \<Rightarrow> addr set \<Rightarrow> bool" where
  "cache_disjoint t L \<longleftrightarrow> (\<forall>a \<in> L. \<forall>b \<in> L. a \<noteq> b \<longrightarrow>
     set (wc_detail_act_list (the (hs_store t a))) \<inter> set (wc_detail_act_list (the (hs_store t b))) = {}
     \<and> set (wc_qq_msg_list (the (hs_store t a))) \<inter> set (wc_qq_msg_list (the (hs_store t b))) = {})"

definition cache_inv :: "cache_state \<Rightarrow> bool" where
  "cache_inv c \<longleftrightarrow> hs_ok byte_sum_hash wc_token (cs_tab c)
     \<and> (\<forall>a. cs_timers c a \<noteq> None \<longleftrightarrow> a \<in> cache_linked c)
     \<and> (\<forall>a \<in> cache_linked c. cache_contents_ok (cs_wk c) (the (hs_store (cs_tab c) a)))
     \<and> cache_disjoint (cs_tab c) (cache_linked c)"

lemma cache_linked_alloc:
  assumes "cache_inv c" "a \<in> cache_linked c"
  obtains n where "hs_store (cs_tab c) a = Some n" "a \<in> set (hs_bucket (cs_tab c) (byte_sum_hash (wc_token n)))"
proof -
  from assms(2) obtain b where b: "a \<in> set (hs_bucket (cs_tab c) b)" by (auto simp: cache_linked_def)
  have "chain_ok byte_sum_hash wc_token (hs_store (cs_tab c)) b (hs_bucket (cs_tab c) b)"
    using assms(1) by (auto simp: cache_inv_def dest: hs_okD)
  with b that show thesis by (auto simp: chain_ok_def)
qed

lemma cache_timeout_ok:
  assumes inv: "cache_inv c" and a: "a \<in> cache_linked c"
  shows "\<exists>c' n. hs_store (cs_tab c) a = Some n \<and> an_web_cache_t_timeout a c = Inr c' \<and> cache_inv c'
    \<and> cache_get c' = (cache_get c)(wc_token n := None) \<and> cs_timers c' = (cs_timers c)(a := None)
    \<and> wk_acts (cs_wk c') = (\<lambda>x. if x \<in> set (wc_detail_act_list n) then None else wk_acts (cs_wk c) x)
    \<and> wk_msgs (cs_wk c') = (\<lambda>x. if x \<in> set (wc_qq_msg_list n) then None else wk_msgs (cs_wk c) x)"
proof -
  from cache_linked_alloc [OF inv a] obtain n where n: "hs_store (cs_tab c) a = Some n"
    "a \<in> set (hs_bucket (cs_tab c) (byte_sum_hash (wc_token n)))" .
  have ok: "hs_ok byte_sum_hash wc_token (cs_tab c)" using inv by (simp add: cache_inv_def)
  have cn: "cache_contents_ok (cs_wk c) n" using inv a n by (auto simp: cache_inv_def)
  let ?w1 = "(cs_wk c)\<lparr>wk_acts := (\<lambda>x. if x \<in> set (wc_detail_act_list n) then None else wk_acts (cs_wk c) x)\<rparr>"
  have d: "an_detail_wk_act_t_del_list (wc_detail_act_list n) (cs_wk c) = Inr ([], ?w1)"
    using detail_del_loop_ok [of "wc_detail_act_list n" "cs_wk c" "wc_detail_act_list n"] cn
    by (simp add: an_detail_wk_act_t_del_list_def cache_contents_ok_def)
  obtain w2 where q: "an_qq_wk_msg_t_del_list (wc_qq_msg_list n) ?w1 = Inr ([], w2)"
    and w2: "wk_msgs w2 = (\<lambda>x. if x \<in> set (wc_qq_msg_list n) then None else wk_msgs (cs_wk c) x)"
    "wk_acts w2 = wk_acts ?w1"
    using qq_del_loop_ok [of "wc_qq_msg_list n" ?w1 "wc_qq_msg_list n"] cn
    by (auto simp: an_qq_wk_msg_t_del_list_def cache_contents_ok_def cong: if_cong)
  let ?c = "c\<lparr>cs_tab := hs_unlink a (cs_tab c), cs_timers := (cs_timers c)(a := None), cs_wk := w2\<rparr>"
  have L: "cache_linked ?c = cache_linked c - {a}" by (auto simp: cache_linked_def)
  have ct: "cache_contents_ok w2 (the (hs_store (cs_tab c) b))" if "b \<in> cache_linked c" "b \<noteq> a" for b
  proof -
    have "cache_contents_ok (cs_wk c) (the (hs_store (cs_tab c) b))" using inv that(1) by (auto simp: cache_inv_def)
    moreover have "set (wc_detail_act_list n) \<inter> set (wc_detail_act_list (the (hs_store (cs_tab c) b))) = {}"
      "set (wc_qq_msg_list n) \<inter> set (wc_qq_msg_list (the (hs_store (cs_tab c) b))) = {}"
      using inv a that n(1) unfolding cache_inv_def cache_disjoint_def by (metis option.sel)+
    ultimately show ?thesis using w2 by (auto simp: cache_contents_ok_def)
  qed
  have "cache_inv ?c"
    unfolding cache_inv_def L
    using inv hs_ok_unlink [OF ok] ct by (auto simp: cache_inv_def cache_disjoint_def)
  moreover have "an_web_cache_t_timeout a c = Inr ?c"
    unfolding an_web_cache_t_timeout_def n(1) d q option.case res_bind_simps prod.case by simp
  moreover have "cache_get ?c = (cache_get c)(wc_token n := None)"
    using hs_get_unlink [OF ok n(2)] n(1) by simp
  ultimately show ?thesis using n(1) w2 by (intro exI [of _ ?c] exI [of _ n]) simp
qed

lemma cache_find_ok:
  assumes inv: "cache_inv c"
  shows "\<exists>r. an_web_cache_t_find_by_token token c = Inr r
     \<and> cache_get c token = map_option (\<lambda>a. the (hs_store (cs_tab c) a)) r
     \<and> (\<forall>a. r = Some a \<longrightarrow> a \<in> cache_linked c)"
proof -
  have ok: "hs_ok byte_sum_hash wc_token (cs_tab c)" using inv by (simp add: cache_inv_def)
  show ?thesis
    unfolding an_web_cache_t_find_by_token_def an_web_cache_t_get_hash_def
    by (rule hs_scan_key [OF ok, of token]) (auto simp: cache_linked_def)
qed

lemma cache_create_ok:
  assumes inv: "cache_inv c" and a: "a \<noteq> NULL_p" "hs_store (cs_tab c) a = None"
    and k: "cache_get c token = None"
  shows "\<exists>c'. an_web_cache_t_create token j (Some a) c = (c', Some a) \<and> cache_inv c' \<and> a \<in> cache_linked c'
    \<and> cs_timers c' = (cs_timers c)(a \<mapsto> j + 3600000)
    \<and> cache_get c' = (cache_get c)(token \<mapsto> \<lparr>wc_token = token, wc_detail_act_list = [], wc_qq_msg_list = []\<rparr>)"
proof -
  let ?n = "\<lparr>wc_token = token, wc_detail_act_list = [], wc_qq_msg_list = []\<rparr>"
  let ?t = "hs_link (byte_sum_hash token) a ?n (cs_tab c)"
  let ?c = "c\<lparr>cs_timers := (cs_timers c)(a \<mapsto> j + 3600000), cs_tab := ?t\<rparr>"
  have ok: "hs_ok byte_sum_hash wc_token (cs_tab c)" using inv by (simp add: cache_inv_def)
  have L: "cache_linked ?c = insert a (cache_linked c)" by (auto simp: cache_linked_def split: if_splits)
  have f: "a \<notin> cache_linked c" using hs_ok_fresh [OF ok a(2)] by (auto simp: cache_linked_def)
  have "hs_ok byte_sum_hash wc_token ?t" using hs_ok_link [OF ok a, of ?n] k by simp
  then have "cache_inv ?c"
    unfolding cache_inv_def L using inv f
    by (auto simp: cache_inv_def cache_disjoint_def cache_contents_ok_def)
  moreover have "cache_get ?c = (cache_get c)(token \<mapsto> ?n)"
    using hs_get_link [OF ok a(2), of ?n] by simp
  ultimately show ?thesis
    using L by (simp add: an_web_cache_t_create_def an_web_cache_t_get_hash_def)
qed

lemma cache_find_create_ok:
  assumes "cache_inv c" "a \<noteq> NULL_p" "hs_store (cs_tab c) a = None"
  shows "\<exists>c' p. an_web_cache_t_find_create_by_token token j (Some a) c = Inr (c', Some p) \<and> cache_inv c'
            \<and> p \<in> cache_linked c' \<and> cs_timers c' p \<noteq> None
            \<and> cache_get c' = (cache_get c)(token \<mapsto> the (hs_store (cs_tab c') p))
            \<and> (if cache_get c token = None then p = a \<and> cs_timers c' = (cs_timers c)(a \<mapsto> j + 3600000) else c' = c)"
proof -
  obtain r where r: "an_web_cache_t_find_by_token token c = Inr r"
    "cache_get c token = map_option (\<lambda>a. the (hs_store (cs_tab c) a)) r" "\<forall>p. r = Some p \<longrightarrow> p \<in> cache_linked c"
    using cache_find_ok [OF assms(1), of token] by blast
  show ?thesis
  proof (cases r)
    case None
    with r(2) have k: "cache_get c token = None" by simp
    from cache_create_ok [OF assms k, of j] obtain c' where
      c': "an_web_cache_t_create token j (Some a) c = (c', Some a)" "cache_inv c'" "a \<in> cache_linked c'"
      "cs_timers c' = (cs_timers c)(a \<mapsto> j + 3600000)"
      "cache_get c' = (cache_get c)(token \<mapsto> \<lparr>wc_token = token, wc_detail_act_list = [], wc_qq_msg_list = []\<rparr>)"
      by blast
    have "hs_store (cs_tab c') a = Some \<lparr>wc_token = token, wc_detail_act_list = [], wc_qq_msg_list = []\<rparr>"
      using c'(1) by (auto simp: an_web_cache_t_create_def)
    with c' r(1) None k show ?thesis
      by (intro exI [of _ c'] exI [of _ a]) (simp add: an_web_cache_t_find_create_by_token_def)
  next
    case (Some p)
    have "(cache_get c)(token \<mapsto> the (hs_store (cs_tab c) p)) = cache_get c"
      using r(2) Some by (simp add: fun_upd_idem)
    moreover have "cs_timers c p \<noteq> None" using r(3) Some assms(1) by (simp add: cache_inv_def)
    ultimately show ?thesis using r Some assms(1)
      by (intro exI [of _ c] exI [of _ p]) (simp add: an_web_cache_t_find_create_by_token_def)
  qed
qed

lemma cache_refresh:
  assumes "cache_inv c" "p \<in> cache_linked c"
  shows "cache_inv (c\<lparr>cs_timers := (cs_timers c)(p \<mapsto> t)\<rparr>)"
  using assms by (auto simp: cache_inv_def cache_linked_def)

lemma chain_next_last: "chain_next (xs @ [a]) a = NULL_p" if "a \<notin> set xs"
proof -
  have "dropWhile (\<lambda>c. c \<noteq> a) (xs @ [a]) = [a]" using that by (induction xs) auto
  then show ?thesis by (simp add: chain_next_def)
qed

section \<open>Properties of the page caches\<close>

text \<open>
  C11: the life of a page cache. \<open>an_web_cache_t_find_create_by_token\<close> returns a cache that is
  found under that token and has a pending timer; it never makes a second cache for a token. The
  timeout of a cache removes exactly that cache from the table, its timer, its records and its
  messages, and touches nothing of the other caches. Both keep the invariant: caches in the
  table and pending timers correspond one to one, and no record is in two caches.
\<close>

theorem web_cache_life:
  assumes "cache_inv c" "a \<noteq> NULL_p" "hs_store (cs_tab c) a = None"
  shows "(\<exists>c' p. an_web_cache_t_find_create_by_token token j (Some a) c = Inr (c', Some p) \<and> cache_inv c'
            \<and> p \<in> cache_linked c' \<and> cs_timers c' p \<noteq> None
            \<and> cache_get c' = (cache_get c)(token \<mapsto> the (hs_store (cs_tab c') p))
            \<and> (if cache_get c token = None then p = a \<and> cs_timers c' = (cs_timers c)(a \<mapsto> j + 3600000) else c' = c))
       \<and> (\<forall>p \<in> cache_linked c. \<exists>c' n. hs_store (cs_tab c) p = Some n
            \<and> an_web_cache_t_timeout p c = Inr c' \<and> cache_inv c'
            \<and> cache_get c' = (cache_get c)(wc_token n := None) \<and> cs_timers c' = (cs_timers c)(p := None)
            \<and> wk_acts (cs_wk c') = (\<lambda>x. if x \<in> set (wc_detail_act_list n) then None else wk_acts (cs_wk c) x)
            \<and> wk_msgs (cs_wk c') = (\<lambda>x. if x \<in> set (wc_qq_msg_list n) then None else wk_msgs (cs_wk c) x))"
  using cache_find_create_ok [OF assms] cache_timeout_ok [OF assms(1)] by blast

definition no_caches :: cache_state where
  "no_caches = \<lparr>cs_tab = hs_empty, cs_timers = (\<lambda>_. None),
     cs_wk = \<lparr>wk_acts = (\<lambda>_. None), wk_msgs = (\<lambda>_. None), wk_chains = (\<lambda>_. [])\<rparr>\<rparr>"

lemma cache_inv_no_caches [simp]: "cache_inv no_caches"
  by (simp add: cache_inv_def no_caches_def cache_linked_def cache_disjoint_def)

lemma no_caches_sel [simp]: "cs_tab no_caches = hs_empty" "cs_timers no_caches a = None"
  by (simp_all add: no_caches_def)

theorem web_cache_life_witness:
  "\<exists>c'. an_web_cache_t_find_create_by_token 77 1000 (Some 9) no_caches = Inr (c', Some 9)
     \<and> cache_inv c' \<and> cs_timers c' 9 = Some 3601000"
  using web_cache_life [of no_caches 9 77 1000] by auto

text \<open>
  Deleting a cached QQ message. \<open>an_qq_wk_msg_t_del\<close> takes a message out of its chain only
  when \<open>hash.next\<close> is not NULL; for the last message of a chain it is NULL, so the freed message
  stays in the chain and the next lookup that reaches the end of that chain reads freed memory.
\<close>

lemma qq_wk_msg_del_dangles:
  assumes "wk_msgs w a = Some n" "a \<noteq> NULL_p" "a \<notin> set xs"
    and "wk_chains w (an_qq_wk_msg_t_get_hash (qw_obj_account n)) = xs @ [a]"
    and "\<forall>x \<in> set xs. \<exists>m. wk_msgs w x = Some m \<and> \<not> (qw_obj_account m = qw_obj_account n \<and> qw_uid m = uid)"
  shows "\<exists>w'. an_qq_wk_msg_t_del a lst w = Inr (removeAll a lst, w')
           \<and> wk_chains w' (an_qq_wk_msg_t_get_hash (qw_obj_account n)) = xs @ [a]
           \<and> an_qq_wk_msg_t_find_by_qq_account (qw_obj_account n) uid w' = Inl Use_After_Free"
proof -
  let ?w = "w\<lparr>wk_msgs := (wk_msgs w)(a := None)\<rparr>"
  let ?P = "\<lambda>m. qw_obj_account m = qw_obj_account n \<and> qw_uid m = uid"
  have d: "an_qq_wk_msg_t_del a lst w = Inr (removeAll a lst, ?w)"
    using assms(1,2) chain_next_last [OF assms(3)] assms(4)
    by (simp add: an_qq_wk_msg_t_del_def wk_next_def)
  have "ht_scan ?P ((wk_msgs w)(a := None)) (xs @ [a]) = Inl Use_After_Free"
    using assms(3,5) by (induction xs) auto
  with d assms(4) show ?thesis
    by (intro exI [of _ ?w]) (simp add: an_qq_wk_msg_t_find_by_qq_account_def)
qed

definition one_message :: wk_state where
  "one_message = \<lparr>wk_acts = (\<lambda>_. None), wk_msgs = [5 \<mapsto> qq_wk_zero\<lparr>qw_obj_account := 10001, qw_uid := 3\<rparr>],
     wk_chains = (\<lambda>b. if b = an_qq_wk_msg_t_get_hash 10001 then [5] else [])\<rparr>"

lemma qq_wk_msg_del_dangles_witness:
  "\<exists>w'. an_qq_wk_msg_t_del 5 [5] one_message = Inr ([], w')
     \<and> an_qq_wk_msg_t_find_by_qq_account 10001 3 w' = Inl Use_After_Free"
  using qq_wk_msg_del_dangles [of one_message 5 "qq_wk_zero\<lparr>qw_obj_account := 10001, qw_uid := 3\<rparr>" "[]" 3 "[5]"]
  by (auto simp: one_message_def)

end
