(* ===== verification/Allocator.thy ===== *)
theory Allocator
  imports CJson Web_Cache
begin

text \<open>
  \<^verbatim>\<open>TCP_C/allocator.c\<close>: a request, one JSON object of strings, becomes a task for the workers.

  The block of a task comes from \<open>wys_malloc\<close>, which clears it (theory \<open>Mem_Tracker\<close>): a member of the
  task structure that the request does not name is zero or empty. Every \<open>al_parse_*\<close> takes the
  structure as it was before and returns it changed; \<open>task_mem\<close> is the block, read as a head and as
  each of the structures of \<^verbatim>\<open>head.h\<close>, and \<open>clear_mem\<close> the cleared block. The C code passes
  \<open>valuestring\<close> on without looking at the
  type of the item: for an item that is not a string it is NULL, which is the fault
  \<open>Null_Deref\<close>. A write behind the block is \<open>Out_Of_Bounds\<close>.

  Parameters: \<open>ud\<close>, what \<open>sscanf\<close> leaves for an incomplete escape (theory \<open>CJson\<close>); the functions of
  the worker module, which is not part of the sources (\<open>wk_add_task\<close>, \<open>ww_add_or_init_*\<close>), as
  functions on a state of their own; the results of \<open>wys_malloc\<close>; the clock.
\<close>

section \<open>Decoding of URI escapes\<close>

definition check_hex :: "char \<Rightarrow> bool" where
  "check_hex c \<longleftrightarrow>
     (48 \<le> uchar c \<and> uchar c \<le> 57) \<or> (97 \<le> uchar c \<and> uchar c \<le> 102) \<or> (65 \<le> uchar c \<and> uchar c \<le> 70)"

definition hex_digit_val :: "char \<Rightarrow> nat" where
  "hex_digit_val c =
     (if 48 \<le> uchar c \<and> uchar c \<le> 57 then uchar c - 48
      else if 97 \<le> uchar c \<and> uchar c \<le> 102 then uchar c - 97 + 10
      else if 65 \<le> uchar c \<and> uchar c \<le> 70 then uchar c - 65 + 10
      else 0)"

definition hex_to_char :: "char \<Rightarrow> char \<Rightarrow> char" where
  "hex_to_char c1 c2 = char_of ((hex_digit_val c1 * 16 + hex_digit_val c2) mod 256)"

text \<open>
  \<open>__httpd_parm_do\<close> works in place on the bytes of a buffer: the inner loop moves the rest of the
  string two bytes down, the outer one goes on behind the decoded byte.
\<close>

function shift_loop :: "string \<Rightarrow> nat \<Rightarrow> nat \<Rightarrow> string res" where
  "shift_loop b p2 p =
     (if p < length b then
        (if b ! p = CHR 0x00 then Inr (b[p2 := CHR 0x00])
         else shift_loop (b[p2 := b ! p]) (Suc p2) (Suc p))
      else Inl Out_Of_Bounds)"
  by auto
termination by (relation "measure (\<lambda>(b, p2, p). length b - p)") auto

declare shift_loop.simps [simp del]

lemma shift_loop_length: "shift_loop b p2 p = Inr b' \<Longrightarrow> length b' = length b"
proof (induction b p2 p rule: shift_loop.induct)
  case (1 b p2 p)
  from 1(2) have p: "p < length b" by (subst (asm) shift_loop.simps) (simp split: if_splits)
  show ?case
  proof (cases "b ! p = CHR 0x00")
    case True
    with 1(2) p show ?thesis by (subst (asm) shift_loop.simps) auto
  next
    case False
    with 1(2) p have "shift_loop (b[p2 := b ! p]) (Suc p2) (Suc p) = Inr b'" by (subst (asm) shift_loop.simps) simp
    from 1(1) [OF p False this] show ?thesis by simp
  qed
qed

definition byte_at :: "string \<Rightarrow> nat \<Rightarrow> char" where
  "byte_at b i = (if i < length b then b ! i else CHR 0x00)"

function httpd_parm_do :: "string \<Rightarrow> nat \<Rightarrow> string res" where
  "httpd_parm_do b i =
     (if i < length b then
        (if b ! i = CHR 0x00 then Inr b
         else if b ! i = CHR ''%'' \<and> check_hex (byte_at b (i + 1)) \<and> check_hex (byte_at b (i + 2)) then
           (case shift_loop (b[i := hex_to_char (byte_at b (i + 1)) (byte_at b (i + 2))]) (i + 1) (i + 3) of
              Inl e \<Rightarrow> Inl e
            | Inr b' \<Rightarrow> httpd_parm_do b' (Suc i))
         else httpd_parm_do b (Suc i))
      else Inl Out_Of_Bounds)"
  by auto
termination
  by (relation "measure (\<lambda>(b, i). length b - i)") (auto dest: shift_loop_length)

declare httpd_parm_do.simps [simp del]

text \<open>The reference: every \<open>%\<close> followed by two hexadecimal digits is one byte.\<close>

fun uri_bytes :: "string \<Rightarrow> string" where
  "uri_bytes (c # a # b # r) =
     (if c = CHR ''%'' \<and> check_hex a \<and> check_hex b then hex_to_char a b # uri_bytes r
      else c # uri_bytes (a # b # r))"
| "uri_bytes s = s"

definition decodeURI :: "string \<Rightarrow> string" where
  "decodeURI s = (case httpd_parm_do (s @ [CHR 0x00]) 0 of Inl _ \<Rightarrow> [] | Inr b \<Rightarrow> cstr_of b)"

definition snprintf_decodeURI :: "nat \<Rightarrow> string \<Rightarrow> string" where
  "snprintf_decodeURI buf_size src_buf = snprintf_s buf_size (decodeURI src_buf)"

lemma shift_loop_moves:
  "is_cstr s \<Longrightarrow> length x = 2 \<Longrightarrow>
   \<exists>j'. shift_loop (a @ x @ s @ CHR 0x00 # j) (length a) (length a + 2) = Inr (a @ s @ CHR 0x00 # j') \<and> length j' = length j + 2"
proof (induction s arbitrary: a x)
  case Nil
  then obtain x0 x1 where x: "x = [x0, x1]" by (auto simp: length_Suc_conv numeral_2_eq_2)
  then show ?case by (subst shift_loop.simps) (simp add: nth_append list_update_append)
next
  case (Cons c s)
  then obtain x0 x1 where x: "x = [x0, x1]" by (auto simp: length_Suc_conv numeral_2_eq_2)
  have s: "is_cstr s" "c \<noteq> CHR 0x00" using Cons.prems by (auto simp: is_cstr_def)
  have "shift_loop (a @ x @ (c # s) @ CHR 0x00 # j) (length a) (length a + 2)
      = shift_loop ((a @ [c]) @ [x1, c] @ s @ CHR 0x00 # j) (length (a @ [c])) (length (a @ [c]) + 2)"
    using s(2) x by (subst shift_loop.simps) (simp add: nth_append list_update_append)
  with Cons.IH [OF s(1), of "[x1, c]" "a @ [c]"] show ?case by simp
qed

lemma check_hex_not_nul: "check_hex c \<Longrightarrow> c \<noteq> CHR 0x00"
  by (auto simp: check_hex_def uchar_def)

lemma httpd_parm_do_bytes:
  "is_cstr s \<Longrightarrow> \<exists>j'. httpd_parm_do (a @ s @ CHR 0x00 # j) (length a) = Inr (a @ uri_bytes s @ CHR 0x00 # j')
     \<and> length (a @ uri_bytes s @ CHR 0x00 # j') = length (a @ s @ CHR 0x00 # j)"
proof (induction s arbitrary: a j rule: uri_bytes.induct)
  case (1 c x y r)
  have s: "c \<noteq> CHR 0x00" "is_cstr (x # y # r)" "is_cstr r" using "1.prems" by (auto simp: is_cstr_def)
  let ?b = "a @ (c # x # y # r) @ CHR 0x00 # j"
  have n: "length a < length ?b" "?b ! length a = c" "byte_at ?b (length a + 1) = x" "byte_at ?b (length a + 2) = y"
    by (auto simp: byte_at_def nth_append)
  show ?case
  proof (cases "c = CHR ''%'' \<and> check_hex x \<and> check_hex y")
    case True
    let ?h = "hex_to_char x y"
    have u: "?b[length a := ?h] = (a @ [?h]) @ [x, y] @ r @ CHR 0x00 # j" by (simp add: list_update_append)
    obtain j1 where j1: "shift_loop ((a @ [?h]) @ [x, y] @ r @ CHR 0x00 # j) (length (a @ [?h])) (length (a @ [?h]) + 2)
        = Inr ((a @ [?h]) @ r @ CHR 0x00 # j1)" "length j1 = length j + 2"
      using shift_loop_moves [OF s(3), of "[x, y]" "a @ [?h]" j] by auto
    have three: "length a + 3 = Suc (Suc (Suc (length a)))" by simp
    have "httpd_parm_do ?b (length a) = httpd_parm_do ((a @ [?h]) @ r @ CHR 0x00 # j1) (length (a @ [?h]))"
      using n s(1) True j1(1) by (subst httpd_parm_do.simps) (simp add: u three)
    with "1.IH"(1) [OF True s(3), of "a @ [?h]" j1] True j1(2) show ?thesis by auto
  next
    case False
    have "httpd_parm_do ?b (length a) = httpd_parm_do ((a @ [c]) @ (x # y # r) @ CHR 0x00 # j) (length (a @ [c]))"
      using n s(1) False by (subst httpd_parm_do.simps) auto
    with "1.IH"(2) [OF False s(2), of "a @ [c]" j] False show ?thesis by auto
  qed
qed (subst httpd_parm_do.simps, use check_hex_not_nul in \<open>auto simp: byte_at_def nth_append is_cstr_def httpd_parm_do.simps\<close>)

section \<open>Members of a request\<close>

definition valuestring :: "json \<Rightarrow> string option" where
  "valuestring j = (case j of JString s \<Rightarrow> Some s | _ \<Rightarrow> None)"

text \<open>
  \<open>if((json_value = cJSON_GetObjectItem(json_root, key)) != NULL)\<close> and the statement on
  \<open>json_value->valuestring\<close> below it; then a row of them.
\<close>

definition on_item :: "json \<Rightarrow> string \<Rightarrow> (string \<Rightarrow> 'r \<Rightarrow> 'r) \<Rightarrow> 'r \<Rightarrow> 'r res" where
  "on_item j key f r =
     (case cJSON_GetObjectItem j key of
        None \<Rightarrow> Inr r
      | Some v \<Rightarrow> (case valuestring v of None \<Rightarrow> Inl Null_Deref | Some s \<Rightarrow> Inr (f s r)))"

fun on_items :: "json \<Rightarrow> (string \<times> (string \<Rightarrow> 'r \<Rightarrow> 'r)) list \<Rightarrow> 'r \<Rightarrow> 'r res" where
  "on_items j [] r = Inr r"
| "on_items j (kf # fs) r = res_bind (on_item j (fst kf) (snd kf) r) (on_items j fs)"

abbreviation (input) atou8 :: "string \<Rightarrow> u8" where "atou8 s \<equiv> ucast (atoi s)"
abbreviation (input) atou16 :: "string \<Rightarrow> u16" where "atou16 s \<equiv> ucast (atoi s)"
abbreviation (input) rev_time :: "string \<Rightarrow> u64" where "rev_time s \<equiv> GMT_REVERS_MASK - atoull s"

definition atoll :: "string \<Rightarrow> u64" where
  "atoll s = word_of_int (strtol10 s)"

section \<open>The task structures\<close>

record az_task_recv_user =
  us_uid :: u32
  us_remark :: string
  us_account :: string
  us_password :: string
  us_old_gid :: s32
  us_new_gid :: s32
  us_bind :: u8

record az_task_recv_file =
  fi_old_gid :: s32
  fi_new_gid :: s32
  fi_old_filename :: string
  fi_new_filename :: string
  fi_authority :: u32
  fi_filetype :: u8

record az_task_recv_encrypt =
  ec_gid :: s32
  ec_authority :: u32

record az_task_recv_encrypts =
  ec_group_num :: s32
  ec_data :: "az_task_recv_encrypt list"

record az_task_recv_qq =
  rq_uid :: u32
  rq_gid :: s32
  rq_qq_id :: s32
  rq_start_time :: u64
  rq_end_time :: u64
  rq_keyword :: string
  rq_page_flag :: s32

record az_task_recv_detail =
  rd_act_type :: u32
  rd_uid :: s32
  rd_gid :: s32
  rd_start_time :: u64
  rd_end_time :: u64
  rd_page_flag :: s32

record az_task_recv_calc =
  rc_uid :: u32
  rc_gid :: s32
  rc_start_time :: u64
  rc_end_time :: u64
  rc_page_flag :: s32

record az_task_recv_group =
  rg_gid :: s32
  rg_group_name :: string
  rg_record :: u8
  rg_chat :: u8
  rg_control :: u8
  rg_usb_auth :: u8
  rg_cd_auth :: u8

record az_task_recv_system =
  sy_breaktime :: string
  sy_jumpurl :: string
  sy_password :: string
  sy_start_time :: u64
  sy_end_time :: u64
  sy_t_start_time :: u64
  sy_t_end_time :: u64
  sy_work_day :: u16
  sy_login_bind :: u8

record az_task_recv_work_act =
  wa_workname :: string
  wa_process :: string
  wa_gid :: s32
  wa_worktype :: u8
  wa_old_gid :: u32

record az_task_recv_work_acts =
  ws_listcount :: s32
  ws_gid :: s32
  ws_type :: u8
  ws_describe :: string
  ws_data :: "az_task_recv_work_act list"

record az_task_recv_forbidact =
  rf_old_name :: string
  rf_new_name :: string
  rf_old_gid :: s32
  rf_new_gid :: s32
  rf_act_type :: u8
  rf_is_forbid :: u8
  rf_search_flag :: u8

record az_task_recv_warning_msg =
  wm_warning_msg :: string
  wm_error_msg :: string
  wm_warning_en :: u8
  wm_error_en :: u8

record update_info =
  ui_upgrade_url :: string
  ui_version_info :: string

section \<open>Parsing the data of a request\<close>

definition al_parse_user_data :: "json \<Rightarrow> az_task_recv_user \<Rightarrow> az_task_recv_user res" where
  "al_parse_user_data j user = on_items j
     [(''uid'', \<lambda>s u. u\<lparr>us_uid := atoi s\<rparr>),
      (''remark'', \<lambda>s u. u\<lparr>us_remark := snprintf_decodeURI 64 s\<rparr>),
      (''account'', \<lambda>s u. u\<lparr>us_account := snprintf_decodeURI 32 s\<rparr>),
      (''password'', \<lambda>s u. u\<lparr>us_password := snprintf_decodeURI 16 s\<rparr>),
      (''old_gid'', \<lambda>s u. u\<lparr>us_old_gid := atoi s\<rparr>),
      (''new_gid'', \<lambda>s u. u\<lparr>us_new_gid := atoi s\<rparr>),
      (''bind'', \<lambda>s u. u\<lparr>us_bind := atou8 s\<rparr>)] user"

definition al_parse_group_data :: "json \<Rightarrow> az_task_recv_group \<Rightarrow> az_task_recv_group res" where
  "al_parse_group_data j grp = on_items j
     [(''gid'', \<lambda>s g. g\<lparr>rg_gid := atoi s\<rparr>),
      (''group_name'', \<lambda>s g. g\<lparr>rg_group_name := snprintf_decodeURI 32 s\<rparr>),
      (''chart'', \<lambda>s g. g\<lparr>rg_chat := atou8 s\<rparr>),
      (''record'', \<lambda>s g. g\<lparr>rg_record := atou8 s\<rparr>),
      (''control'', \<lambda>s g. g\<lparr>rg_control := atou8 s\<rparr>),
      (''usb_auth'', \<lambda>s g. g\<lparr>rg_usb_auth := atou8 s\<rparr>),
      (''cd_auth'', \<lambda>s g. g\<lparr>rg_cd_auth := atou8 s\<rparr>)] grp"

abbreviation (input) AEFA_ALL :: u32 where "AEFA_ALL \<equiv> 127"

definition al_parse_file_data :: "json \<Rightarrow> az_task_recv_file \<Rightarrow> az_task_recv_file res" where
  "al_parse_file_data j file =
     res_bind (on_items j
       [(''old_gid'', \<lambda>s f. f\<lparr>fi_old_gid := atoi s\<rparr>),
        (''old_filename'', \<lambda>s f. f\<lparr>fi_old_filename := snprintf_decodeURI 256 s\<rparr>),
        (''new_gid'', \<lambda>s f. f\<lparr>fi_new_gid := atoi s\<rparr>),
        (''new_filename'', \<lambda>s f. f\<lparr>fi_new_filename := snprintf_decodeURI 256 s\<rparr>)] file) (\<lambda>file.
     res_bind (if cJSON_GetObjectItem j ''authority'' \<noteq> None
               then on_item j ''authority'' (\<lambda>s f. f\<lparr>fi_authority := bswap32 (atoi s)\<rparr>) file
               else Inr (file\<lparr>fi_authority := AEFA_ALL\<rparr>))
       (on_item j ''filetype'' (\<lambda>s f. f\<lparr>fi_filetype := atou8 s\<rparr>)))"

text \<open>
  The groups of an authority request: keys "0", "1", ... are tried until \<open>group_num\<close> of them have
  been found. When they never are, the \<open>int\<close> \<open>i\<close> overflows in \<open>i++\<close> after 2147483648 keys have been tried, which is undefined: the fault
  \<open>Signed_Overflow\<close>. \<open>room\<close> is the number of bytes of \<open>wk->data\<close>: 4 for the header, 8 for an entry.
\<close>

function encrypt_loop :: "json \<Rightarrow> nat \<Rightarrow> int \<Rightarrow> nat \<Rightarrow> az_task_recv_encrypt list \<Rightarrow> az_task_recv_encrypt list res" where
  "encrypt_loop j room group_num i enc =
     (if i < 2 ^ 31 then
        (if int (length enc) < group_num then
           (case cJSON_GetObjectItem j (dec_string i) of
              None \<Rightarrow> encrypt_loop j room group_num (Suc i) enc
            | Some v \<Rightarrow>
                (case valuestring v of
                   None \<Rightarrow> Inl Null_Deref
                 | Some s \<Rightarrow>
                     if 4 + 8 * (length enc + 1) \<le> room
                     then encrypt_loop j room group_num (Suc i)
                            (enc @ [\<lparr>ec_gid = of_nat i, ec_authority = bswap32 (atoi s)\<rparr>])
                     else Inl Out_Of_Bounds))
         else Inr enc)
      else Inl Signed_Overflow)"
  by pat_completeness auto
termination by (relation "measure (\<lambda>(j, room, g, i, enc). 2 ^ 31 - i)") auto

declare encrypt_loop.simps [simp del]

definition al_parse_encrypt_data :: "json \<Rightarrow> nat \<Rightarrow> az_task_recv_encrypts \<Rightarrow> az_task_recv_encrypts res" where
  "al_parse_encrypt_data j room enc_s =
     res_bind (on_item j ''group_num'' (\<lambda>s e. e\<lparr>ec_group_num := atoi s\<rparr>) enc_s) (\<lambda>enc_s.
     res_bind (encrypt_loop j room (sint (ec_group_num enc_s)) 0 []) (\<lambda>es. Inr (enc_s\<lparr>ec_data := es\<rparr>)))"

definition al_parse_qq_msg_data :: "json \<Rightarrow> az_task_recv_qq \<Rightarrow> az_task_recv_qq res" where
  "al_parse_qq_msg_data j qq = on_items j
     [(''uid'', \<lambda>s q. q\<lparr>rq_uid := atoi s\<rparr>),
      (''gid'', \<lambda>s q. q\<lparr>rq_gid := atoi s\<rparr>),
      (''qq_id'', \<lambda>s q. q\<lparr>rq_qq_id := atoi s\<rparr>),
      (''start_time'', \<lambda>s q. q\<lparr>rq_start_time := rev_time s\<rparr>),
      (''end_time'', \<lambda>s q. q\<lparr>rq_end_time := rev_time s\<rparr>),
      (''page_flag'', \<lambda>s q. q\<lparr>rq_page_flag := atoi s\<rparr>),
      (''keyword'', \<lambda>s q. q\<lparr>rq_keyword := snprintf_decodeURI 16 s\<rparr>)] qq"

definition al_parse_process_data :: "json \<Rightarrow> u32 \<Rightarrow> u32 res" where
  "al_parse_process_data j userid = on_item j ''uid'' (\<lambda>s _. atoi s) userid"

definition al_parse_detail_data :: "json \<Rightarrow> az_task_recv_detail \<Rightarrow> az_task_recv_detail res" where
  "al_parse_detail_data j detail = on_items j
     [(''uid'', \<lambda>s d. d\<lparr>rd_uid := atoi s\<rparr>),
      (''gid'', \<lambda>s d. d\<lparr>rd_gid := atoi s\<rparr>),
      (''act_type'', \<lambda>s d. d\<lparr>rd_act_type := atoi s\<rparr>),
      (''start_time'', \<lambda>s d. d\<lparr>rd_start_time := rev_time s\<rparr>),
      (''end_time'', \<lambda>s d. d\<lparr>rd_end_time := rev_time s\<rparr>),
      (''page_flag'', \<lambda>s d. d\<lparr>rd_page_flag := atoi s\<rparr>)] detail"

definition al_parse_calc_data :: "json \<Rightarrow> az_task_recv_calc \<Rightarrow> az_task_recv_calc res" where
  "al_parse_calc_data j calc = on_items j
     [(''uid'', \<lambda>s c. c\<lparr>rc_uid := atoi s\<rparr>),
      (''gid'', \<lambda>s c. c\<lparr>rc_gid := atoi s\<rparr>),
      (''start_time'', \<lambda>s c. c\<lparr>rc_start_time := rev_time s\<rparr>),
      (''end_time'', \<lambda>s c. c\<lparr>rc_end_time := rev_time s\<rparr>),
      (''page_flag'', \<lambda>s c. c\<lparr>rc_page_flag := atoi s\<rparr>)] calc"

text \<open>
  The rules of a work request: \<open>listcount\<close> keys are tried; a value is decoded into 1024 bytes and
  split at \<open>|\<close> into at most six pieces. The header takes 60 bytes of \<open>wk->data\<close>, a rule 96.
\<close>

definition work_entry :: "string \<Rightarrow> az_task_recv_work_act option res" where
  "work_entry s =
     (let carg = split_string (snprintf_decodeURI 1024 s) (CHR ''|'') 6 in
      if length carg < 4 then Inr None
      else if length carg = 4 then Inl Null_Deref
      else Inr (Some
        \<lparr>wa_workname = snprintf_s 48 (carg ! 4), wa_process = snprintf_s 32 (carg ! 3), wa_gid = atoi (carg ! 0),
         wa_worktype = atou8 (carg ! 2), wa_old_gid = atoi (carg ! 1)\<rparr>))"

definition work_put :: "nat \<Rightarrow> az_task_recv_work_act list \<Rightarrow> az_task_recv_work_act option \<Rightarrow> az_task_recv_work_act list res" where
  "work_put room ws e = (case e of
     None \<Rightarrow> Inr ws
   | Some w \<Rightarrow> if 60 + 96 * (length ws + 1) \<le> room then Inr (ws @ [w]) else Inl Out_Of_Bounds)"

fun work_loop :: "json \<Rightarrow> nat \<Rightarrow> nat \<Rightarrow> nat \<Rightarrow> az_task_recv_work_act list \<Rightarrow> az_task_recv_work_act list res" where
  "work_loop j room 0 i ws = Inr ws"
| "work_loop j room (Suc n) i ws =
     (case cJSON_GetObjectItem j (dec_string i) of
        None \<Rightarrow> work_loop j room n (Suc i) ws
      | Some v \<Rightarrow>
          (case valuestring v of
             None \<Rightarrow> Inl Null_Deref
           | Some s \<Rightarrow>
               res_bind (work_entry s) (\<lambda>e. res_bind (work_put room ws e) (\<lambda>ws'. work_loop j room n (Suc i) ws'))))"

definition al_parse_work_data :: "json \<Rightarrow> nat \<Rightarrow> az_task_recv_work_acts \<Rightarrow> az_task_recv_work_acts res" where
  "al_parse_work_data j room works =
     res_bind (on_items j
       [(''listcount'', \<lambda>s w. w\<lparr>ws_listcount := atoi s\<rparr>),
        (''gid'', \<lambda>s w. w\<lparr>ws_gid := atoi s\<rparr>),
        (''type'', \<lambda>s w. w\<lparr>ws_type := atou8 s\<rparr>),
        (''describe'', \<lambda>s w. w\<lparr>ws_describe := snprintf_decodeURI 48 s\<rparr>)] works) (\<lambda>works.
     res_bind (work_loop j room (nat (sint (ws_listcount works))) 0 []) (\<lambda>ws.
       Inr (works\<lparr>ws_data := ws\<rparr>)))"

definition al_parse_forbid_data :: "json \<Rightarrow> az_task_recv_forbidact \<Rightarrow> az_task_recv_forbidact res" where
  "al_parse_forbid_data j forbid = on_items j
     [(''old_name'', \<lambda>s f. f\<lparr>rf_old_name := snprintf_decodeURI 32 s\<rparr>),
      (''new_name'', \<lambda>s f. f\<lparr>rf_new_name := snprintf_decodeURI 32 s\<rparr>),
      (''old_gid'', \<lambda>s f. f\<lparr>rf_old_gid := atoi s\<rparr>),
      (''new_gid'', \<lambda>s f. f\<lparr>rf_new_gid := atoi s\<rparr>),
      (''act_type'', \<lambda>s f. f\<lparr>rf_act_type := atou8 s\<rparr>),
      (''is_forbid'', \<lambda>s f. f\<lparr>rf_is_forbid := atou8 s\<rparr>),
      (''search_flag'', \<lambda>s f. f\<lparr>rf_search_flag := atou8 s\<rparr>)] forbid"

definition al_parse_waring_data :: "json \<Rightarrow> az_task_recv_warning_msg \<Rightarrow> az_task_recv_warning_msg res" where
  "al_parse_waring_data j warning = on_items j
     [(''warning_msg'', \<lambda>s w. w\<lparr>wm_warning_msg := snprintf_decodeURI 128 s\<rparr>),
      (''error_msg'', \<lambda>s w. w\<lparr>wm_error_msg := snprintf_decodeURI 128 s\<rparr>),
      (''warning_en'', \<lambda>s w. w\<lparr>wm_warning_en := atou8 s\<rparr>),
      (''error_en'', \<lambda>s w. w\<lparr>wm_error_en := atou8 s\<rparr>)] warning"

definition al_parse_system_data :: "json \<Rightarrow> az_task_recv_system \<Rightarrow> az_task_recv_system res" where
  "al_parse_system_data j sys = on_items j
     [(''breaktime'', \<lambda>s y. y\<lparr>sy_breaktime := snprintf_decodeURI 128 s\<rparr>),
      (''jumpurl'', \<lambda>s y. y\<lparr>sy_jumpurl := snprintf_decodeURI 128 s\<rparr>),
      (''password'', \<lambda>s y. y\<lparr>sy_password := snprintf_decodeURI 16 s\<rparr>),
      (''login_bind'', \<lambda>s y. y\<lparr>sy_login_bind := atou8 s\<rparr>),
      (''start_time'', \<lambda>s y. y\<lparr>sy_start_time := atoll s\<rparr>),
      (''end_time'', \<lambda>s y. y\<lparr>sy_end_time := atoll s\<rparr>),
      (''t_start_time'', \<lambda>s y. y\<lparr>sy_t_start_time := atoll s\<rparr>),
      (''t_end_time'', \<lambda>s y. y\<lparr>sy_t_end_time := atoll s\<rparr>),
      (''work_day'', \<lambda>s y. y\<lparr>sy_work_day := atou16 s\<rparr>)] sys"

text \<open>
  The structure of a client update has 2048 bytes, \<open>version_info\<close> at offset 1024: more than the
  block has for certain. The text behind the offset has to fit into what is there.
\<close>

definition client_url :: "string \<Rightarrow> string \<Rightarrow> string \<Rightarrow> string" where
  "client_url ip port name = snprintf_s 1024 (''http://'' @ ip @ '':'' @ port @ ''/'' @ name)"

definition al_parse_client_data :: "json \<Rightarrow> nat \<Rightarrow> update_info \<Rightarrow> update_info res" where
  "al_parse_client_data j room ut =
     res_bind (on_item j ''ip'' (\<lambda>s _. snprintf_s 64 s) []) (\<lambda>ip.
     res_bind (on_item j ''port'' (\<lambda>s _. snprintf_s 8 s) []) (\<lambda>port.
     res_bind (on_item j ''txt_name'' (\<lambda>s u. u\<lparr>ui_version_info := client_url ip port s\<rparr>) ut) (\<lambda>ut'.
       if cJSON_GetObjectItem j ''txt_name'' \<noteq> None \<and> room < 1024 + length (ui_version_info ut') + 1
       then Inl Out_Of_Bounds
       else on_item j ''rar_name'' (\<lambda>s u. u\<lparr>ui_upgrade_url := client_url ip port s\<rparr>) ut')))"

definition al_parse_import_data :: "json \<Rightarrow> nat \<Rightarrow> string \<Rightarrow> string res" where
  "al_parse_import_data j room filedata =
     res_bind (on_item j ''filedata'' (\<lambda>s _. s) filedata) (\<lambda>d.
       if cJSON_GetObjectItem j ''filedata'' \<noteq> None \<and> room < length d + 1 then Inl Out_Of_Bounds else Inr d)"

section \<open>Tasks\<close>

record wk_head =
  wh_token :: s32
  wh_cmd :: u32
  wh_fd_index :: u32

datatype wk_data =
    D_None
  | D_User az_task_recv_user
  | D_Import string
  | D_Group az_task_recv_group
  | D_File az_task_recv_file
  | D_Encrypt az_task_recv_encrypts
  | D_Qq az_task_recv_qq
  | D_Detail az_task_recv_detail
  | D_Process u32
  | D_Calc az_task_recv_calc
  | D_Work az_task_recv_work_acts
  | D_Forbid az_task_recv_forbidact
  | D_Warning az_task_recv_warning_msg
  | D_System az_task_recv_system
  | D_Client update_info

record wk_task =
  wt_head :: wk_head
  wt_data :: wk_data

text \<open>What the block of a task holds, read as a head and as each of the structures.\<close>

record task_mem =
  b_head :: wk_head
  b_user :: az_task_recv_user
  b_import :: string
  b_group :: az_task_recv_group
  b_file :: az_task_recv_file
  b_encrypt :: az_task_recv_encrypts
  b_qq :: az_task_recv_qq
  b_detail :: az_task_recv_detail
  b_process :: u32
  b_calc :: az_task_recv_calc
  b_work :: az_task_recv_work_acts
  b_forbid :: az_task_recv_forbidact
  b_warning :: az_task_recv_warning_msg
  b_system :: az_task_recv_system
  b_client :: update_info

definition clear_mem :: task_mem where
  "clear_mem = \<lparr>b_head = \<lparr>wh_token = 0, wh_cmd = 0, wh_fd_index = 0\<rparr>,
     b_user = \<lparr>us_uid = 0, us_remark = [], us_account = [], us_password = [], us_old_gid = 0, us_new_gid = 0, us_bind = 0\<rparr>,
     b_import = [],
     b_group = \<lparr>rg_gid = 0, rg_group_name = [], rg_record = 0, rg_chat = 0, rg_control = 0, rg_usb_auth = 0, rg_cd_auth = 0\<rparr>,
     b_file = \<lparr>fi_old_gid = 0, fi_new_gid = 0, fi_old_filename = [], fi_new_filename = [], fi_authority = 0, fi_filetype = 0\<rparr>,
     b_encrypt = \<lparr>ec_group_num = 0, ec_data = []\<rparr>,
     b_qq = \<lparr>rq_uid = 0, rq_gid = 0, rq_qq_id = 0, rq_start_time = 0, rq_end_time = 0, rq_keyword = [], rq_page_flag = 0\<rparr>,
     b_detail = \<lparr>rd_act_type = 0, rd_uid = 0, rd_gid = 0, rd_start_time = 0, rd_end_time = 0, rd_page_flag = 0\<rparr>,
     b_process = 0,
     b_calc = \<lparr>rc_uid = 0, rc_gid = 0, rc_start_time = 0, rc_end_time = 0, rc_page_flag = 0\<rparr>,
     b_work = \<lparr>ws_listcount = 0, ws_gid = 0, ws_type = 0, ws_describe = [], ws_data = []\<rparr>,
     b_forbid = \<lparr>rf_old_name = [], rf_new_name = [], rf_old_gid = 0, rf_new_gid = 0, rf_act_type = 0, rf_is_forbid = 0, rf_search_flag = 0\<rparr>,
     b_warning = \<lparr>wm_warning_msg = [], wm_error_msg = [], wm_warning_en = 0, wm_error_en = 0\<rparr>,
     b_system = \<lparr>sy_breaktime = [], sy_jumpurl = [], sy_password = [], sy_start_time = 0, sy_end_time = 0, sy_t_start_time = 0,
       sy_t_end_time = 0, sy_work_day = 0, sy_login_bind = 0\<rparr>,
     b_client = \<lparr>ui_upgrade_url = [], ui_version_info = []\<rparr>\<rparr>"

text \<open>The worker module: the functions the allocator calls, on a state of their own.\<close>

record 'w worker =
  wk_add_task :: "wk_task \<Rightarrow> 'w \<Rightarrow> 'w"
  ww_add_or_init_qq_msg_to_list :: "'w \<Rightarrow> 'w"
  ww_add_or_init_detail_behavior_to_list :: "'w \<Rightarrow> 'w"
  ww_add_or_init_calc_behavior_to_list :: "'w \<Rightarrow> 'w"

text \<open>The cases of the switch, and the labels from \<^verbatim>\<open>cmds.h\<close> that lead to each.\<close>

datatype cmd_case =
    K_User | K_Import | K_Group | K_File | K_Auth | K_Qq | K_Detail | K_Process | K_Calc_Init | K_Calc
  | K_Work | K_Forbid | K_Warning | K_System | K_Client | K_None

definition cmd_case_of :: "u32 \<Rightarrow> cmd_case" where
  "cmd_case_of cmd =
     (if cmd \<in> set [100, 102, 101, 103, 104, 105] then K_User
      else if cmd = 107 then K_Import
      else if cmd \<in> set [200, 201, 202, 203, 204, 205] then K_Group
      else if cmd \<in> set [300, 301, 302, 303, 304] then K_File
      else if cmd \<in> set [305, 306] then K_Auth
      else if cmd \<in> set [400, 401, 402] then K_Qq
      else if cmd \<in> set [503, 504, 505, 506, 507, 508] then K_Detail
      else if cmd \<in> set [518, 519] then K_Process
      else if cmd \<in> set [509, 510, 511, 512] then K_Calc_Init
      else if cmd \<in> set [514, 515, 516, 513] then K_Calc
      else if cmd \<in> set [600, 601, 602, 603, 604, 605] then K_Work
      else if cmd \<in> set [700, 701, 702, 703, 704] then K_Forbid
      else if cmd = 800 then K_Warning
      else if cmd = 900 then K_System
      else if cmd = 950 then K_Client
      else K_None)"

definition with_data :: "('a \<Rightarrow> wk_data) \<Rightarrow> 'w \<Rightarrow> 'a res \<Rightarrow> (wk_data \<times> 'w) res" where
  "with_data k w r = res_bind r (\<lambda>x. Inr (k x, w))"

text \<open>
  \<open>K_Calc_Init\<close> falls through to \<open>K_Calc\<close> after the statistics have been brought up to date.
\<close>

definition cmd_switch :: "'w worker \<Rightarrow> u32 \<Rightarrow> json \<Rightarrow> nat \<Rightarrow> task_mem \<Rightarrow> 'w \<Rightarrow> (wk_data \<times> 'w) res" where
  "cmd_switch env cmd j room b w =
     (case cmd_case_of cmd of
        K_User \<Rightarrow> with_data D_User w (al_parse_user_data j (b_user b))
      | K_Import \<Rightarrow> with_data D_Import w (al_parse_import_data j room (b_import b))
      | K_Group \<Rightarrow> with_data D_Group w (al_parse_group_data j (b_group b))
      | K_File \<Rightarrow> with_data D_File w (al_parse_file_data j (b_file b))
      | K_Auth \<Rightarrow> with_data D_Encrypt w (al_parse_encrypt_data j room (b_encrypt b))
      | K_Qq \<Rightarrow> with_data D_Qq (ww_add_or_init_qq_msg_to_list env w) (al_parse_qq_msg_data j (b_qq b))
      | K_Detail \<Rightarrow> with_data D_Detail (ww_add_or_init_detail_behavior_to_list env w) (al_parse_detail_data j (b_detail b))
      | K_Process \<Rightarrow> with_data D_Process w (al_parse_process_data j (b_process b))
      | K_Calc_Init \<Rightarrow> with_data D_Calc (ww_add_or_init_calc_behavior_to_list env w) (al_parse_calc_data j (b_calc b))
      | K_Calc \<Rightarrow> with_data D_Calc w (al_parse_calc_data j (b_calc b))
      | K_Work \<Rightarrow> with_data D_Work w (al_parse_work_data j room (b_work b))
      | K_Forbid \<Rightarrow> with_data D_Forbid w (al_parse_forbid_data j (b_forbid b))
      | K_Warning \<Rightarrow> with_data D_Warning w (al_parse_waring_data j (b_warning b))
      | K_System \<Rightarrow> with_data D_System w (al_parse_system_data j (b_system b))
      | K_Client \<Rightarrow> with_data D_Client w (al_parse_client_data j room (b_client b))
      | K_None \<Rightarrow> Inr (D_None, w))"

text \<open>
  The state the allocator works on: the page caches, the worker module and the number of blocks
  (tasks and requests) that nobody has a pointer to any more.
\<close>

record 'w al_state =
  als_cache :: cache_state
  als_work :: 'w
  als_lost :: nat

definition lose :: "'w al_state \<Rightarrow> 'w al_state" where
  "lose s = s\<lparr>als_lost := als_lost s + 1\<rparr>"

definition plus_to_space :: "string \<Rightarrow> string" where
  "plus_to_space s = map (\<lambda>c. if c = CHR ''+'' then CHR '' '' else c) s"

definition parse_head :: "json \<Rightarrow> wk_head \<Rightarrow> wk_head res" where
  "parse_head j h = on_items j
     [(''cmd'', \<lambda>s h. h\<lparr>wh_cmd := atoi s\<rparr>), (''token'', \<lambda>s h. h\<lparr>wh_token := atoi s\<rparr>)] h"

text \<open>
  A request that has been parsed: head, page cache and its timer, data, handing over. \<open>cmem\<close> is the
  result of the allocation of a new cache.
\<close>

definition dispatch_request ::
  "'w worker \<Rightarrow> u64 \<Rightarrow> addr option \<Rightarrow> task_mem \<Rightarrow> nat \<Rightarrow> json \<Rightarrow> 'w al_state \<Rightarrow> 'w al_state res" where
  "dispatch_request env jiffies cmem b room j s =
     res_bind (parse_head j (b_head b)) (\<lambda>h.
     res_bind (an_web_cache_t_find_create_by_token (wh_token h) jiffies cmem (als_cache s)) (\<lambda>(c, p).
     case p of
       None \<Rightarrow> Inr (lose (s\<lparr>als_cache := c\<rparr>))
     | Some a \<Rightarrow>
         res_bind (cmd_switch env (wh_cmd h) j room b (als_work s)) (\<lambda>(d, w).
         Inr (s\<lparr>als_cache := c\<lparr>cs_timers := (cs_timers c)(a \<mapsto> jiffies + COOKIE_AGEING_TIME * HZ)\<rparr>,
                als_work := wk_add_task env \<lparr>wt_head = h, wt_data = d\<rparr> w\<rparr>))))"

text \<open>The parser runs on fuel, of which it has enough (theory \<open>CJson\<close>); None is the value for running out of it.\<close>

definition al_parse_value_to_wk_task ::
  "(string \<Rightarrow> nat) \<Rightarrow> 'w worker \<Rightarrow> u64 \<Rightarrow> addr option \<Rightarrow> task_mem \<Rightarrow> nat \<Rightarrow> string \<Rightarrow> 'w al_state \<Rightarrow> 'w al_state res option" where
  "al_parse_value_to_wk_task ud env jiffies cmem b room json_data s =
     (case cJSON_Parse ud (plus_to_space json_data) of
        P_Ok j _ \<Rightarrow> Some (dispatch_request env jiffies cmem b room j s)
      | P_Fail \<Rightarrow> Some (Inr (lose s))
      | P_Oob \<Rightarrow> Some (Inl Out_Of_Bounds)
      | P_Fuel \<Rightarrow> None)"

text \<open>The block the allocator fills in for a connection.\<close>

definition task_block :: "s32 \<Rightarrow> task_mem" where
  "task_block index = clear_mem\<lparr>b_head := (b_head clear_mem)\<lparr>wh_fd_index := index\<rparr>\<rparr>"

text \<open>\<open>mem\<close> is whether \<open>wys_malloc\<close> finds memory for the task.\<close>

definition al_allocate_task ::
  "(string \<Rightarrow> nat) \<Rightarrow> 'w worker \<Rightarrow> u64 \<Rightarrow> addr option \<Rightarrow> bool \<Rightarrow> string \<Rightarrow> nat \<Rightarrow> s32
   \<Rightarrow> 'w al_state \<Rightarrow> 'w al_state res option" where
  "al_allocate_task ud env jiffies cmem mem data data_len index s =
     (if \<not> mem then Some (Inr (lose s))
      else al_parse_value_to_wk_task ud env jiffies cmem (task_block index) (data_len + 1024) data s)"

section \<open>Decoding against its reference\<close>

lemma cstr_of_append: "cstr_of (s @ CHR 0x00 # t) = cstr_of s"
  by (induction s) (simp_all add: cstr_of_def)

lemma decodeURI_bytes: "is_cstr s \<Longrightarrow> decodeURI s = cstr_of (uri_bytes s)"
  using httpd_parm_do_bytes [of s "[]" "[]"] by (auto simp: decodeURI_def cstr_of_append)

lemma length_uri_bytes: "length (uri_bytes s) \<le> length s"
  by (induction s rule: uri_bytes.induct) auto

lemma length_cstr_of: "length (cstr_of s) \<le> length s"
  by (simp add: cstr_of_def length_takeWhile_le)

definition hex_upper :: "nat \<Rightarrow> char" where
  "hex_upper n = (if n < 10 then char_of (48 + n) else char_of (55 + n))"

text \<open>\<open>encodeURIComponent\<close> for a set of characters that stay as they are.\<close>

definition uri_encode :: "(char \<Rightarrow> bool) \<Rightarrow> string \<Rightarrow> string" where
  "uri_encode keep s =
     concat (map (\<lambda>c. if keep c then [c] else [CHR ''%'', hex_upper (uchar c div 16), hex_upper (uchar c mod 16)]) s)"

lemma hex_upper_ok: "n < 16 \<Longrightarrow> check_hex (hex_upper n) \<and> hex_digit_val (hex_upper n) = n"
  by (auto simp: check_hex_def hex_digit_val_def hex_upper_def uchar_def)

lemma hex_to_char_upper: "hex_to_char (hex_upper (uchar c div 16)) (hex_upper (uchar c mod 16)) = c"
proof -
  have "uchar c div 16 < 16" "uchar c mod 16 < 16" using uchar_less [of c] by linarith+
  then show ?thesis using hex_upper_ok [of "uchar c div 16"] hex_upper_ok [of "uchar c mod 16"]
    by (simp add: hex_to_char_def uchar_eq)
qed

lemma uri_bytes_keep: "c \<noteq> CHR ''%'' \<Longrightarrow> uri_bytes (c # s) = c # uri_bytes s"
  by (cases s rule: uri_bytes.cases) auto

lemma uri_bytes_encode: "\<not> keep (CHR ''%'') \<Longrightarrow> uri_bytes (uri_encode keep s) = s"
proof (induction s)
  case Nil
  show ?case by (simp add: uri_encode_def)
next
  case (Cons c s)
  have h: "check_hex (hex_upper (uchar c div 16))" "check_hex (hex_upper (uchar c mod 16))"
  proof -
    have "uchar c div 16 < 16" "uchar c mod 16 < 16" using uchar_less [of c] by linarith+
    then show "check_hex (hex_upper (uchar c div 16))" "check_hex (hex_upper (uchar c mod 16))"
      using hex_upper_ok by blast+
  qed
  show ?case
  proof (cases "keep c")
    case True
    then have "c \<noteq> CHR ''%''" using Cons.prems by auto
    with True Cons show ?thesis by (simp add: uri_encode_def uri_bytes_keep)
  next
    case False
    with Cons h show ?thesis by (simp add: uri_encode_def hex_to_char_upper)
  qed
qed

lemma is_cstr_uri_encode: "is_cstr s \<Longrightarrow> is_cstr (uri_encode keep s)"
proof -
  have "hex_upper n \<noteq> CHR 0x00" if "n < 16" for n
    using hex_upper_ok [OF that] check_hex_not_nul by auto
  moreover have "uchar c div 16 < 16" for c using uchar_less [of c] by linarith
  ultimately show "is_cstr s \<Longrightarrow> is_cstr (uri_encode keep s)"
    by (auto simp: is_cstr_def uri_encode_def dest!: sym [of "CHR 0x00"])
qed

text \<open>
  C19: decoding in place. On every buffer that holds a C string, \<open>__httpd_parm_do\<close> stays inside the
  buffer and leaves exactly the bytes of the reference definition, one for every complete escape,
  followed by a terminator; what its callers see is the part before the first NUL, never longer
  than the original. Encoding a string, whichever characters are kept, and decoding it gives the
  string again.
\<close>

theorem uri_decode_in_place:
  assumes "is_cstr s" "\<not> keep (CHR ''%'')"
  shows "(\<exists>j'. httpd_parm_do (s @ CHR 0x00 # j) 0 = Inr (uri_bytes s @ CHR 0x00 # j')
            \<and> length (uri_bytes s @ CHR 0x00 # j') = length (s @ CHR 0x00 # j))
    \<and> decodeURI s = cstr_of (uri_bytes s) \<and> length (decodeURI s) \<le> length s
    \<and> decodeURI (uri_encode keep s) = s"
proof (intro conjI)
  show "\<exists>j'. httpd_parm_do (s @ CHR 0x00 # j) 0 = Inr (uri_bytes s @ CHR 0x00 # j')
            \<and> length (uri_bytes s @ CHR 0x00 # j') = length (s @ CHR 0x00 # j)"
    using httpd_parm_do_bytes [OF assms(1), of "[]" j] by simp
  show d: "decodeURI s = cstr_of (uri_bytes s)" by (rule decodeURI_bytes [OF assms(1)])
  show "length (decodeURI s) \<le> length s"
    unfolding d using length_cstr_of length_uri_bytes le_trans by blast
  show "decodeURI (uri_encode keep s) = s"
    using assms by (simp add: decodeURI_bytes is_cstr_uri_encode uri_bytes_encode cstr_of_id)
qed

theorem uri_decode_in_place_witness: "decodeURI (uri_encode (\<lambda>c. c = CHR ''a'') ''a b'') = ''a b''"
  using uri_decode_in_place [of "''a b''" "\<lambda>c. c = CHR ''a''"] by (simp add: is_cstr_def)

section \<open>Requests of strings\<close>

definition all_strings :: "json \<Rightarrow> bool" where
  "all_strings j \<longleftrightarrow> list_all (\<lambda>c. valuestring (snd c) \<noteq> None) (children j)"

definition item_string :: "json \<Rightarrow> string \<Rightarrow> string option" where
  "item_string j key = Option.bind (cJSON_GetObjectItem j key) valuestring"

lemma GetObjectItem_child: "cJSON_GetObjectItem j key = Some v \<Longrightarrow> v \<in> snd ` set (children j)"
  by (force simp: cJSON_GetObjectItem_def dest!: find_Some_in)

lemma all_strings_item: "all_strings j \<Longrightarrow> cJSON_GetObjectItem j key = Some v \<Longrightarrow> valuestring v \<noteq> None"
  using GetObjectItem_child by (fastforce simp: all_strings_def list_all_iff)

lemma on_item_strings:
  "all_strings j \<Longrightarrow> on_item j key f r = Inr (case item_string j key of None \<Rightarrow> r | Some s \<Rightarrow> f s r)"
  using all_strings_item [of j key]
  by (auto simp: on_item_def item_string_def split: option.split)

lemma on_items_strings: "all_strings j \<Longrightarrow> \<exists>r'. on_items j fs r = Inr r'"
  by (induction fs arbitrary: r) (auto simp: on_item_strings)

lemma on_item_inv:
  "on_item j key f r = Inr r' \<Longrightarrow> P r \<Longrightarrow> (\<And>s r. P r \<Longrightarrow> P (f s r)) \<Longrightarrow> P r'"
  by (auto simp: on_item_def split: option.splits)

lemma on_items_inv:
  "on_items j fs r = Inr r' \<Longrightarrow> P r \<Longrightarrow> (\<And>kf s r. kf \<in> set fs \<Longrightarrow> P r \<Longrightarrow> P (snd kf s r)) \<Longrightarrow> P r'"
proof (induction fs arbitrary: r)
  case (Cons kf fs)
  then obtain r1 where r1: "on_item j (fst kf) (snd kf) r = Inr r1" "on_items j fs r1 = Inr r'" by auto
  then have "P r1" using Cons.prems by (metis on_item_inv list.set_intros(1))
  with r1(2) Cons show ?case by auto
qed simp

section \<open>Room in the block of a task\<close>

definition item_weight :: "(string \<times> json) list \<Rightarrow> string \<Rightarrow> nat" where
  "item_weight ms key =
     (case cJSON_GetObjectItem (JObject ms) key of None \<Rightarrow> 0 | Some v \<Rightarrow> length key + 2 + json_weight v)"

lemma strcaseeq_length: "strcaseeq a b \<Longrightarrow> length a = length b"
  unfolding strcaseeq_def by (metis length_map)

lemma GetObjectItem_Cons:
  "cJSON_GetObjectItem (JObject (kv # ms)) key =
     (if strcaseeq (fst kv) key then Some (snd kv) else cJSON_GetObjectItem (JObject ms) key)"
  by (simp add: cJSON_GetObjectItem_def children_def cJSON_strcasecmp_def)

lemma GetObjectItem_Nil: "cJSON_GetObjectItem (JObject []) key = None"
  by (simp add: cJSON_GetObjectItem_def children_def)

lemma item_weight_Cons:
  "item_weight (kv # ms) key =
     (if strcaseeq (fst kv) key then length (fst kv) + 2 + json_weight (snd kv) else item_weight ms key)"
  by (simp add: item_weight_def GetObjectItem_Cons strcaseeq_length)

lemma sum_one_match:
  "distinct (map (map c_tolower) ks) \<Longrightarrow>
   sum_list (map (\<lambda>k. if strcaseeq a k then w else g k) ks) \<le> w + sum_list (map g ks)" for w :: nat
proof (induction ks)
  case (Cons k ks)
  show ?case
  proof (cases "strcaseeq a k")
    case True
    then have "\<not> strcaseeq a k'" if "k' \<in> set ks" for k'
      using Cons.prems that by (auto simp: strcaseeq_def)
    then have "sum_list (map (\<lambda>k. if strcaseeq a k then w else g k) ks) = sum_list (map g ks)"
      by (intro arg_cong [where f = sum_list] map_cong) auto
    with True show ?thesis by simp
  next
    case False
    with Cons show ?thesis by simp
  qed
qed simp

lemma item_weights:
  "distinct (map (map c_tolower) ks) \<Longrightarrow>
   sum_list (map (item_weight ms) ks) \<le> sum_list (map (\<lambda>kv. length (fst kv) + 2 + json_weight (snd kv)) ms)"
proof (induction ms)
  case Nil
  have "item_weight [] = (\<lambda>k. 0)" by (auto simp: item_weight_def cJSON_GetObjectItem_def children_def)
  then show ?case by simp
next
  case (Cons kv ms)
  have eq: "item_weight (kv # ms) = (\<lambda>k. if strcaseeq (fst kv) k then length (fst kv) + 2 + json_weight (snd kv) else item_weight ms k)"
    by (rule ext) (rule item_weight_Cons)
  have "sum_list (map (item_weight (kv # ms)) ks)
      \<le> length (fst kv) + 2 + json_weight (snd kv) + sum_list (map (item_weight ms) ks)"
    unfolding eq by (rule sum_one_match [OF Cons.prems])
  with Cons show ?case by simp
qed

lemma found_in_object: "cJSON_GetObjectItem j key = Some v \<Longrightarrow> \<exists>ms. j = JObject ms"
proof (cases j)
  case (JArray vs)
  assume "cJSON_GetObjectItem j key = Some v"
  with JArray show ?thesis
    by (auto simp: cJSON_GetObjectItem_def children_def cJSON_strcasecmp_def find_Some_iff)
qed (auto simp: cJSON_GetObjectItem_def children_def)

lemma item_string_weight:
  "item_string (JObject ms) key = Some s \<Longrightarrow> item_weight ms key = length key + length s + 3"
  by (auto simp: item_string_def item_weight_def valuestring_def split: Option.bind_splits json.splits)

lemma item_length:
  assumes "item_string j key = Some s" shows "length key + length s + 4 \<le> json_weight j"
proof -
  obtain ms where j: "j = JObject ms" using assms found_in_object by (auto simp: item_string_def split: Option.bind_splits)
  with assms have "item_weight ms key = length key + length s + 3" by (simp add: item_string_weight)
  moreover have "item_weight ms key \<le> sum_list (map (\<lambda>kv. length (fst kv) + 2 + json_weight (snd kv)) ms)"
    using item_weights [of "[key]" ms] by simp
  ultimately show ?thesis using j by simp
qed

lemma import_fits:
  assumes "all_strings j" "json_weight j \<le> n"
  shows "\<exists>d. al_parse_import_data j (n + 1024) junk = Inr d"
proof (cases "item_string j ''filedata''")
  case None
  then have "cJSON_GetObjectItem j ''filedata'' = None"
    using all_strings_item [OF assms(1), of "''filedata''"]
    by (cases "cJSON_GetObjectItem j ''filedata''") (auto simp: item_string_def)
  with None assms(1) show ?thesis by (simp add: al_parse_import_data_def on_item_strings)
next
  case (Some s)
  with item_length [OF Some] assms show ?thesis by (simp add: al_parse_import_data_def on_item_strings)
qed

lemma length_snprintf_le: "length (snprintf_s n s) \<le> length s"
  by (simp add: snprintf_s_def)

lemma client_fits:
  assumes "all_strings j" "json_weight j \<le> n"
  shows "\<exists>d. al_parse_client_data j (n + 1024) ut = Inr d \<and>
    (length (ui_version_info ut) < 1024 \<longrightarrow> length (ui_upgrade_url ut) < 1024 \<longrightarrow>
       length (ui_version_info d) < 1024 \<and> length (ui_upgrade_url d) < 1024)"
proof -
  define ip where "ip = (case item_string j ''ip'' of None \<Rightarrow> [] | Some s \<Rightarrow> snprintf_s 64 s)"
  define port where "port = (case item_string j ''port'' of None \<Rightarrow> [] | Some s \<Rightarrow> snprintf_s 8 s)"
  define ut' where "ut' = (case item_string j ''txt_name'' of None \<Rightarrow> ut | Some s \<Rightarrow> ut\<lparr>ui_version_info := client_url ip port s\<rparr>)"
  have url: "length (client_url ip port s) < 1024" for s
    unfolding client_url_def by (rule length_snprintf_s) simp
  have fit: "1024 + length (ui_version_info ut') + 1 \<le> n + 1024" if t: "cJSON_GetObjectItem j ''txt_name'' \<noteq> None"
  proof -
    obtain v where v: "cJSON_GetObjectItem j ''txt_name'' = Some v" using t by blast
    then obtain s where s: "item_string j ''txt_name'' = Some s"
      using all_strings_item [OF assms(1)] by (auto simp: item_string_def)
    obtain ms where j: "j = JObject ms" using found_in_object [OF v] by blast
    have "item_weight ms ''ip'' + (item_weight ms ''port'' + item_weight ms ''txt_name'') + 1 \<le> json_weight j"
      using item_weights [of "[''ip'', ''port'', ''txt_name'']" ms] j by (simp add: c_tolower_def uchar_def)
    moreover have "length ip \<le> item_weight ms ''ip''"
      using item_string_weight [of ms "''ip''"] length_snprintf_le [of 64] j
      by (fastforce simp: ip_def split: option.split intro: le_trans)
    moreover have "length port \<le> item_weight ms ''port''"
      using item_string_weight [of ms "''port''"] length_snprintf_le [of 8] j
      by (fastforce simp: port_def split: option.split intro: le_trans)
    moreover have "item_weight ms ''txt_name'' = length s + 11" using item_string_weight s j by fastforce
    moreover have "length (ui_version_info ut') \<le> length ip + length port + length s + 9"
      using s length_snprintf_le [of 1024 "''http://'' @ ip @ '':'' @ port @ ''/'' @ s"]
      by (simp add: ut'_def client_url_def)
    ultimately show ?thesis using assms(2) by linarith
  qed
  have items: "on_item j ''ip'' (\<lambda>s _. snprintf_s 64 s) [] = Inr ip" "on_item j ''port'' (\<lambda>s _. snprintf_s 8 s) [] = Inr port"
    by (simp_all add: on_item_strings [OF assms(1)] ip_def port_def)
  have name: "on_item j ''txt_name'' (\<lambda>s u. u\<lparr>ui_version_info := client_url ip port s\<rparr>) ut = Inr ut'"
    by (simp add: on_item_strings [OF assms(1)] ut'_def)
  have "al_parse_client_data j (n + 1024) ut =
      Inr (case item_string j ''rar_name'' of None \<Rightarrow> ut' | Some s \<Rightarrow> ut'\<lparr>ui_upgrade_url := client_url ip port s\<rparr>)"
    using fit by (auto simp: al_parse_client_data_def items name on_item_strings [OF assms(1), of "''rar_name''"])
  moreover have "length (ui_version_info ut') < 1024" if "length (ui_version_info ut) < 1024"
    using that url by (simp add: ut'_def split: option.split)
  moreover have "ui_upgrade_url ut' = ui_upgrade_url ut" by (simp add: ut'_def split: option.split)
  ultimately show ?thesis using url by (auto split: option.split)
qed

section \<open>Well-formed task data\<close>

text \<open>Every string of a structure is terminated inside its array.\<close>

definition user_ok :: "az_task_recv_user \<Rightarrow> bool" where
  "user_ok u \<longleftrightarrow> length (us_remark u) < 64 \<and> length (us_account u) < 32 \<and> length (us_password u) < 16"

definition group_ok :: "az_task_recv_group \<Rightarrow> bool" where
  "group_ok g \<longleftrightarrow> length (rg_group_name g) < 32"

definition file_ok :: "az_task_recv_file \<Rightarrow> bool" where
  "file_ok f \<longleftrightarrow> length (fi_old_filename f) < 256 \<and> length (fi_new_filename f) < 256"

definition forbid_ok :: "az_task_recv_forbidact \<Rightarrow> bool" where
  "forbid_ok f \<longleftrightarrow> length (rf_old_name f) < 32 \<and> length (rf_new_name f) < 32"

definition warning_ok :: "az_task_recv_warning_msg \<Rightarrow> bool" where
  "warning_ok w \<longleftrightarrow> length (wm_warning_msg w) < 128 \<and> length (wm_error_msg w) < 128"

definition system_ok :: "az_task_recv_system \<Rightarrow> bool" where
  "system_ok y \<longleftrightarrow> length (sy_breaktime y) < 128 \<and> length (sy_jumpurl y) < 128 \<and> length (sy_password y) < 16"

definition client_ok :: "update_info \<Rightarrow> bool" where
  "client_ok u \<longleftrightarrow> length (ui_version_info u) < 1024 \<and> length (ui_upgrade_url u) < 1024"

definition qq_ok :: "az_task_recv_qq \<Rightarrow> bool" where
  "qq_ok q \<longleftrightarrow> length (rq_keyword q) < 16"

definition work_ok :: "az_task_recv_work_acts \<Rightarrow> bool" where
  "work_ok w \<longleftrightarrow> length (ws_describe w) < 48 \<and>
     list_all (\<lambda>a. length (wa_workname a) < 48 \<and> length (wa_process a) < 32) (ws_data w)"

fun wk_data_ok :: "wk_data \<Rightarrow> bool" where
  "wk_data_ok (D_User u) \<longleftrightarrow> user_ok u"
| "wk_data_ok (D_Group g) \<longleftrightarrow> group_ok g"
| "wk_data_ok (D_File f) \<longleftrightarrow> file_ok f"
| "wk_data_ok (D_Forbid f) \<longleftrightarrow> forbid_ok f"
| "wk_data_ok (D_Warning w) \<longleftrightarrow> warning_ok w"
| "wk_data_ok (D_System y) \<longleftrightarrow> system_ok y"
| "wk_data_ok (D_Client u) \<longleftrightarrow> client_ok u"
| "wk_data_ok (D_Qq q) \<longleftrightarrow> qq_ok q"
| "wk_data_ok (D_Work w) \<longleftrightarrow> work_ok w"
| "wk_data_ok _ \<longleftrightarrow> True"

definition mem_ok :: "task_mem \<Rightarrow> bool" where
  "mem_ok b \<longleftrightarrow> list_all wk_data_ok
     [D_User (b_user b), D_Group (b_group b), D_File (b_file b), D_Forbid (b_forbid b), D_Warning (b_warning b),
      D_System (b_system b), D_Client (b_client b), D_Qq (b_qq b)]"

lemma length_decode [simp]: "0 < n \<Longrightarrow> length (snprintf_decodeURI n s) < n"
  unfolding snprintf_decodeURI_def by (rule length_snprintf_s)

lemma on_items_ok:
  assumes "all_strings j" "P r" "\<And>kf s r. kf \<in> set fs \<Longrightarrow> P r \<Longrightarrow> P (snd kf s r)"
  shows "\<exists>r'. on_items j fs r = Inr r' \<and> P r'"
  using on_items_strings [OF assms(1), of fs r] on_items_inv [of j fs r _ P] assms(2,3) by blast

lemma user_parses: "all_strings j \<Longrightarrow> user_ok u \<Longrightarrow> \<exists>d. al_parse_user_data j u = Inr d \<and> user_ok d"
  unfolding al_parse_user_data_def by (rule on_items_ok) (auto simp: user_ok_def)

lemma group_parses: "all_strings j \<Longrightarrow> group_ok u \<Longrightarrow> \<exists>d. al_parse_group_data j u = Inr d \<and> group_ok d"
  unfolding al_parse_group_data_def by (rule on_items_ok) (auto simp: group_ok_def)

lemma qq_parses: "all_strings j \<Longrightarrow> qq_ok u \<Longrightarrow> \<exists>d. al_parse_qq_msg_data j u = Inr d \<and> qq_ok d"
  unfolding al_parse_qq_msg_data_def by (rule on_items_ok) (auto simp: qq_ok_def)

lemma forbid_parses: "all_strings j \<Longrightarrow> forbid_ok u \<Longrightarrow> \<exists>d. al_parse_forbid_data j u = Inr d \<and> forbid_ok d"
  unfolding al_parse_forbid_data_def by (rule on_items_ok) (auto simp: forbid_ok_def)

lemma warning_parses: "all_strings j \<Longrightarrow> warning_ok u \<Longrightarrow> \<exists>d. al_parse_waring_data j u = Inr d \<and> warning_ok d"
  unfolding al_parse_waring_data_def by (rule on_items_ok) (auto simp: warning_ok_def)

lemma system_parses: "all_strings j \<Longrightarrow> system_ok u \<Longrightarrow> \<exists>d. al_parse_system_data j u = Inr d \<and> system_ok d"
  unfolding al_parse_system_data_def by (rule on_items_ok) (auto simp: system_ok_def)

lemma file_parses:
  assumes "all_strings j" "file_ok u" shows "\<exists>d. al_parse_file_data j u = Inr d \<and> file_ok d"
proof -
  let ?fs = "[(''old_gid'', \<lambda>s f. f\<lparr>fi_old_gid := atoi s\<rparr>),
        (''old_filename'', \<lambda>s f. f\<lparr>fi_old_filename := snprintf_decodeURI 256 s\<rparr>),
        (''new_gid'', \<lambda>s f. f\<lparr>fi_new_gid := atoi s\<rparr>),
        (''new_filename'', \<lambda>s f. f\<lparr>fi_new_filename := snprintf_decodeURI 256 s\<rparr>)]"
  have "\<exists>d. on_items j ?fs u = Inr d \<and> file_ok d"
    using assms by (intro on_items_ok) (auto simp: file_ok_def)
  then obtain d where d: "on_items j ?fs u = Inr d" "file_ok d" by blast
  then show ?thesis
    using assms(1) by (auto simp: al_parse_file_data_def on_item_strings file_ok_def split: option.split)
qed

lemma detail_parses: "all_strings j \<Longrightarrow> \<exists>d. al_parse_detail_data j u = Inr d"
  unfolding al_parse_detail_data_def by (rule on_items_strings)

lemma calc_parses: "all_strings j \<Longrightarrow> \<exists>d. al_parse_calc_data j u = Inr d"
  unfolding al_parse_calc_data_def by (rule on_items_strings)

text \<open>
  Which state of the worker module a command leaves before the task is handed over: the lists of
  chats, records and statistics are refreshed first where the switch says so.
\<close>

definition refreshed :: "'w worker \<Rightarrow> u32 \<Rightarrow> 'w \<Rightarrow> 'w" where
  "refreshed env cmd w =
     (case cmd_case_of cmd of
        K_Qq \<Rightarrow> ww_add_or_init_qq_msg_to_list env w
      | K_Detail \<Rightarrow> ww_add_or_init_detail_behavior_to_list env w
      | K_Calc_Init \<Rightarrow> ww_add_or_init_calc_behavior_to_list env w
      | _ \<Rightarrow> w)"

lemma cmd_switch_ok:
  assumes j: "all_strings j" and n: "json_weight j \<le> n" and b: "mem_ok b"
    and c: "cmd_case_of cmd \<noteq> K_Auth" "cmd_case_of cmd \<noteq> K_Work"
  shows "\<exists>d. cmd_switch env cmd j (n + 1024) b w = Inr (d, refreshed env cmd w) \<and> wk_data_ok d"
proof -
  have ok: "user_ok (b_user b)" "group_ok (b_group b)" "file_ok (b_file b)" "forbid_ok (b_forbid b)"
    "warning_ok (b_warning b)" "system_ok (b_system b)" "client_ok (b_client b)" "qq_ok (b_qq b)"
    using b by (simp_all add: mem_ok_def)
  have client: "\<exists>d. al_parse_client_data j (n + 1024) (b_client b) = Inr d \<and> client_ok d"
    using client_fits [OF j n, of "b_client b"] ok(7) by (auto simp: client_ok_def)
  have process: "\<exists>d. al_parse_process_data j (b_process b) = Inr d"
    by (simp add: al_parse_process_data_def on_item_strings [OF j])
  show ?thesis
    using c user_parses [OF j ok(1)] group_parses [OF j ok(2)] file_parses [OF j ok(3)] forbid_parses [OF j ok(4)]
      warning_parses [OF j ok(5)] system_parses [OF j ok(6)] client qq_parses [OF j ok(8)] process
      detail_parses [OF j, of "b_detail b"] calc_parses [OF j, of "b_calc b"] import_fits [OF j n, of "b_import b"]
    by (cases "cmd_case_of cmd") (auto simp: cmd_switch_def refreshed_def with_data_def)
qed

section \<open>From a request to a task\<close>

lemma weight_plus: "cJSON_Parse ud (plus_to_space s) = P_Ok j r \<Longrightarrow> json_weight j \<le> length s"
  using cJSON_Parse_weight by (fastforce simp: plus_to_space_def)

lemma parse_head_strings:
  assumes "all_strings j"
  shows "parse_head j h = Inr (h\<lparr>wh_cmd := (case item_string j ''cmd'' of None \<Rightarrow> wh_cmd h | Some c \<Rightarrow> atoi c),
     wh_token := (case item_string j ''token'' of None \<Rightarrow> wh_token h | Some t \<Rightarrow> atoi t)\<rparr>)"
  using assms by (simp add: parse_head_def on_item_strings split: option.split)

lemma dispatch_ok:
  assumes inv: "cache_inv (als_cache s)" and a: "a \<noteq> NULL_p" "hs_store (cs_tab (als_cache s)) a = None"
    and h: "parse_head j (b_head b) = Inr h"
    and sw: "cmd_switch env (wh_cmd h) j room b (als_work s) = Inr (d, w)"
  shows "\<exists>s' p. dispatch_request env jiffies (Some a) b room j s = Inr s'
    \<and> als_work s' = wk_add_task env \<lparr>wt_head = h, wt_data = d\<rparr> w \<and> als_lost s' = als_lost s
    \<and> cache_inv (als_cache s') \<and> cache_get (als_cache s') (wh_token h) = hs_store (cs_tab (als_cache s')) p
    \<and> p \<in> cache_linked (als_cache s') \<and> cs_timers (als_cache s') p = Some (jiffies + 3600000)"
proof -
  obtain c p where f: "an_web_cache_t_find_create_by_token (wh_token h) jiffies (Some a) (als_cache s) = Inr (c, Some p)"
    "cache_inv c" "p \<in> cache_linked c" "cache_get c = (cache_get (als_cache s))(wh_token h \<mapsto> the (hs_store (cs_tab c) p))"
    using cache_find_create_ok [OF inv a, of "wh_token h" jiffies] by blast
  from cache_linked_alloc [OF f(2,3)] obtain n where n: "hs_store (cs_tab c) p = Some n" by blast
  let ?c = "c\<lparr>cs_timers := (cs_timers c)(p \<mapsto> jiffies + COOKIE_AGEING_TIME * HZ)\<rparr>"
  let ?s = "s\<lparr>als_cache := ?c, als_work := wk_add_task env \<lparr>wt_head = h, wt_data = d\<rparr> w\<rparr>"
  have "dispatch_request env jiffies (Some a) b room j s = Inr ?s"
    using h f(1) sw by (simp add: dispatch_request_def)
  moreover have "cache_inv ?c" using cache_refresh [OF f(2,3)] .
  moreover have "cache_get ?c (wh_token h) = hs_store (cs_tab ?c) p" using f(4) n by simp
  moreover have "p \<in> cache_linked ?c" using f(3) by (simp add: cache_linked_def)
  ultimately show ?thesis by (intro exI [of _ ?s] exI [of _ p]) simp
qed

lemma clear_mem_ok: "mem_ok clear_mem"
  by (simp add: mem_ok_def clear_mem_def user_ok_def group_ok_def file_ok_def forbid_ok_def warning_ok_def system_ok_def
      client_ok_def qq_ok_def)

lemma task_block_ok: "mem_ok (task_block index)"
  using clear_mem_ok by (simp add: task_block_def mem_ok_def)

lemma task_block_head: "b_head (task_block index) = \<lparr>wh_token = 0, wh_cmd = 0, wh_fd_index = index\<rparr>"
  by (simp add: task_block_def clear_mem_def)

text \<open>
  What the data of a task should be, member by member: the number or the decoded text, cut to its array, under a key of the
  request, and zero or empty where the request has no such key. Times are counted backwards.
\<close>

definition num_of :: "json \<Rightarrow> string \<Rightarrow> u32" where
  "num_of j k = (case item_string j k of None \<Rightarrow> 0 | Some s \<Rightarrow> atoi s)"

definition text_of :: "nat \<Rightarrow> json \<Rightarrow> string \<Rightarrow> string" where
  "text_of n j k = (case item_string j k of None \<Rightarrow> [] | Some s \<Rightarrow> take n (decodeURI s))"

definition back_time_of :: "json \<Rightarrow> string \<Rightarrow> u64" where
  "back_time_of j k = (case item_string j k of None \<Rightarrow> 0 | Some s \<Rightarrow> GMT_REVERS_MASK - atoull s)"

definition long_of :: "json \<Rightarrow> string \<Rightarrow> u64" where
  "long_of j k = (case item_string j k of None \<Rightarrow> 0 | Some s \<Rightarrow> atoll s)"

definition url_of :: "json \<Rightarrow> string \<Rightarrow> string" where
  "url_of j k =
     (case item_string j k of
        None \<Rightarrow> []
      | Some s \<Rightarrow> take 1023 (''http://'' @ (case item_string j ''ip'' of None \<Rightarrow> [] | Some i \<Rightarrow> take 63 i) @ '':''
                    @ (case item_string j ''port'' of None \<Rightarrow> [] | Some p \<Rightarrow> take 7 p) @ ''/'' @ s))"

fun request_data :: "cmd_case \<Rightarrow> json \<Rightarrow> wk_data" where
  "request_data K_User j = D_User \<lparr>us_uid = num_of j ''uid'', us_remark = text_of 63 j ''remark'', us_account = text_of 31 j ''account'',
     us_password = text_of 15 j ''password'', us_old_gid = num_of j ''old_gid'', us_new_gid = num_of j ''new_gid'',
     us_bind = ucast (num_of j ''bind'')\<rparr>"
| "request_data K_Import j = D_Import (case item_string j ''filedata'' of None \<Rightarrow> [] | Some s \<Rightarrow> s)"
| "request_data K_Group j = D_Group \<lparr>rg_gid = num_of j ''gid'', rg_group_name = text_of 31 j ''group_name'',
     rg_record = ucast (num_of j ''record''), rg_chat = ucast (num_of j ''chart''), rg_control = ucast (num_of j ''control''),
     rg_usb_auth = ucast (num_of j ''usb_auth''), rg_cd_auth = ucast (num_of j ''cd_auth'')\<rparr>"
| "request_data K_File j = D_File \<lparr>fi_old_gid = num_of j ''old_gid'', fi_new_gid = num_of j ''new_gid'',
     fi_old_filename = text_of 255 j ''old_filename'', fi_new_filename = text_of 255 j ''new_filename'',
     fi_authority = (if item_string j ''authority'' = None then AEFA_ALL else bswap32 (num_of j ''authority'')),
     fi_filetype = ucast (num_of j ''filetype'')\<rparr>"
| "request_data K_Qq j = D_Qq \<lparr>rq_uid = num_of j ''uid'', rq_gid = num_of j ''gid'', rq_qq_id = num_of j ''qq_id'',
     rq_start_time = back_time_of j ''start_time'', rq_end_time = back_time_of j ''end_time'', rq_keyword = text_of 15 j ''keyword'',
     rq_page_flag = num_of j ''page_flag''\<rparr>"
| "request_data K_Detail j = D_Detail \<lparr>rd_act_type = num_of j ''act_type'', rd_uid = num_of j ''uid'', rd_gid = num_of j ''gid'',
     rd_start_time = back_time_of j ''start_time'', rd_end_time = back_time_of j ''end_time'', rd_page_flag = num_of j ''page_flag''\<rparr>"
| "request_data K_Process j = D_Process (num_of j ''uid'')"
| "request_data K_Calc_Init j = D_Calc \<lparr>rc_uid = num_of j ''uid'', rc_gid = num_of j ''gid'',
     rc_start_time = back_time_of j ''start_time'', rc_end_time = back_time_of j ''end_time'', rc_page_flag = num_of j ''page_flag''\<rparr>"
| "request_data K_Calc j = D_Calc \<lparr>rc_uid = num_of j ''uid'', rc_gid = num_of j ''gid'',
     rc_start_time = back_time_of j ''start_time'', rc_end_time = back_time_of j ''end_time'', rc_page_flag = num_of j ''page_flag''\<rparr>"
| "request_data K_Forbid j = D_Forbid \<lparr>rf_old_name = text_of 31 j ''old_name'', rf_new_name = text_of 31 j ''new_name'',
     rf_old_gid = num_of j ''old_gid'', rf_new_gid = num_of j ''new_gid'', rf_act_type = ucast (num_of j ''act_type''),
     rf_is_forbid = ucast (num_of j ''is_forbid''), rf_search_flag = ucast (num_of j ''search_flag'')\<rparr>"
| "request_data K_Warning j = D_Warning \<lparr>wm_warning_msg = text_of 127 j ''warning_msg'', wm_error_msg = text_of 127 j ''error_msg'',
     wm_warning_en = ucast (num_of j ''warning_en''), wm_error_en = ucast (num_of j ''error_en'')\<rparr>"
| "request_data K_System j = D_System \<lparr>sy_breaktime = text_of 127 j ''breaktime'', sy_jumpurl = text_of 127 j ''jumpurl'',
     sy_password = text_of 15 j ''password'', sy_start_time = long_of j ''start_time'', sy_end_time = long_of j ''end_time'',
     sy_t_start_time = long_of j ''t_start_time'', sy_t_end_time = long_of j ''t_end_time'', sy_work_day = ucast (num_of j ''work_day''),
     sy_login_bind = ucast (num_of j ''login_bind'')\<rparr>"
| "request_data K_Client j = D_Client \<lparr>ui_upgrade_url = url_of j ''rar_name'', ui_version_info = url_of j ''txt_name''\<rparr>"
| "request_data _ j = D_None"

lemmas data_of = num_of_def text_of_def back_time_of_def long_of_def snprintf_decodeURI_def snprintf_s_def

lemma plain_data_as_read:
  assumes "all_strings j"
  shows "with_data D_User w (al_parse_user_data j (b_user clear_mem)) = Inr (request_data K_User j, w)"
    "with_data D_Group w (al_parse_group_data j (b_group clear_mem)) = Inr (request_data K_Group j, w)"
    "with_data D_Qq w (al_parse_qq_msg_data j (b_qq clear_mem)) = Inr (request_data K_Qq j, w)"
    "with_data D_Detail w (al_parse_detail_data j (b_detail clear_mem)) = Inr (request_data K_Detail j, w)"
    "with_data D_Calc w (al_parse_calc_data j (b_calc clear_mem)) = Inr (request_data K_Calc j, w)"
    "with_data D_Forbid w (al_parse_forbid_data j (b_forbid clear_mem)) = Inr (request_data K_Forbid j, w)"
    "with_data D_Warning w (al_parse_waring_data j (b_warning clear_mem)) = Inr (request_data K_Warning j, w)"
    "with_data D_Process w (al_parse_process_data j (b_process clear_mem)) = Inr (request_data K_Process j, w)"
  by (simp_all add: with_data_def al_parse_user_data_def al_parse_group_data_def al_parse_qq_msg_data_def al_parse_detail_data_def
      al_parse_calc_data_def al_parse_forbid_data_def al_parse_waring_data_def al_parse_process_data_def on_item_strings [OF assms]
      clear_mem_def data_of split: option.split)

lemma system_member:
  "(case x of None \<Rightarrow> r | Some s \<Rightarrow> r\<lparr>sy_breaktime := f s\<rparr>) = r\<lparr>sy_breaktime := (case x of None \<Rightarrow> sy_breaktime r | Some s \<Rightarrow> f s)\<rparr>"
  "(case x of None \<Rightarrow> r | Some s \<Rightarrow> r\<lparr>sy_jumpurl := f s\<rparr>) = r\<lparr>sy_jumpurl := (case x of None \<Rightarrow> sy_jumpurl r | Some s \<Rightarrow> f s)\<rparr>"
  "(case x of None \<Rightarrow> r | Some s \<Rightarrow> r\<lparr>sy_password := f s\<rparr>) = r\<lparr>sy_password := (case x of None \<Rightarrow> sy_password r | Some s \<Rightarrow> f s)\<rparr>"
  "(case x of None \<Rightarrow> r | Some s \<Rightarrow> r\<lparr>sy_start_time := g s\<rparr>) = r\<lparr>sy_start_time := (case x of None \<Rightarrow> sy_start_time r | Some s \<Rightarrow> g s)\<rparr>"
  "(case x of None \<Rightarrow> r | Some s \<Rightarrow> r\<lparr>sy_end_time := g s\<rparr>) = r\<lparr>sy_end_time := (case x of None \<Rightarrow> sy_end_time r | Some s \<Rightarrow> g s)\<rparr>"
  "(case x of None \<Rightarrow> r | Some s \<Rightarrow> r\<lparr>sy_t_start_time := g s\<rparr>) = r\<lparr>sy_t_start_time := (case x of None \<Rightarrow> sy_t_start_time r | Some s \<Rightarrow> g s)\<rparr>"
  "(case x of None \<Rightarrow> r | Some s \<Rightarrow> r\<lparr>sy_t_end_time := g s\<rparr>) = r\<lparr>sy_t_end_time := (case x of None \<Rightarrow> sy_t_end_time r | Some s \<Rightarrow> g s)\<rparr>"
  by (cases x; simp)+

lemma system_data_as_read:
  "all_strings j \<Longrightarrow> with_data D_System w (al_parse_system_data j (b_system clear_mem)) = Inr (request_data K_System j, w)"
  by (simp add: with_data_def al_parse_system_data_def on_item_strings system_member clear_mem_def data_of split: option.split)

lemma item_string_None: "all_strings j \<Longrightarrow> cJSON_GetObjectItem j k = None \<longleftrightarrow> item_string j k = None"
  using all_strings_item [of j k] by (cases "cJSON_GetObjectItem j k") (auto simp: item_string_def)

lemma file_data_as_read:
  "all_strings j \<Longrightarrow> with_data D_File w (al_parse_file_data j (b_file clear_mem)) = Inr (request_data K_File j, w)"
  by (simp add: with_data_def al_parse_file_data_def on_item_strings item_string_None clear_mem_def data_of split: option.split)

lemma import_data_as_read:
  "all_strings j \<Longrightarrow> with_data D_Import w (al_parse_import_data j room (b_import clear_mem)) = Inr (d, w') \<Longrightarrow> d = request_data K_Import j"
  by (auto simp add: with_data_def al_parse_import_data_def on_item_strings clear_mem_def split: if_splits option.splits)

lemma client_data_as_read:
  "all_strings j \<Longrightarrow> with_data D_Client w (al_parse_client_data j room (b_client clear_mem)) = Inr (d, w') \<Longrightarrow> d = request_data K_Client j"
  by (auto simp add: with_data_def al_parse_client_data_def on_item_strings clear_mem_def url_of_def client_url_def snprintf_s_def
      split: if_splits option.splits)

lemma data_as_read:
  assumes "all_strings j" "cmd_case_of cmd \<noteq> K_Auth" "cmd_case_of cmd \<noteq> K_Work"
    and "cmd_switch env cmd j room (task_block index) w = Inr (d, w')"
  shows "d = request_data (cmd_case_of cmd) j"
proof -
  have b: "b_user (task_block index) = b_user clear_mem" "b_import (task_block index) = b_import clear_mem"
    "b_group (task_block index) = b_group clear_mem" "b_file (task_block index) = b_file clear_mem"
    "b_qq (task_block index) = b_qq clear_mem" "b_detail (task_block index) = b_detail clear_mem"
    "b_process (task_block index) = b_process clear_mem" "b_calc (task_block index) = b_calc clear_mem"
    "b_forbid (task_block index) = b_forbid clear_mem" "b_warning (task_block index) = b_warning clear_mem"
    "b_system (task_block index) = b_system clear_mem" "b_client (task_block index) = b_client clear_mem"
    by (simp_all add: task_block_def)
  show ?thesis
    using assms(2-4) import_data_as_read [OF assms(1)] client_data_as_read [OF assms(1)]
    unfolding cmd_switch_def b
    by (cases "cmd_case_of cmd")
      (simp_all only: cmd_case.case plain_data_as_read [OF assms(1)] system_data_as_read [OF assms(1)] file_data_as_read [OF assms(1)]
        sum.inject prod.inject request_data.simps, simp_all)
qed

lemma string_request_queued:
  assumes "cache_inv (als_cache s)" "a \<noteq> NULL_p" "hs_store (cs_tab (als_cache s)) a = None"
    and "cJSON_Parse ud (plus_to_space data) = P_Ok j r" "all_strings j"
    and "item_string j ''cmd'' = Some c" "item_string j ''token'' = Some t"
    and "cmd_case_of (atoi c) \<noteq> K_Auth" "cmd_case_of (atoi c) \<noteq> K_Work"
  shows "\<exists>s' p. al_allocate_task ud env jiffies (Some a) True data (length data) index s = Some (Inr s')
    \<and> als_work s' = wk_add_task env
        \<lparr>wt_head = \<lparr>wh_token = atoi t, wh_cmd = atoi c, wh_fd_index = index\<rparr>, wt_data = request_data (cmd_case_of (atoi c)) j\<rparr>
        (refreshed env (atoi c) (als_work s))
    \<and> wk_data_ok (request_data (cmd_case_of (atoi c)) j) \<and> als_lost s' = als_lost s
    \<and> cache_inv (als_cache s') \<and> cache_get (als_cache s') (atoi t) = hs_store (cs_tab (als_cache s')) p
    \<and> p \<in> cache_linked (als_cache s') \<and> cs_timers (als_cache s') p = Some (jiffies + 3600000)"
proof -
  let ?b = "task_block index"
  let ?h = "\<lparr>wh_token = atoi t, wh_cmd = atoi c, wh_fd_index = index\<rparr>"
  have h: "parse_head j (b_head ?b) = Inr ?h" using assms(5-7) by (simp add: parse_head_strings task_block_head)
  from cmd_switch_ok [OF assms(5) weight_plus [OF assms(4)] task_block_ok [of index] assms(8,9), of env "als_work s"] obtain d where
    d: "cmd_switch env (wh_cmd ?h) j (length data + 1024) ?b (als_work s) = Inr (d, refreshed env (atoi c) (als_work s))"
      "wk_data_ok d" by auto
  have "d = request_data (cmd_case_of (atoi c)) j" using data_as_read [OF assms(5,8,9)] d(1) by simp
  with dispatch_ok [OF assms(1-3) h d(1), of jiffies] d assms(4) show ?thesis
    by (simp add: al_allocate_task_def al_parse_value_to_wk_task_def)
qed

text \<open>
  C6: requests of strings become tasks. If the text parses to an object whose
  values are strings, names a command and a token, and the command is none of those with
  lists (authorities 305 and 306, work rules 600 to 605), then \<open>al_allocate_task\<close>, given memory, hands one task to the workers, with command, token and
  connection of the request, after refreshing the lists the command needs. The data of the task is what the members of the
  request say (\<open>request_data\<close>); every string in it is terminated inside its array, and the variable parts (\<open>filedata\<close>, the update URLs) fit
  into the block. The page cache of the token exists afterwards and lives for another hour;
  nothing is lost.
\<close>

theorem request_becomes_task:
  assumes "cache_inv (als_cache s)" "a \<noteq> NULL_p" "hs_store (cs_tab (als_cache s)) a = None"
    and "cJSON_Parse ud (plus_to_space data) = P_Ok j r" "all_strings j"
    and "item_string j ''cmd'' = Some c" "item_string j ''token'' = Some t"
    and "cmd_case_of (atoi c) \<noteq> K_Auth" "cmd_case_of (atoi c) \<noteq> K_Work"
  shows "\<exists>s' p. al_allocate_task ud env jiffies (Some a) True data (length data) index s = Some (Inr s')
    \<and> als_work s' = wk_add_task env
        \<lparr>wt_head = \<lparr>wh_token = atoi t, wh_cmd = atoi c, wh_fd_index = index\<rparr>, wt_data = request_data (cmd_case_of (atoi c)) j\<rparr>
        (refreshed env (atoi c) (als_work s))
    \<and> wk_data_ok (request_data (cmd_case_of (atoi c)) j) \<and> als_lost s' = als_lost s
    \<and> cache_inv (als_cache s') \<and> cache_get (als_cache s') (atoi t) = hs_store (cs_tab (als_cache s')) p
    \<and> p \<in> cache_linked (als_cache s') \<and> cs_timers (als_cache s') p = Some (jiffies + 3600000)"
  by (rule string_request_queued [OF assms])

text \<open>A worker module that keeps the tasks it is given, in order.\<close>

definition list_worker :: "wk_task list worker" where
  "list_worker = \<lparr>wk_add_task = (\<lambda>t w. w @ [t]), ww_add_or_init_qq_msg_to_list = id,
     ww_add_or_init_detail_behavior_to_list = id, ww_add_or_init_calc_behavior_to_list = id\<rparr>"

definition idle_al :: "wk_task list al_state" where
  "idle_al = \<lparr>als_cache = no_caches, als_work = [], als_lost = 0\<rparr>"

definition get_all_users :: json where
  "get_all_users = JObject [(''cmd'', JString ''104''), (''token'', JString ''77'')]"

definition get_all_users_text :: string where
  "get_all_users_text = cJSON_PrintUnformatted (\<lambda>_ _. []) get_all_users"

lemma get_all_users_parses: "cJSON_Parse ud (plus_to_space get_all_users_text) = P_Ok get_all_users []"
proof -
  have wf: "wf_json get_all_users" by (simp add: get_all_users_def is_cstr_def)
  have "plus_to_space get_all_users_text = get_all_users_text"
    by (simp add: plus_to_space_def get_all_users_text_def get_all_users_def cJSON_PrintUnformatted_def
        print_string_ptr_def print_char_def spaced_def uchar_def)
  then show ?thesis using parse_printed [OF wf, of ud "\<lambda>_ _. []" False] by (simp add: get_all_users_text_def cJSON_PrintUnformatted_def)
qed

lemma get_all_users_items:
  "all_strings get_all_users" "item_string get_all_users ''cmd'' = Some ''104''" "item_string get_all_users ''token'' = Some ''77''"
  by (simp_all add: get_all_users_def all_strings_def children_def valuestring_def item_string_def GetObjectItem_Cons
      strcaseeq_def c_tolower_def uchar_def)

lemma atoi_104: "atoi ''104'' = 104"
  by (simp add: atoi_def strtol10_def is_space_c_def is_digit_c_def uchar_def)

theorem request_becomes_task_witness:
  "\<exists>s'. al_allocate_task (\<lambda>_. 0) list_worker 5 (Some 64) True get_all_users_text
      (length get_all_users_text) 3 idle_al = Some (Inr s')
    \<and> als_work s' = [\<lparr>wt_head = \<lparr>wh_token = 77, wh_cmd = 104, wh_fd_index = 3\<rparr>, wt_data = D_User (b_user clear_mem)\<rparr>]"
proof -
  have k: "cmd_case_of (atoi ''104'') = K_User" by (simp add: atoi_104 cmd_case_of_def)
  have t: "atoi ''77'' = 77" by (simp add: atoi_def strtol10_def is_space_c_def is_digit_c_def uchar_def)
  have no: "item_string get_all_users k = None" if "k \<in> {''uid'', ''remark'', ''account'', ''password'', ''old_gid'', ''new_gid'', ''bind''}" for k
    using that by (auto simp: get_all_users_def item_string_def GetObjectItem_Cons GetObjectItem_Nil strcaseeq_def
        c_tolower_def uchar_def)
  have d: "request_data K_User get_all_users = D_User (b_user clear_mem)" by (simp add: no data_of clear_mem_def)
  have "als_cache idle_al = no_caches" by (simp add: idle_al_def)
  then have "\<exists>s'. al_allocate_task (\<lambda>_. 0) list_worker 5 (Some 64) True get_all_users_text
      (length get_all_users_text) 3 idle_al = Some (Inr s')
    \<and> als_work s' = wk_add_task list_worker
        \<lparr>wt_head = \<lparr>wh_token = atoi ''77'', wh_cmd = atoi ''104'', wh_fd_index = 3\<rparr>, wt_data = request_data (cmd_case_of (atoi ''104'')) get_all_users\<rparr>
        (refreshed list_worker (atoi ''104'') (als_work idle_al))"
    using request_becomes_task [of idle_al 64 "\<lambda>_. 0" get_all_users_text get_all_users "[]" "''104''" "''77''" list_worker 5 3]
      get_all_users_parses get_all_users_items k by (simp add: idle_al_def) blast
  then obtain s' where s': "al_allocate_task (\<lambda>_. 0) list_worker 5 (Some 64) True get_all_users_text
      (length get_all_users_text) 3 idle_al = Some (Inr s')"
    "als_work s' = wk_add_task list_worker
        \<lparr>wt_head = \<lparr>wh_token = 77, wh_cmd = 104, wh_fd_index = 3\<rparr>, wt_data = D_User (b_user clear_mem)\<rparr>
        (refreshed list_worker 104 (als_work idle_al))" unfolding k unfolding d t atoi_104 by (elim exE conjE) (rule that; assumption)
  have "refreshed list_worker 104 (als_work idle_al) = []" by (simp add: list_worker_def refreshed_def idle_al_def cmd_case_of_def)
  with s' show ?thesis by (intro exI [of _ s']) (simp add: list_worker_def)
qed

text \<open>
  The fields of a user request. For an object of strings every member of the structure is the
  decoded or converted value of the item of its name (found regardless of case), cut to its
  array, and a member the request does not name keeps the value it had, zero in the cleared
  block of a task. The same holds for command and token: an empty object becomes a task with
  command 0 and token 0.
\<close>

lemma user_request_fields:
  assumes "all_strings j"
  shows "al_parse_user_data j u = Inr
      \<lparr>us_uid = (case item_string j ''uid'' of None \<Rightarrow> us_uid u | Some s \<Rightarrow> atoi s),
       us_remark = (case item_string j ''remark'' of None \<Rightarrow> us_remark u | Some s \<Rightarrow> take 63 (decodeURI s)),
       us_account = (case item_string j ''account'' of None \<Rightarrow> us_account u | Some s \<Rightarrow> take 31 (decodeURI s)),
       us_password = (case item_string j ''password'' of None \<Rightarrow> us_password u | Some s \<Rightarrow> take 15 (decodeURI s)),
       us_old_gid = (case item_string j ''old_gid'' of None \<Rightarrow> us_old_gid u | Some s \<Rightarrow> atoi s),
       us_new_gid = (case item_string j ''new_gid'' of None \<Rightarrow> us_new_gid u | Some s \<Rightarrow> atoi s),
       us_bind = (case item_string j ''bind'' of None \<Rightarrow> us_bind u | Some s \<Rightarrow> ucast (atoi s))\<rparr>
    \<and> parse_head j h = Inr
      \<lparr>wh_token = (case item_string j ''token'' of None \<Rightarrow> wh_token h | Some s \<Rightarrow> atoi s),
       wh_cmd = (case item_string j ''cmd'' of None \<Rightarrow> wh_cmd h | Some s \<Rightarrow> atoi s),
       wh_fd_index = wh_fd_index h\<rparr>
    \<and> al_parse_user_data (JObject []) u = Inr u
    \<and> parse_head (JObject []) (b_head (task_block index)) = Inr \<lparr>wh_token = 0, wh_cmd = 0, wh_fd_index = index\<rparr>"
proof (intro conjI)
  show "parse_head j h = Inr
      \<lparr>wh_token = (case item_string j ''token'' of None \<Rightarrow> wh_token h | Some s \<Rightarrow> atoi s),
       wh_cmd = (case item_string j ''cmd'' of None \<Rightarrow> wh_cmd h | Some s \<Rightarrow> atoi s),
       wh_fd_index = wh_fd_index h\<rparr>"
    by (simp add: parse_head_strings [OF assms])
  show "al_parse_user_data (JObject []) u = Inr u" "parse_head (JObject []) (b_head (task_block index)) = Inr \<lparr>wh_token = 0, wh_cmd = 0, wh_fd_index = index\<rparr>"
    by (simp_all add: task_block_head al_parse_user_data_def parse_head_def on_item_def GetObjectItem_Nil)
qed (simp add: al_parse_user_data_def on_item_strings [OF assms] snprintf_decodeURI_def snprintf_s_def split: option.split)

lemma user_request_fields_witness:
  "al_parse_user_data get_all_users (b_user clear_mem) = Inr (b_user clear_mem)"
proof -
  have "item_string get_all_users k = None" if "k \<in> {''uid'', ''remark'', ''account'', ''password'', ''old_gid'', ''new_gid'', ''bind''}" for k
    using that by (auto simp: get_all_users_def item_string_def GetObjectItem_Cons GetObjectItem_Nil strcaseeq_def
        c_tolower_def uchar_def)
  with user_request_fields [OF get_all_users_items(1), of "b_user clear_mem"] show ?thesis by simp
qed

text \<open>
  Requests that do not become tasks. A text that does not parse changes nothing, but its task
  block is lost; so is the request when there is no memory for a task. A value that is not a
  string where the code expects one is a NULL dereference: the object \<open>{"cmd":1}\<close> stops the
  program.
\<close>

lemma bad_requests:
  "(cJSON_Parse ud (plus_to_space data) = P_Fail \<longrightarrow>
      al_allocate_task ud env jiffies cmem True data n index s = Some (Inr (s\<lparr>als_lost := als_lost s + 1\<rparr>)))
   \<and> al_allocate_task ud env jiffies cmem False data n index s = Some (Inr (s\<lparr>als_lost := als_lost s + 1\<rparr>))
   \<and> (\<forall>j r v. cJSON_Parse ud (plus_to_space data) = P_Ok j r \<and> cJSON_GetObjectItem j ''cmd'' = Some v \<and> valuestring v = None \<longrightarrow>
        al_allocate_task ud env jiffies cmem True data n index s = Some (Inl Null_Deref))
   \<and> al_allocate_task ud env jiffies cmem True (CHR ''{'' # QUOTE # ''cmd'' @ QUOTE # '':1}'') 9 index s = Some (Inl Null_Deref)"
proof -
  have crash: "al_allocate_task ud env jiffies cmem True data n index s = Some (Inl Null_Deref)"
    if "cJSON_Parse ud (plus_to_space data) = P_Ok j r" "cJSON_GetObjectItem j ''cmd'' = Some v" "valuestring v = None" for data n j r v
    using that by (simp add: al_allocate_task_def al_parse_value_to_wk_task_def dispatch_request_def parse_head_def on_item_def)
  let ?t = "CHR ''{'' # QUOTE # ''cmd'' @ QUOTE # '':1}''" and ?j = "JObject [(''cmd'', JNumber 1 0)]"
  have p: "print_value (\<lambda>_ _. []) False 0 ?j = ?t" by code_simp
  have "wf_json ?j" by (simp add: is_cstr_def)
  from parse_printed [OF this, of ud "\<lambda>_ _. []" False] have "cJSON_Parse ud ?t = P_Ok ?j []" unfolding p .
  moreover have "plus_to_space ?t = ?t" by (simp add: plus_to_space_def)
  ultimately have t: "cJSON_Parse ud (plus_to_space ?t) = P_Ok ?j []" by (simp only:)
  have i: "cJSON_GetObjectItem ?j ''cmd'' = Some (JNumber 1 0)" by (simp add: GetObjectItem_Cons strcaseeq_def)
  have v: "valuestring (JNumber 1 0) = None" by (simp add: valuestring_def)
  show ?thesis
  proof (intro conjI)
    show "\<forall>j r v. cJSON_Parse ud (plus_to_space data) = P_Ok j r \<and> cJSON_GetObjectItem j ''cmd'' = Some v \<and> valuestring v = None \<longrightarrow>
        al_allocate_task ud env jiffies cmem True data n index s = Some (Inl Null_Deref)"
      using crash by blast
    show "al_allocate_task ud env jiffies cmem True ?t 9 index s = Some (Inl Null_Deref)" by (rule crash [OF t i v])
  qed (simp_all add: al_allocate_task_def al_parse_value_to_wk_task_def lose_def)
qed

lemma bad_requests_witness:
  "al_allocate_task (\<lambda>_. 0) list_worker 0 None True ''x'' 1 0 idle_al = Some (Inr (idle_al\<lparr>als_lost := 1\<rparr>))"
proof -
  have "cJSON_Parse (\<lambda>_. 0) (plus_to_space ''x'') = P_Fail"
    by (simp add: cJSON_Parse_def parse_fuel_def plus_to_space_def skip_def uchar_def parse_value.simps numeral_eq_Suc is_digit_c_def)
  with bad_requests [of "\<lambda>_. 0" "''x''" list_worker 0 None 1 0 idle_al] show ?thesis by (simp add: idle_al_def)
qed

section \<open>Requests with lists\<close>

definition auth_keys_below :: "json \<Rightarrow> nat \<Rightarrow> nat \<Rightarrow> nat list" where
  "auth_keys_below j i m = filter (\<lambda>k. cJSON_GetObjectItem j (dec_string k) \<noteq> None) [i..<m]"

text \<open>The group numbers a request has as keys, in order.\<close>

definition auth_keys :: "json \<Rightarrow> nat list" where
  "auth_keys j = auth_keys_below j 0 (2 ^ 31)"

definition auth_entry :: "json \<Rightarrow> nat \<Rightarrow> az_task_recv_encrypt" where
  "auth_entry j k = \<lparr>ec_gid = of_nat k, ec_authority = bswap32 (atoi (the (item_string j (dec_string k))))\<rparr>"

lemma auth_keys_step:
  "i < m \<Longrightarrow> auth_keys_below j i m =
     (if cJSON_GetObjectItem j (dec_string i) = None then auth_keys_below j (Suc i) m else i # auth_keys_below j (Suc i) m)"
  by (simp add: auth_keys_below_def upt_conv_Cons)

definition auth_result :: "json \<Rightarrow> nat \<Rightarrow> int \<Rightarrow> nat list \<Rightarrow> az_task_recv_encrypt list \<Rightarrow> az_task_recv_encrypt list res" where
  "auth_result j room g ks enc =
     (let ts = take (nat g - length enc) ks in
      if ts \<noteq> [] \<and> room < 4 + 8 * (length enc + length ts) then Inl Out_Of_Bounds
      else if nat g \<le> length enc + length ks \<and> 2 ^ 31 - 1 \<notin> set ts then Inr (enc @ map (auth_entry j) ts)
      else Inl Signed_Overflow)"

lemma encrypt_loop_result:
  assumes j: "all_strings j" and m: "m = 2 ^ 31"
  shows "i \<le> m \<Longrightarrow> length enc \<le> nat g \<Longrightarrow> encrypt_loop j room g i enc =
    (if i = m then Inl Signed_Overflow else auth_result j room g (auth_keys_below j i m) enc)"
proof (induction "m - i" arbitrary: i enc)
  case 0
  then have "i = m" "\<not> i < 2 ^ 31" using m by simp_all
  then show ?case by (subst encrypt_loop.simps) simp
next
  case (Suc k)
  then have i: "i < m" "i < 2 ^ 31" "i \<noteq> m" "k = m - Suc i" "Suc i \<le> m" using m by simp_all
  note IH = Suc.hyps(1) [OF i(4,5)]
  have none: "auth_keys_below j (Suc i) m = []" if "Suc i = m" using that by (simp add: auth_keys_below_def)
  show ?case
  proof (cases "int (length enc) < g")
    case False
    with Suc.prems have "nat g = length enc" by linarith
    with False i show ?thesis by (subst encrypt_loop.simps) (auto simp: auth_result_def)
  next
    case lt: True
    show ?thesis
    proof (cases "cJSON_GetObjectItem j (dec_string i)")
      case None
      have "encrypt_loop j room g i enc = encrypt_loop j room g (Suc i) enc"
        using lt i None by (subst encrypt_loop.simps) simp
      moreover have "auth_keys_below j i m = auth_keys_below j (Suc i) m" using None i(1) by (simp add: auth_keys_step)
      ultimately show ?thesis using IH [OF Suc.prems(2)] i(3) lt none
        by (cases "Suc i = m") (auto simp: auth_result_def)
    next
      case (Some v)
      obtain s where s: "valuestring v = Some s" using all_strings_item [OF j Some] by blast
      have e: "\<lparr>ec_gid = of_nat i, ec_authority = bswap32 (atoi s)\<rparr> = auth_entry j i"
        using Some s by (simp add: auth_entry_def item_string_def)
      have ks: "auth_keys_below j i m = i # auth_keys_below j (Suc i) m" using i(1) Some by (simp add: auth_keys_step)
      have g: "nat g - length enc = Suc (nat g - Suc (length enc))" "length (enc @ [auth_entry j i]) \<le> nat g" using lt by simp_all
      have st: "encrypt_loop j room g i enc =
          (if 4 + 8 * (length enc + 1) \<le> room then encrypt_loop j room g (Suc i) (enc @ [auth_entry j i]) else Inl Out_Of_Bounds)"
        using lt i Some s e by (subst encrypt_loop.simps) simp
      have "i \<noteq> 2 ^ 31 - 1 \<longleftrightarrow> Suc i \<noteq> m" using m by auto
      then show ?thesis unfolding st ks IH [OF g(2)] auth_result_def using i(3) none
        by (cases "Suc i = m") (auto simp: g(1) Let_def)
    qed
  qed
qed

lemma tolower_dec_string: "map c_tolower (dec_string n) = dec_string n"
  using dec_string_all_digits [of n] by (intro map_idI) (auto simp: list_all_iff is_digit_c_def c_tolower_def)

lemma auth_keys_few: "length (auth_keys_below j i m) \<le> length (children j)"
proof -
  let ?K = "auth_keys_below j i m"
  let ?f = "\<lambda>k. the (child_index (children j) (dec_string k))"
  have f: "?f k < length (children j) \<and> strcaseeq (the (fst (children j ! ?f k))) (dec_string k) \<and> fst (children j ! ?f k) \<noteq> None"
    if k: "k \<in> set ?K" for k
  proof -
    have "child_index (children j) (dec_string k) \<noteq> None"
      using k by (auto simp: auth_keys_below_def cJSON_GetObjectItem_def find_child_index)
    then obtain q where q: "child_index (children j) (dec_string k) = Some q" by blast
    from child_index_Some [OF q] q show ?thesis by (auto simp: cJSON_strcasecmp_def split: option.splits)
  qed
  have "inj_on ?f (set ?K)"
  proof (rule inj_onI)
    fix k l assume kl: "k \<in> set ?K" "l \<in> set ?K" "?f k = ?f l"
    then have "map c_tolower (dec_string k) = map c_tolower (dec_string l)"
      using f [of k] f [of l] unfolding strcaseeq_def by metis
    then show "k = l" by (simp add: tolower_dec_string dec_string_inj)
  qed
  then have "card (set ?K) = card (?f ` set ?K)" by (simp add: card_image)
  also have "\<dots> \<le> card {..<length (children j)}" using f by (intro card_mono) auto
  finally have "card (set ?K) \<le> length (children j)" by simp
  moreover have "distinct ?K" by (simp add: auth_keys_below_def)
  ultimately show ?thesis by (simp add: distinct_card)
qed

text \<open>
  C30: the loop over the groups of an authority request. It writes one entry for each of the first \<open>group_num\<close> numbered keys of the
  request in ascending order, with the authority in network byte order; behind the end of the block if that has no room for
  them. If the request promises more groups than it has such keys, or needs the key 2147483647, the loop tries every further key and ends in the
  signed overflow of its counter. A request never has more such keys than members.
\<close>

theorem auth_request_groups:
  assumes "all_strings j" "item_string j ''group_num'' = Some g"
  shows "al_parse_encrypt_data j room e =
      (let n = nat (sint (atoi g)); ks = take n (auth_keys j) in
       if ks \<noteq> [] \<and> room < 4 + 8 * length ks then Inl Out_Of_Bounds
       else if n \<le> length (auth_keys j) \<and> 2 ^ 31 - 1 \<notin> set ks then Inr \<lparr>ec_group_num = atoi g, ec_data = map (auth_entry j) ks\<rparr>
       else Inl Signed_Overflow)
    \<and> (\<forall>k. k \<in> set (auth_keys j) \<longleftrightarrow> k < 2 ^ 31 \<and> item_string j (dec_string k) \<noteq> None)
    \<and> length (auth_keys j) \<le> length (children j) \<and> sorted (auth_keys j) \<and> distinct (auth_keys j)"
proof (intro conjI allI)
  show "al_parse_encrypt_data j room e =
      (let n = nat (sint (atoi g)); ks = take n (auth_keys j) in
       if ks \<noteq> [] \<and> room < 4 + 8 * length ks then Inl Out_Of_Bounds
       else if n \<le> length (auth_keys j) \<and> 2 ^ 31 - 1 \<notin> set ks then Inr \<lparr>ec_group_num = atoi g, ec_data = map (auth_entry j) ks\<rparr>
       else Inl Signed_Overflow)"
    using encrypt_loop_result [OF assms(1) refl, of 0 "[]" "sint (atoi g)" room] assms
    by (simp add: al_parse_encrypt_data_def on_item_strings auth_keys_def auth_result_def Let_def)
  show "k \<in> set (auth_keys j) \<longleftrightarrow> k < 2 ^ 31 \<and> item_string j (dec_string k) \<noteq> None" for k
    using all_strings_item [OF assms(1), of "dec_string k"]
    by (auto simp: auth_keys_def auth_keys_below_def item_string_def split: Option.bind_splits simp del: upt_rec_numeral)
  show "length (auth_keys j) \<le> length (children j)" unfolding auth_keys_def by (rule auth_keys_few)
  show "sorted (auth_keys j)" "distinct (auth_keys j)"
    unfolding auth_keys_def auth_keys_below_def by (simp_all add: sorted_wrt_filter del: upt_rec_numeral)
qed

definition promise_five :: json where
  "promise_five = JObject [(''group_num'', JString ''5''), (''1'', JString ''3'')]"

theorem auth_request_groups_witness:
  "al_parse_encrypt_data promise_five 1024 (b_encrypt clear_mem) = Inl Signed_Overflow"
proof -
  have p: "all_strings promise_five" "item_string promise_five ''group_num'' = Some ''5''" "length (children promise_five) = 2"
    by (simp_all add: promise_five_def all_strings_def children_def valuestring_def item_string_def GetObjectItem_Cons strcaseeq_def)
  have "sint (atoi ''5'') = 5" by (simp add: atoi_def strtol10_def is_space_c_def is_digit_c_def uchar_def)
  then show ?thesis using auth_request_groups [OF p(1,2), of 1024 "b_encrypt clear_mem"] p(3) by (auto simp: Let_def)
qed

text \<open>The pieces of the value under a numbered key, cut at the bars; none if there is no such key or its value is empty.\<close>

definition value_pieces :: "json \<Rightarrow> nat \<Rightarrow> string list" where
  "value_pieces j k =
     (case item_string j (dec_string k) of
        None \<Rightarrow> []
      | Some s \<Rightarrow> let v = take 1023 (decodeURI s) in if v = [] then [] else str_fields (CHR ''|'') v)"

definition rule_of_pieces :: "string list \<Rightarrow> az_task_recv_work_act" where
  "rule_of_pieces ps = \<lparr>wa_workname = take 47 (ps ! 4), wa_process = take 31 (ps ! 3), wa_gid = atoi (ps ! 0),
     wa_worktype = ucast (atoi (ps ! 2)), wa_old_gid = atoi (ps ! 1)\<rparr>"

definition work_rules :: "json \<Rightarrow> nat \<Rightarrow> nat \<Rightarrow> az_task_recv_work_act list" where
  "work_rules j i n = map (rule_of_pieces \<circ> value_pieces j) (filter (\<lambda>k. 5 \<le> length (value_pieces j k)) [i..<n])"

abbreviation four_pieces :: "json \<Rightarrow> nat \<Rightarrow> bool" where
  "four_pieces j k \<equiv> length (value_pieces j k) = 4"

lemma work_entry_pieces:
  assumes "item_string j (dec_string k) = Some s"
  shows "work_entry s = (if four_pieces j k then Inl Null_Deref
     else Inr (if 5 \<le> length (value_pieces j k) then Some (rule_of_pieces (value_pieces j k)) else None))"
proof -
  let ?v = "take 1023 (decodeURI s)"
  have c: "split_string (snprintf_decodeURI 1024 s) (CHR ''|'') 6 = take 6 (value_pieces j k)"
    using split_loop_fields [of "CHR ''|''" 6 False ?v] assms
    by (simp add: split_string_def value_pieces_def snprintf_decodeURI_def snprintf_s_def Let_def)
  show ?thesis unfolding work_entry_def c Let_def by (auto simp: rule_of_pieces_def snprintf_s_def)
qed

definition work_rule :: "json \<Rightarrow> nat \<Rightarrow> az_task_recv_work_act option" where
  "work_rule j k = (if 5 \<le> length (value_pieces j k) then Some (rule_of_pieces (value_pieces j k)) else None)"

lemma work_rules_step: "i < n \<Longrightarrow> work_rules j i n = (case work_rule j i of None \<Rightarrow> [] | Some e \<Rightarrow> [e]) @ work_rules j (Suc i) n"
  by (simp add: work_rules_def work_rule_def upt_conv_Cons)

lemma work_loop_step:
  assumes "all_strings j" "\<not> four_pieces j i"
  shows "work_loop j room (Suc k) i ws =
    res_bind (work_put room ws (work_rule j i)) (\<lambda>ws'. work_loop j room k (Suc i) ws')"
proof (cases "cJSON_GetObjectItem j (dec_string i)")
  case None
  then show ?thesis by (simp add: work_rule_def value_pieces_def item_string_def work_put_def)
next
  case (Some v)
  obtain s where s: "valuestring v = Some s" using all_strings_item [OF assms(1) Some] by blast
  have i: "item_string j (dec_string i) = Some s" using Some s by (simp add: item_string_def)
  show ?thesis using Some s assms(2) work_entry_pieces [OF i] by (simp add: work_rule_def)
qed

lemma work_loop_result:
  assumes "all_strings j" "\<forall>k. i \<le> k \<and> k < i + n \<longrightarrow> \<not> four_pieces j k"
  shows "work_loop j room n i ws =
    (if work_rules j i (i + n) = [] \<or> 60 + 96 * (length ws + length (work_rules j i (i + n))) \<le> room
     then Inr (ws @ work_rules j i (i + n)) else Inl Out_Of_Bounds)"
  using assms(2)
proof (induction n arbitrary: i ws)
  case 0
  show ?case by (simp add: work_rules_def)
next
  case (Suc n)
  have f: "\<not> four_pieces j i" "\<forall>k. Suc i \<le> k \<and> k < Suc i + n \<longrightarrow> \<not> four_pieces j k" using Suc.prems by auto
  note IH = Suc.IH [OF f(2)]
  have st: "work_rules j i (i + Suc n) = (case work_rule j i of None \<Rightarrow> [] | Some e \<Rightarrow> [e]) @ work_rules j (Suc i) (Suc i + n)"
    using work_rules_step [of i "i + Suc n" j] by simp
  show ?case
    unfolding st work_loop_step [OF assms(1) f(1)]
    by (cases "work_rule j i") (auto simp: work_put_def IH)
qed



text \<open>A work request with \<open>n\<close> rules of which every piece is empty.\<close>

definition empty_rules :: "nat list \<Rightarrow> (string \<times> json) list" where
  "empty_rules ks = map (\<lambda>k. (dec_string k, JString ''||||'')) ks"

definition work_request :: "nat \<Rightarrow> json" where
  "work_request n = JObject ((''cmd'', JString ''600'') # (''token'', JString ''1'') # (''listcount'', JString (dec_string n))
     # empty_rules [0..<n])"

definition work_request_text :: "nat \<Rightarrow> string" where
  "work_request_text n = cJSON_PrintUnformatted (\<lambda>_ _. []) (work_request n)"

lemma atoi_dec_string: "n < 2 ^ 31 \<Longrightarrow> sint (atoi (dec_string n)) = int n"
  using atoi_dec_rest [of n "[]"] by (simp add: cat_def is_digit_c_def uchar_def)

lemma strcaseeq_dec: "strcaseeq (dec_string i) (dec_string k) \<longleftrightarrow> i = k"
  using dec_string_inj by (auto simp: strcaseeq_def tolower_dec_string)

lemma empty_rules_item:
  "cJSON_GetObjectItem (JObject (empty_rules ks)) (dec_string k) = (if k \<in> set ks then Some (JString ''||||'') else None)"
  by (induction ks) (auto simp: empty_rules_def GetObjectItem_Cons GetObjectItem_Nil strcaseeq_dec)

lemma letter_key: "64 < uchar c \<Longrightarrow> \<not> strcaseeq (c # cs) (dec_string k)"
proof
  assume c: "64 < uchar c" and s: "strcaseeq (c # cs) (dec_string k)"
  obtain d ds where d: "dec_string k = d # ds" "is_digit_c d" using dec_string_cons by blast
  from s d have "c_tolower c = c_tolower d" by (simp add: strcaseeq_def)
  with c d(2) show False
    by (auto simp: c_tolower_def is_digit_c_def uchar_def split: if_splits dest!: arg_cong [where f = "of_char :: char \<Rightarrow> nat"])
qed

lemma work_request_item:
  "item_string (work_request n) (dec_string k) = (if k < n then Some ''||||'' else None)"
  using letter_key [of "CHR ''c''" "''md''"] letter_key [of "CHR ''t''" "''oken''"] letter_key [of "CHR ''l''" "''istcount''"]
  by (auto simp: work_request_def item_string_def GetObjectItem_Cons empty_rules_item valuestring_def uchar_def)

lemma work_request_head:
  "item_string (work_request n) ''cmd'' = Some ''600''" "item_string (work_request n) ''token'' = Some ''1''"
  "item_string (work_request n) ''listcount'' = Some (dec_string n)"
  by (simp_all add: work_request_def item_string_def GetObjectItem_Cons valuestring_def strcaseeq_def)

lemma work_request_strings: "all_strings (work_request n)"
  by (simp add: work_request_def all_strings_def children_def valuestring_def empty_rules_def list_all_iff)

definition empty_rule :: az_task_recv_work_act where
  "empty_rule = \<lparr>wa_workname = [], wa_process = [], wa_gid = 0, wa_worktype = 0, wa_old_gid = 0\<rparr>"

lemma work_request_pieces: "value_pieces (work_request n) k = (if k < n then replicate 5 [] else [])"
proof -
  have d: "take 1023 (decodeURI ''||||'') = ''||||''" by code_simp
  have f: "str_fields (CHR ''|'') ''||||'' = replicate 5 []" by code_simp
  show ?thesis
    unfolding value_pieces_def work_request_item
    by (cases "k < n") (simp_all only: if_True if_False option.case Let_def d f list.distinct)
qed

lemma empty_pieces: "rule_of_pieces (replicate 5 []) = empty_rule"
  by code_simp

lemma work_request_rules_eq: "m \<le> n \<Longrightarrow> work_rules (work_request n) 0 m = replicate m empty_rule"
proof -
  assume m: "m \<le> n"
  have "filter (\<lambda>k. 5 \<le> length (value_pieces (work_request n) k)) [0..<m] = [0..<m]"
    using m by (simp add: work_request_pieces filter_id_conv)
  moreover have "map (rule_of_pieces \<circ> value_pieces (work_request n)) [0..<m] = map (\<lambda>_. empty_rule) [0..<m]"
    using m by (simp add: work_request_pieces empty_pieces)
  ultimately show ?thesis by (simp add: work_rules_def map_replicate_const)
qed

lemma work_request_plain: "\<not> four_pieces (work_request n) k"
  by (simp add: work_request_pieces)


text \<open>How long the text of such a request is, and that it has no \<open>+\<close> in it.\<close>

lemma print_char_plain: "c = CHR ''|'' \<or> is_digit_c c \<Longrightarrow> print_char c = [c]"
proof (erule disjE)
  assume "is_digit_c c"
  then have d: "48 \<le> uchar c" "uchar c \<le> 57" by (simp_all add: is_digit_c_def)
  have "uchar QUOTE = 34" "uchar BSLASH = 92" by (simp_all add: uchar_def)
  with d have "c \<noteq> QUOTE" "c \<noteq> BSLASH" by auto
  with d show ?thesis by (simp add: print_char_def)
qed (simp add: print_char_def uchar_def)

lemma print_string_plain: "\<forall>c \<in> set s. c = CHR ''|'' \<or> is_digit_c c \<Longrightarrow> print_string_ptr s = QUOTE # s @ [QUOTE]"
proof -
  assume "\<forall>c \<in> set s. c = CHR ''|'' \<or> is_digit_c c"
  then have "concat (map print_char s) = s" by (induction s) (auto simp: print_char_plain)
  then show ?thesis by (simp add: print_string_ptr_def)
qed

lemma print_dec_string: "print_string_ptr (dec_string n) = QUOTE # dec_string n @ [QUOTE]"
  using dec_string_all_digits [of n] by (intro print_string_plain) (auto simp: list_all_iff)

lemma print_empty_rules:
  assumes "\<forall>k \<in> set ks. length (dec_string k) \<le> m"
  shows "length (print_members fd False d (empty_rules ks)) \<le> (m + 10) * length ks
    \<and> CHR ''+'' \<notin> set (print_members fd False d (empty_rules ks))"
  using assms
proof (induction ks)
  case Nil
  show ?case by (simp add: empty_rules_def)
next
  case (Cons k ks)
  have p: "print_string_ptr ''||||'' = QUOTE # ''||||'' @ [QUOTE]" by (rule print_string_plain) simp
  have "CHR ''+'' \<notin> set (dec_string k)"
    using dec_string_all_digits [of k] by (auto simp: list_all_iff is_digit_c_def uchar_def)
  moreover have "length (dec_string k) \<le> m" using Cons.prems by simp
  moreover have "length (print_members fd False d (empty_rules ks)) \<le> (m + 10) * length ks
    \<and> CHR ''+'' \<notin> set (print_members fd False d (empty_rules ks))" using Cons by simp
  moreover have "empty_rules (k # ks) = (dec_string k, JString ''||||'') # empty_rules ks" by (simp add: empty_rules_def)
  ultimately show ?case by (simp add: p print_dec_string spaced_def)
qed

lemma work_request_text_facts:
  assumes "n \<le> 1000"
  shows "length (work_request_text n) \<le> 13 * n + 50" "plus_to_space (work_request_text n) = work_request_text n"
proof -
  let ?m = "print_members (\<lambda>_ _. []) False (Suc 0) (empty_rules [0..<n])"
  have small: "\<forall>k \<in> set [0..<n]. length (dec_string k) \<le> 3" using assms length_dec_string [of _ 2] by auto
  note r = print_empty_rules [OF small, of "\<lambda>_ _. []" "Suc 0"]
  have ln: "length (dec_string n) \<le> 4" using assms length_dec_string [of n 3] by simp
  have pn: "CHR ''+'' \<notin> set (dec_string n)"
    using dec_string_all_digits [of n] by (auto simp: list_all_iff is_digit_c_def uchar_def)
  have h: "print_string_ptr ''cmd'' = QUOTE # ''cmd'' @ [QUOTE]" "print_string_ptr ''600'' = QUOTE # ''600'' @ [QUOTE]"
    "print_string_ptr ''token'' = QUOTE # ''token'' @ [QUOTE]" "print_string_ptr ''1'' = QUOTE # ''1'' @ [QUOTE]"
    "print_string_ptr ''listcount'' = QUOTE # ''listcount'' @ [QUOTE]"
    by (simp_all add: print_string_ptr_def print_char_def uchar_def)
  show "length (work_request_text n) \<le> 13 * n + 50"
    using r ln by (simp add: work_request_text_def cJSON_PrintUnformatted_def work_request_def h print_dec_string spaced_def)
  have "CHR ''+'' \<notin> set (work_request_text n)"
    using r pn by (simp add: work_request_text_def cJSON_PrintUnformatted_def work_request_def h print_dec_string spaced_def)
  then show "plus_to_space (work_request_text n) = work_request_text n"
    unfolding plus_to_space_def by (intro map_idI) auto
qed

lemma work_request_parses: "n \<le> 1000 \<Longrightarrow> cJSON_Parse ud (plus_to_space (work_request_text n)) = P_Ok (work_request n) []"
proof -
  assume n: "n \<le> 1000"
  have "CHR 0x00 \<notin> set (dec_string k)" for k
    using dec_string_all_digits [of k] by (auto simp: list_all_iff is_digit_c_def uchar_def)
  then have "wf_json (work_request n)" by (auto simp: work_request_def empty_rules_def is_cstr_def list_all_iff)
  with n show ?thesis
    using parse_printed [of "work_request n" ud "\<lambda>_ _. []" False]
    by (simp add: work_request_text_facts) (simp add: work_request_text_def cJSON_PrintUnformatted_def)
qed

text \<open>
  A work request overruns the block of its task. A rule takes 96 bytes in the block and no more
  than a dozen in the text, and the block is the text and 1024 bytes: a request with 13 rules or
  more of empty pieces, which any client can send, is written behind the end of the block.
\<close>

lemma work_request_overflow:
  assumes "cache_inv (als_cache s)" "a \<noteq> NULL_p" "hs_store (cs_tab (als_cache s)) a = None" "13 \<le> n" "n \<le> 1000"
  shows "al_allocate_task ud env jiffies (Some a) True (work_request_text n) (length (work_request_text n)) index s
    = Some (Inl Out_Of_Bounds)"
proof -
  let ?j = "work_request n" and ?room = "length (work_request_text n) + 1024"
  let ?b = "task_block index"
  have room: "?room < 60 + 96 * n" using work_request_text_facts(1) [OF assms(5)] assms(4) by simp
  have "work_loop ?j ?room n 0 [] = Inl Out_Of_Bounds"
    using work_loop_result [OF work_request_strings, of 0 n n ?room "[]"] work_request_plain work_request_rules_eq [of n n] room assms(4)
    by auto
  moreover have "\<exists>w1. on_items ?j [(''listcount'', \<lambda>s w. w\<lparr>ws_listcount := atoi s\<rparr>), (''gid'', \<lambda>s w. w\<lparr>ws_gid := atoi s\<rparr>),
        (''type'', \<lambda>s w. w\<lparr>ws_type := atou8 s\<rparr>), (''describe'', \<lambda>s w. w\<lparr>ws_describe := snprintf_decodeURI 48 s\<rparr>)] (b_work ?b) = Inr w1
      \<and> ws_listcount w1 = atoi (dec_string n)"
    using work_request_strings work_request_head(3) [of n] by (simp add: on_item_strings split: option.split)
  moreover have "nat (sint (atoi (dec_string n))) = n" using atoi_dec_string [of n] assms(5) by simp
  ultimately have w: "al_parse_work_data ?j ?room (b_work ?b) = Inl Out_Of_Bounds"
    unfolding al_parse_work_data_def by fastforce
  have "atoi ''600'' = 600" by (simp add: atoi_def strtol10_def is_space_c_def is_digit_c_def uchar_def)
  then have "cmd_case_of (atoi ''600'') = K_Work" by (simp add: cmd_case_of_def)
  then have sw: "cmd_switch env (atoi ''600'') ?j ?room ?b (als_work s) = Inl Out_Of_Bounds"
    using w by (simp add: cmd_switch_def with_data_def)
  obtain c p where f: "an_web_cache_t_find_create_by_token (atoi ''1'') jiffies (Some a) (als_cache s) = Inr (c, Some p)"
    using cache_find_create_ok [OF assms(1-3), of "atoi ''1''" jiffies] by blast
  show ?thesis
    using work_request_parses [OF assms(5), of ud] parse_head_strings [OF work_request_strings, of n "b_head ?b"]
      work_request_head [of n] f sw
    by (simp add: al_allocate_task_def al_parse_value_to_wk_task_def dispatch_request_def)
qed

lemma work_request_overflow_witness:
  "al_allocate_task (\<lambda>_. 0) list_worker 0 (Some 64) True (work_request_text 13) (length (work_request_text 13)) 3 idle_al
    = Some (Inl Out_Of_Bounds)"
  by (rule work_request_overflow) (simp_all add: idle_al_def)

end
