(* ===== verification/Cache_Expiry.thy ===== *)
theory Cache_Expiry
  imports Web_Cache Timer_Wheel
begin

text \<open>
  The page caches of \<^verbatim>\<open>hash.c\<close> on the timer wheel of \<^verbatim>\<open>timer.c\<close>, as \<open>al_parse_json\<close> of \<^verbatim>\<open>allocator.c\<close> and the main
  loop use them: a request finds or creates the cache of its token and sets its timer one hour ahead;
  \<open>__run_timers\<close> calls \<open>an_web_cache_t_timeout\<close> for every cache timer that is due, and the callbacks of the other
  timers in between.

  In \<open>Web_Cache\<close> the timers are a map of the pending ones. Here they are the structures inside the caches,
  linked into the wheel. \<open>tc_abs\<close> forgets the wheel; every operation refines the one on the map, so that what is
  shown there holds for the linked timers as well.

  Shown: a cache lives until one hour after the last request with its token, and not a tick longer: once the wheel
  has caught up with the clock, a lookup finds exactly the caches that are due later, and no fault occurs on the way.
\<close>

section \<open>Model\<close>

record timed_caches =
  tc_tab :: "an_web_cache hset"
  tc_wk :: wk_state
  tc_wheel :: wheel

text \<open>The functions of timers are numbered; this number stands for \<open>an_web_cache_t_timeout\<close>.\<close>

abbreviation (input) CACHE_FN :: nat where "CACHE_FN \<equiv> 1"

definition timed_timeout :: "addr \<Rightarrow> timed_caches \<Rightarrow> timed_caches res" where
  "timed_timeout data s =
     (case hs_store (tc_tab s) data of
        None \<Rightarrow> Inl Use_After_Free
      | Some n \<Rightarrow>
          res_bind (an_detail_wk_act_t_del_list (wc_detail_act_list n) (tc_wk s)) (\<lambda>(_, w).
          res_bind (an_qq_wk_msg_t_del_list (wc_qq_msg_list n) w) (\<lambda>(_, w).
            Inr (s\<lparr>tc_tab := hs_unlink data (tc_tab s), tc_wk := w, tc_wheel := fst (del_timer data (tc_wheel s))\<rparr>))))"

definition timed_create :: "s32 \<Rightarrow> u64 \<Rightarrow> addr option \<Rightarrow> timed_caches \<Rightarrow> timed_caches \<times> addr option" where
  "timed_create token jiffies mem s =
     (case mem of
        None \<Rightarrow> (s, None)
      | Some a \<Rightarrow>
          let w = setup_timer a CACHE_FN (of_nat a) (tc_wheel s);
              w = w\<lparr>tw_expires := (tw_expires w)(a := jiffies + COOKIE_AGEING_TIME * HZ)\<rparr>
          in (s\<lparr>tc_wheel := add_timer a w,
                tc_tab := hs_link (an_web_cache_t_get_hash token) a
                            \<lparr>wc_token = token, wc_detail_act_list = [], wc_qq_msg_list = []\<rparr> (tc_tab s)\<rparr>,
              Some a))"

definition timed_find :: "s32 \<Rightarrow> timed_caches \<Rightarrow> addr option res" where
  "timed_find token s =
     ht_scan (\<lambda>n. wc_token n = token) (hs_store (tc_tab s)) (hs_bucket (tc_tab s) (an_web_cache_t_get_hash token))"

text \<open>
  The part of \<open>al_parse_json\<close> between reading the token and the \<open>switch\<close>. The clock is read once when the cache is created
  and once for \<open>mod_timer\<close>.
\<close>

definition timed_request :: "s32 \<Rightarrow> u64 \<Rightarrow> u64 \<Rightarrow> addr option \<Rightarrow> timed_caches \<Rightarrow> (timed_caches \<times> addr option) res" where
  "timed_request token j1 j2 mem s =
     res_bind (timed_find token s) (\<lambda>r.
       let (s, r) = (case r of None \<Rightarrow> timed_create token j1 mem s | Some a \<Rightarrow> (s, Some a)) in
       case r of
         None \<Rightarrow> Inr (s, None)
       | Some a \<Rightarrow> Inr (s\<lparr>tc_wheel := fst (mod_timer a (j2 + COOKIE_AGEING_TIME * HZ) (tc_wheel s))\<rparr>, Some a))"

lemma del_timer_work: "length (tw_work (fst (del_timer a w))) \<le> length (tw_work w)"
  by (simp add: del_timer_def detach_timer_def removeAll_filter)

lemma timed_timeout_work:
  "timed_timeout a s = Inr s' \<Longrightarrow> length (tw_work (tc_wheel s')) \<le> length (tw_work (tc_wheel s))"
  using del_timer_work [of a "tc_wheel s"] by (auto simp: timed_timeout_def split: option.splits)

lemma detach_work: "tw_work w = t # ts \<Longrightarrow> length (tw_work (detach_timer t w)) < length (tw_work w)"
  by (simp add: detach_timer_def removeAll_filter le_imp_less_Suc)

text \<open>
  The work list of a tick with the callback of the caches in place; \<open>other\<close> are the calls the callbacks of the other
  timers make (the one of \<^verbatim>\<open>auto_data_save.c\<close> sets its own timer again).
\<close>

function timed_run_work :: "(nat \<Rightarrow> u64 \<Rightarrow> timer_call list) \<Rightarrow> timed_caches \<Rightarrow> timed_caches res" where
  "timed_run_work other s =
     (case tw_work (tc_wheel s) of
        [] \<Rightarrow> Inr s
      | t # _ \<Rightarrow>
          let fn = tw_function (tc_wheel s) t; data = tw_data (tc_wheel s) t; w = detach_timer t (tc_wheel s) in
          if fn = CACHE_FN
          then (case timed_timeout (unat data) (s\<lparr>tc_wheel := w\<rparr>) of
                  Inl e \<Rightarrow> Inl e
                | Inr s \<Rightarrow> timed_run_work other s)
          else timed_run_work other (s\<lparr>tc_wheel := fold do_call (other fn data) w\<rparr>))"
  by auto
termination
proof (relation "measure (\<lambda>(h, s). length (tw_work (tc_wheel s)))", goal_cases)
  case (2 other s t ts fn data w s')
  then have "length (tw_work w) < length (tw_work (tc_wheel s))" using detach_work by blast
  with 2 timed_timeout_work [of "unat data" "s\<lparr>tc_wheel := w\<rparr>" s'] show ?case by simp
next
  case (3 other s t ts fn data w)
  then have "length (tw_work w) < length (tw_work (tc_wheel s))" using detach_work by blast
  with 3 work_do_calls [of "other fn data" w] show ?case by simp
qed simp

declare timed_run_work.simps [simp del]

definition timed_tick :: "(nat \<Rightarrow> u64 \<Rightarrow> timer_call list) \<Rightarrow> timed_caches \<Rightarrow> timed_caches res" where
  "timed_tick other s = timed_run_work other (s\<lparr>tc_wheel := tick_collect (tc_wheel s)\<rparr>)"

fun timed_run_timers :: "(nat \<Rightarrow> u64 \<Rightarrow> timer_call list) \<Rightarrow> u64 list \<Rightarrow> timed_caches \<Rightarrow> timed_caches res option" where
  "timed_run_timers other [] s = None"
| "timed_run_timers other (j # js) s =
     (if time_after_eq j (tw_jiffies (tc_wheel s))
      then (case timed_tick other s of Inl e \<Rightarrow> Some (Inl e) | Inr s \<Rightarrow> timed_run_timers other js s)
      else Some (Inr s))"

section \<open>The map of timers and the wheel\<close>

text \<open>
  What the caches need of timers: setting makes a timer pending with the given expiry, deleting makes it not pending,
  and neither touches another timer.
\<close>

locale timer_store =
  fixes pend :: "'w \<Rightarrow> addr \<Rightarrow> u64 option"
    and set_timer :: "addr \<Rightarrow> u64 \<Rightarrow> 'w \<Rightarrow> 'w"
    and del :: "addr \<Rightarrow> 'w \<Rightarrow> 'w"
  assumes set_law: "pend (set_timer a e w) = (pend w)(a \<mapsto> e)"
    and del_law: "pend (del a w) = (pend w)(a := None)"
begin

lemma last_setting: "pend (set_timer a e2 (set_timer a e1 w)) = (pend w)(a \<mapsto> e2)"
  by (simp add: set_law)

lemma del_all: "pend (fold del as w) = (pend w) |` (- set as)"
proof (induction as arbitrary: w)
  case (Cons a as)
  then show ?case by (auto simp: del_law restrict_map_def fun_eq_iff)
qed (simp add: restrict_map_def)

end

definition wheel_pend :: "wheel \<Rightarrow> addr \<Rightarrow> u64 option" where
  "wheel_pend w a = (if tw_pending w a then Some (tw_expires w a) else None)"

lemma wheel_pend_mod: "wheel_pend (fst (mod_timer a e w)) = (wheel_pend w)(a \<mapsto> e)"
  by (auto simp: wheel_pend_def mod_timer_def mod_timer_raw_def timer_pending_def internal_add_timer_def detach_timer_def
      Let_def fun_eq_iff)

lemma wheel_pend_del: "wheel_pend (fst (del_timer a w)) = (wheel_pend w)(a := None)"
  by (auto simp: wheel_pend_def del_timer_def timer_pending_def detach_timer_def fun_eq_iff)

lemma wheel_pend_add:
  "wheel_pend (add_timer a (w\<lparr>tw_expires := (tw_expires w)(a := e)\<rparr>)) = (wheel_pend w)(a \<mapsto> e)"
  by (auto simp: wheel_pend_def add_timer_def mod_timer_raw_def timer_pending_def internal_add_timer_def detach_timer_def
      Let_def fun_eq_iff)

interpretation mt: timer_store wheel_pend "\<lambda>a e w. fst (mod_timer a e w)" "\<lambda>a w. fst (del_timer a w)"
  by unfold_locales (simp_all add: wheel_pend_mod wheel_pend_del)

interpretation at: timer_store wheel_pend "\<lambda>a e w. add_timer a (w\<lparr>tw_expires := (tw_expires w)(a := e)\<rparr>)"
    "\<lambda>a w. fst (del_timer a w)"
  by unfold_locales (simp_all add: wheel_pend_add wheel_pend_del)

lemma timer_fields [simp]:
  "tw_function (fst (mod_timer a e w)) = tw_function w" "tw_data (fst (mod_timer a e w)) = tw_data w"
  "tw_function (add_timer a w) = tw_function w" "tw_data (add_timer a w) = tw_data w"
  "tw_function (fst (del_timer a w)) = tw_function w" "tw_data (fst (del_timer a w)) = tw_data w"
  "tw_function (detach_timer a w) = tw_function w" "tw_data (detach_timer a w) = tw_data w"
  by (simp_all add: mod_timer_def add_timer_def del_timer_def mod_timer_raw_def internal_add_timer_def detach_timer_def Let_def)

section \<open>Refinement\<close>

definition cache_timer :: "wheel \<Rightarrow> addr \<Rightarrow> bool" where
  "cache_timer w a \<longleftrightarrow> tw_pending w a \<and> tw_function w a = CACHE_FN"

definition cache_pend :: "wheel \<Rightarrow> addr \<Rightarrow> u64 option" where
  "cache_pend w a = (if tw_function w a = CACHE_FN then wheel_pend w a else None)"

definition tc_abs :: "timed_caches \<Rightarrow> cache_state" where
  "tc_abs s = \<lparr>cs_tab = tc_tab s, cs_timers = cache_pend (tc_wheel s), cs_wk = tc_wk s\<rparr>"

lemma tc_abs_sel [simp]:
  "cs_tab (tc_abs s) = tc_tab s" "cs_wk (tc_abs s) = tc_wk s" "cs_timers (tc_abs s) = cache_pend (tc_wheel s)"
  by (simp_all add: tc_abs_def)

lemma cache_pend_timer: "cache_pend w a \<noteq> None \<longleftrightarrow> cache_timer w a"
  by (simp add: cache_pend_def cache_timer_def wheel_pend_def)

lemma cache_pend_del: "cache_pend (fst (del_timer a w)) = (cache_pend w)(a := None)"
  by (simp add: cache_pend_def fun_eq_iff mt.del_law)

lemma cache_pend_mod: "tw_function w a = CACHE_FN \<Longrightarrow> cache_pend (fst (mod_timer a e w)) = (cache_pend w)(a \<mapsto> e)"
  by (simp add: cache_pend_def fun_eq_iff mt.set_law)

lemma timeout_refines: "map_sum id tc_abs (timed_timeout a s) = an_web_cache_t_timeout a (tc_abs s)"
  by (simp add: timed_timeout_def an_web_cache_t_timeout_def res_bind_def cache_pend_del tc_abs_def
      split: option.split sum.split prod.split)

lemma find_refines: "timed_find token s = an_web_cache_t_find_by_token token (tc_abs s)"
  by (simp add: timed_find_def an_web_cache_t_find_by_token_def)

lemma create_refines:
  "map_prod tc_abs id (timed_create token j mem s) = an_web_cache_t_create token j mem (tc_abs s)"
proof (cases mem)
  case (Some a)
  let ?w = "setup_timer a CACHE_FN (of_nat a) (tc_wheel s)"
  have "cache_pend (add_timer a (?w\<lparr>tw_expires := (tw_expires ?w)(a := j + 3600000)\<rparr>)) = (cache_pend (tc_wheel s))(a \<mapsto> j + 3600000)"
    by (auto simp: cache_pend_def fun_eq_iff at.set_law) (auto simp: setup_timer_def init_timer_def wheel_pend_def)
  with Some show ?thesis by (simp add: timed_create_def an_web_cache_t_create_def tc_abs_def Let_def)
qed (simp add: timed_create_def an_web_cache_t_create_def)

section \<open>Lookups after a timeout\<close>

lemma find_removeAll:
  assumes "distinct (map f xs)"
  shows "List.find (\<lambda>x. f x = k) (removeAll a xs)
    = (if List.find (\<lambda>x. f x = k) xs = Some a then None else List.find (\<lambda>x. f x = k) xs)"
  using assms
proof (induction xs)
  case (Cons x xs)
  have "List.find (\<lambda>y. f y = k) xs = None" if "f x = k"
    using that Cons.prems by (auto simp: find_None_all) (metis image_eqI)
  with Cons show ?case by auto
qed simp

lemma find_after_unlink:
  assumes ok: "hs_ok byte_sum_hash wc_token t"
    and r: "ht_scan (\<lambda>n. wc_token n = k) (hs_store t) (hs_bucket t b) = Inr r"
  shows "ht_scan (\<lambda>n. wc_token n = k) (hs_store (hs_unlink a t)) (hs_bucket (hs_unlink a t) b)
    = Inr (if r = Some a then None else r)"
proof -
  let ?f = "\<lambda>st c. wc_token (the (st c))"
  have c: "chain_ok byte_sum_hash wc_token (hs_store t) b (hs_bucket t b)" using hs_okD [OF ok] .
  have r': "r = List.find (\<lambda>c. ?f (hs_store t) c = k) (hs_bucket t b)"
    using r ht_scan_find [of "hs_bucket t b" "hs_store t"] c by (simp add: chain_ok_def)
  have "ht_scan (\<lambda>n. wc_token n = k) ((hs_store t)(a := None)) (removeAll a (hs_bucket t b))
      = Inr (List.find (\<lambda>c. ?f ((hs_store t)(a := None)) c = k) (removeAll a (hs_bucket t b)))"
    using c by (intro ht_scan_find) (auto simp: chain_ok_def)
  also have "List.find (\<lambda>c. ?f ((hs_store t)(a := None)) c = k) (removeAll a (hs_bucket t b))
      = List.find (\<lambda>c. ?f (hs_store t) c = k) (removeAll a (hs_bucket t b))"
    by (intro find_cong) auto
  also have "\<dots> = (if r = Some a then None else r)"
    unfolding r' using c by (intro find_removeAll) (simp add: chain_ok_def)
  finally show ?thesis unfolding hs_sel .
qed

section \<open>Callbacks of other timers\<close>

lemma do_call_frame:
  "tw_function (do_call c w) = tw_function w" "tw_data (do_call c w) = tw_data w"
  "a \<noteq> call_target c \<Longrightarrow> tw_expires (do_call c w) a = tw_expires w a"
proof -
  show "tw_function (do_call c w) = tw_function w" "tw_data (do_call c w) = tw_data w" by (cases c; simp)+
  show "a \<noteq> call_target c \<Longrightarrow> tw_expires (do_call c w) a = tw_expires w a"
    by (cases c) (simp_all add: mod_timer_def add_timer_def del_timer_def mod_timer_raw_def internal_add_timer_def
        detach_timer_def Let_def)
qed

lemma do_calls_frame:
  assumes "tw_ok due w" "\<forall>c \<in> set cs. call_ok (tw_now w) c \<and> call_target c \<notin> A"
  shows "\<exists>due'. tw_ok due' (fold do_call cs w) \<and> tw_jiffies (fold do_call cs w) = tw_jiffies w
     \<and> tw_function (fold do_call cs w) = tw_function w \<and> tw_data (fold do_call cs w) = tw_data w
     \<and> set (tw_work (fold do_call cs w)) \<inter> A = set (tw_work w) \<inter> A
     \<and> (\<forall>a \<in> A. due' a = due a \<and> tw_pending (fold do_call cs w) a = tw_pending w a
          \<and> tw_expires (fold do_call cs w) a = tw_expires w a)"
  using assms
proof (induction cs arbitrary: due w)
  case Nil
  then show ?case by auto
next
  case (Cons c cs)
  let ?w = "do_call c w"
  from do_call_ok [OF Cons.prems(1), of c] Cons.prems(2) obtain due1 where
    d: "tw_ok due1 ?w" "tw_jiffies ?w = tw_jiffies w"
      "tw_work ?w = tw_work w \<or> tw_work ?w = removeAll (call_target c) (tw_work w)"
      "\<forall>a. a \<noteq> call_target c \<longrightarrow> due1 a = due a \<and> tw_pending ?w a = tw_pending w a"
    by auto
  have n: "call_target c \<notin> A" using Cons.prems(2) by simp
  have wk: "set (tw_work ?w) \<inter> A = set (tw_work w) \<inter> A" using d(3) n by auto
  have fr: "\<forall>a \<in> A. due1 a = due a \<and> tw_pending ?w a = tw_pending w a \<and> tw_expires ?w a = tw_expires w a"
    using d(4) n do_call_frame(3) by metis
  have "\<forall>c \<in> set cs. call_ok (tw_now ?w) c \<and> call_target c \<notin> A" using Cons.prems(2) d(2) by simp
  from Cons.IH [OF d(1) this] obtain due' where "tw_ok due' (fold do_call cs ?w)"
    "tw_jiffies (fold do_call cs ?w) = tw_jiffies ?w" "tw_function (fold do_call cs ?w) = tw_function ?w"
    "tw_data (fold do_call cs ?w) = tw_data ?w" "set (tw_work (fold do_call cs ?w)) \<inter> A = set (tw_work ?w) \<inter> A"
    "\<forall>a \<in> A. due' a = due1 a \<and> tw_pending (fold do_call cs ?w) a = tw_pending ?w a
          \<and> tw_expires (fold do_call cs ?w) a = tw_expires ?w a" by blast
  with d(2) wk fr do_call_frame(1,2) [of c w] show ?case by (intro exI [of _ due']) simp
qed

section \<open>The invariant\<close>

definition tc_inv :: "(addr \<Rightarrow> nat) \<Rightarrow> timed_caches \<Rightarrow> bool" where
  "tc_inv due s \<longleftrightarrow> tw_ok due (tc_wheel s) \<and> cache_inv (tc_abs s)
     \<and> (\<forall>a. cache_timer (tc_wheel s) a \<longrightarrow>
          unat (tw_data (tc_wheel s) a) = a \<and> due a = unat (tw_expires (tc_wheel s) a))"

lemma tc_invD:
  assumes "tc_inv due s"
  shows "tw_ok due (tc_wheel s)" "cache_inv (tc_abs s)"
    "cache_timer (tc_wheel s) a \<Longrightarrow> unat (tw_data (tc_wheel s) a) = a"
    "cache_timer (tc_wheel s) a \<Longrightarrow> due a = unat (tw_expires (tc_wheel s) a)"
    "cache_timer (tc_wheel s) a \<longleftrightarrow> a \<in> cache_linked (tc_abs s)"
  using assms cache_pend_timer [of "tc_wheel s" a] by (auto simp: tc_inv_def cache_inv_def)

text \<open>The calls of other callbacks: not too far ahead, and never on the timer of a cache.\<close>

definition other_ok :: "(nat \<Rightarrow> u64 \<Rightarrow> timer_call list) \<Rightarrow> wheel \<Rightarrow> bool" where
  "other_ok other w \<longleftrightarrow> (\<forall>t. tw_function w t \<noteq> CACHE_FN \<longrightarrow>
     (\<forall>c \<in> set (other (tw_function w t) (tw_data w t)). call_ok (tw_now w) c \<and> tw_function w (call_target c) \<noteq> CACHE_FN))"

text \<open>What a stretch of timer work does: the caches in \<open>W\<close> are gone, the others are as they were.\<close>

definition dropped :: "addr set \<Rightarrow> (addr \<Rightarrow> nat) \<Rightarrow> timed_caches \<Rightarrow> (addr \<Rightarrow> nat) \<Rightarrow> timed_caches \<Rightarrow> bool" where
  "dropped W due s due' s' \<longleftrightarrow>
     (\<forall>a. cache_timer (tc_wheel s') a \<longleftrightarrow> cache_timer (tc_wheel s) a \<and> a \<notin> W)
     \<and> (\<forall>a. cache_timer (tc_wheel s') a \<longrightarrow> due' a = due a \<and> hs_store (tc_tab s') a = hs_store (tc_tab s) a)
     \<and> (\<forall>token r. timed_find token s = Inr r \<longrightarrow>
          timed_find token s' = Inr (case r of None \<Rightarrow> None | Some a \<Rightarrow> if a \<in> W then None else Some a))
     \<and> tw_function (tc_wheel s') = tw_function (tc_wheel s) \<and> tw_data (tc_wheel s') = tw_data (tc_wheel s)"

lemma dropped_trans:
  assumes "dropped W due s due1 s1" "dropped V due1 s1 due2 s2"
  shows "dropped (W \<union> V) due s due2 s2"
  using assms unfolding dropped_def by (force split: option.splits)

lemma dropped_cong:
  assumes d: "dropped W due s due' s'"
    and e: "\<And>a. cache_timer (tc_wheel s) a \<Longrightarrow> a \<in> W \<longleftrightarrow> a \<in> V"
    and f: "\<And>token a. timed_find token s = Inr (Some a) \<Longrightarrow> cache_timer (tc_wheel s) a"
  shows "dropped V due s due' s'"
proof -
  have "timed_find token s' = Inr (case r of None \<Rightarrow> None | Some a \<Rightarrow> if a \<in> V then None else Some a)"
    if r: "timed_find token s = Inr r" for token r
  proof (cases r)
    case (Some a)
    with f r e have "a \<in> W \<longleftrightarrow> a \<in> V" by blast
    with d r Some show ?thesis by (simp add: dropped_def)
  qed (use d r in \<open>simp add: dropped_def\<close>)
  moreover have "cache_timer (tc_wheel s) a \<and> a \<notin> W \<longleftrightarrow> cache_timer (tc_wheel s) a \<and> a \<notin> V" for a using e by blast
  ultimately show ?thesis using d unfolding dropped_def by blast
qed

lemma timed_find_timer:
  assumes "tc_inv due s" "timed_find token s = Inr (Some a)"
  shows "cache_timer (tc_wheel s) a"
  using cache_find_ok [OF tc_invD(2) [OF assms(1)], of token] assms(2) tc_invD(5) [OF assms(1)]
  by (simp add: find_refines)

lemma find_token:
  assumes "tc_inv due s" "timed_find token s = Inr (Some a)"
  shows "wc_token (the (hs_store (tc_tab s) a)) = token"
proof -
  have c: "chain_ok byte_sum_hash wc_token (hs_store (tc_tab s)) b (hs_bucket (tc_tab s) b)" for b
    using tc_invD(2) [OF assms(1)] by (auto simp: cache_inv_def dest: hs_okD)
  have "Some a = List.find (\<lambda>c. wc_token (the (hs_store (tc_tab s) c)) = token) (hs_bucket (tc_tab s) (an_web_cache_t_get_hash token))"
    using assms(2) c ht_scan_find [of "hs_bucket (tc_tab s) (an_web_cache_t_get_hash token)" "hs_store (tc_tab s)" "\<lambda>n. wc_token n = token"]
    by (simp add: timed_find_def chain_ok_def)
  from find_Some_in [OF this [symmetric]] show ?thesis by simp
qed

lemma step_cache:
  assumes inv: "tc_inv due s" and t: "tw_work (tc_wheel s) = t # ts" "tw_function (tc_wheel s) t = CACHE_FN"
  shows "\<exists>s'. timed_timeout (unat (tw_data (tc_wheel s) t)) (s\<lparr>tc_wheel := detach_timer t (tc_wheel s)\<rparr>) = Inr s'
    \<and> tc_inv due s' \<and> tc_wheel s' = detach_timer t (tc_wheel s) \<and> dropped {t} due s due s'"
proof -
  let ?w = "tc_wheel s"
  have ct: "cache_timer ?w t"
    using tw_invD(4) [OF tc_invD(1) [OF inv], of t] t by (simp add: cache_timer_def)
  then have l: "t \<in> cache_linked (tc_abs s)" using tc_invD(5) [OF inv] by simp
  from cache_timeout_ok [OF tc_invD(2) [OF inv] l] obtain c where
    c: "an_web_cache_t_timeout t (tc_abs s) = Inr c" "cache_inv c" by blast
  define s' where "s' = \<lparr>tc_tab = hs_unlink t (tc_tab s), tc_wk = cs_wk c, tc_wheel = detach_timer t ?w\<rparr>"
  have np: "fst (del_timer t (detach_timer t ?w)) = detach_timer t ?w"
    by (simp add: del_timer_def timer_pending_def detach_facts)
  have to: "timed_timeout t (s\<lparr>tc_wheel := detach_timer t ?w\<rparr>) = Inr s'"
    using c(1) by (auto simp: timed_timeout_def an_web_cache_t_timeout_def s'_def np split: option.splits)
  have pd: "cache_pend (detach_timer t ?w) = (cache_pend ?w)(t := None)"
    by (auto simp: cache_pend_def wheel_pend_def detach_facts fun_eq_iff)
  have "tc_abs s' = c"
    using c(1) by (auto simp: an_web_cache_t_timeout_def s'_def tc_abs_def pd split: option.splits)
  moreover have cs: "cache_timer (detach_timer t ?w) a \<longleftrightarrow> cache_timer ?w a \<and> a \<noteq> t" for a
    by (auto simp: cache_timer_def detach_facts)
  ultimately have i: "tc_inv due s'"
    using c(2) ok_detach [OF tc_invD(1) [OF inv], of t] tc_invD(3,4) [OF inv]
    by (simp add: tc_inv_def s'_def detach_facts(3))
  have ok: "hs_ok byte_sum_hash wc_token (tc_tab s)" using tc_invD(2) [OF inv] by (simp add: cache_inv_def)
  have "dropped {t} due s due s'"
    unfolding dropped_def using cs find_after_unlink [OF ok]
    by (auto simp: s'_def timed_find_def split: option.splits)
  with i to tc_invD(3) [OF inv ct] show ?thesis by (intro exI [of _ s']) (simp add: s'_def)
qed

lemma step_other:
  assumes inv: "tc_inv due s" and t: "tw_function (tc_wheel s) t \<noteq> CACHE_FN"
    and o: "\<forall>c \<in> set cs. call_ok (tw_now (tc_wheel s)) c \<and> tw_function (tc_wheel s) (call_target c) \<noteq> CACHE_FN"
  shows "\<exists>due'. tc_inv due' (s\<lparr>tc_wheel := fold do_call cs (detach_timer t (tc_wheel s))\<rparr>)
    \<and> tw_jiffies (fold do_call cs (detach_timer t (tc_wheel s))) = tw_jiffies (tc_wheel s)
    \<and> {a \<in> set (tw_work (fold do_call cs (detach_timer t (tc_wheel s)))). tw_function (tc_wheel s) a = CACHE_FN}
       = {a \<in> set (tw_work (tc_wheel s)). tw_function (tc_wheel s) a = CACHE_FN}
    \<and> dropped {} due s due' (s\<lparr>tc_wheel := fold do_call cs (detach_timer t (tc_wheel s))\<rparr>)"
proof -
  let ?A = "{a. tw_function (tc_wheel s) a = CACHE_FN}"
  let ?w = "tc_wheel s" and ?v = "fold do_call cs (detach_timer t (tc_wheel s))"
  have "\<forall>c \<in> set cs. call_ok (tw_now (detach_timer t ?w)) c \<and> call_target c \<notin> ?A" using o by (simp add: detach_facts)
  from do_calls_frame [OF ok_detach [OF tc_invD(1) [OF inv]] this] obtain due' where
    d: "tw_ok due' ?v" "tw_jiffies ?v = tw_jiffies ?w" "tw_function ?v = tw_function ?w" "tw_data ?v = tw_data ?w"
      "set (tw_work ?v) \<inter> ?A = set (tw_work (detach_timer t ?w)) \<inter> ?A"
      "\<forall>a \<in> ?A. due' a = due a \<and> tw_pending ?v a = tw_pending (detach_timer t ?w) a \<and> tw_expires ?v a = tw_expires ?w a"
    by (auto simp: detach_facts)
  have ct: "cache_timer ?v a \<longleftrightarrow> cache_timer ?w a" for a
    using d(3,6) t by (cases "a = t") (auto simp: cache_timer_def detach_facts)
  have ex: "due' a = due a" "tw_expires ?v a = tw_expires ?w a" if "cache_timer ?w a" for a
    using d(6) that by (simp_all add: cache_timer_def)
  have "cache_pend ?v = cache_pend ?w"
    using d(3,6) t by (auto simp: cache_pend_def wheel_pend_def detach_facts fun_eq_iff)
  then have ab: "tc_abs (s\<lparr>tc_wheel := ?v\<rparr>) = tc_abs s" by (simp add: tc_abs_def)
  have "tc_inv due' (s\<lparr>tc_wheel := ?v\<rparr>)"
    using inv d(1,4) ex ct unfolding tc_inv_def ab by simp
  moreover have "dropped {} due s due' (s\<lparr>tc_wheel := ?v\<rparr>)"
    using ct ex d(3,4) by (simp add: dropped_def timed_find_def split: option.split)
  moreover have "{a \<in> set (tw_work ?v). tw_function ?w a = CACHE_FN} = {a \<in> set (tw_work ?w). tw_function ?w a = CACHE_FN}"
    using d(5) t by (auto simp: detach_facts)
  ultimately show ?thesis using d(2) by blast
qed

section \<open>A tick and a run\<close>

lemma dropped_refl: "dropped {} due s due s"
  by (simp add: dropped_def split: option.split)

lemma run_work_dropped:
  assumes "tc_inv due s" "other_ok other (tc_wheel s)"
  shows "\<exists>due' s'. timed_run_work other s = Inr s' \<and> tc_inv due' s' \<and> tw_work (tc_wheel s') = []
     \<and> tw_jiffies (tc_wheel s') = tw_jiffies (tc_wheel s) \<and> dropped (set (tw_work (tc_wheel s))) due s due' s'"
  using assms
proof (induction other s arbitrary: due rule: timed_run_work.induct)
  case (1 other s)
  let ?w = "tc_wheel s"
  show ?case
  proof (cases "tw_work ?w")
    case Nil
    with "1.prems"(1) dropped_refl [of due s] show ?thesis by (auto simp: timed_run_work.simps [of other s])
  next
    case (Cons t ts)
    show ?thesis
    proof (cases "tw_function ?w t = CACHE_FN")
      case True
      from step_cache [OF "1.prems"(1) Cons True] obtain s1 where
        s1: "timed_timeout (unat (tw_data ?w t)) (s\<lparr>tc_wheel := detach_timer t ?w\<rparr>) = Inr s1" "tc_inv due s1"
          "tc_wheel s1 = detach_timer t ?w" "dropped {t} due s due s1" by blast
      have "other_ok other (tc_wheel s1)" using "1.prems"(2) by (simp add: s1(3) other_ok_def detach_facts)
      from "1.IH"(1) [OF Cons refl refl refl True s1(1,2) this] obtain due' s' where
        r: "timed_run_work other s1 = Inr s'" "tc_inv due' s'" "tw_work (tc_wheel s') = []"
          "tw_jiffies (tc_wheel s') = tw_jiffies (tc_wheel s1)" "dropped (set (tw_work (tc_wheel s1))) due s1 due' s'" by blast
      have "{t} \<union> set (tw_work (tc_wheel s1)) = set (tw_work ?w)" using Cons by (auto simp: s1(3) detach_facts)
      with dropped_trans [OF s1(4) r(5)] have "dropped (set (tw_work ?w)) due s due' s'" by simp
      moreover have "timed_run_work other s = Inr s'"
        using Cons True s1(1) r(1) by (simp add: timed_run_work.simps [of other s] Let_def)
      ultimately show ?thesis using r(2-4) s1(3) by (intro exI [of _ due'] exI [of _ s']) (simp add: detach_facts)
    next
      case False
      let ?v = "fold do_call (other (tw_function ?w t) (tw_data ?w t)) (detach_timer t ?w)"
      let ?s = "s\<lparr>tc_wheel := ?v\<rparr>"
      have o: "\<forall>c \<in> set (other (tw_function ?w t) (tw_data ?w t)). call_ok (tw_now ?w) c \<and> tw_function ?w (call_target c) \<noteq> CACHE_FN"
        using "1.prems"(2) False by (simp add: other_ok_def)
      from step_other [OF "1.prems"(1) False o] obtain due1 where
        s1: "tc_inv due1 ?s" "tw_jiffies ?v = tw_jiffies ?w" "dropped {} due s due1 ?s"
          "{a \<in> set (tw_work ?v). tw_function ?w a = CACHE_FN} = {a \<in> set (tw_work ?w). tw_function ?w a = CACHE_FN}" by blast
      have fn: "tw_function ?v = tw_function ?w" "tw_data ?v = tw_data ?w" using s1(3) by (simp_all add: dropped_def)
      have ok: "other_ok other (tc_wheel ?s)" using "1.prems"(2) fn s1(2) by (simp add: other_ok_def)
      from "1.IH"(2) [OF Cons refl refl refl False s1(1) ok] obtain due' s' where
        r: "timed_run_work other ?s = Inr s'" "tc_inv due' s'" "tw_work (tc_wheel s') = []"
          "tw_jiffies (tc_wheel s') = tw_jiffies ?w" "dropped (set (tw_work ?v)) due1 ?s due' s'"
        using s1(2) by auto
      have d: "dropped ({} \<union> set (tw_work ?v)) due s due' s'" using dropped_trans [OF s1(3) r(5)] .
      have e: "a \<in> {} \<union> set (tw_work ?v) \<longleftrightarrow> a \<in> set (tw_work ?w)" if "cache_timer ?w a" for a
        using that s1(4) by (auto simp: cache_timer_def)
      have "dropped (set (tw_work ?w)) due s due' s'"
        by (rule dropped_cong [OF d e timed_find_timer [OF "1.prems"(1)]])
      moreover have "timed_run_work other s = Inr s'"
        using Cons False r(1) by (simp add: timed_run_work.simps [of other s] Let_def)
      ultimately show ?thesis using r(2-4) by blast
    qed
  qed
qed

lemma fold_add_fields:
  "tw_function (fold internal_add_timer as w) = tw_function w" "tw_data (fold internal_add_timer as w) = tw_data w"
  by (induction as arbitrary: w) (simp_all add: internal_add_timer_def)

lemma tick_collect_fields:
  "tw_function (tick_collect w) = tw_function w" "tw_data (tick_collect w) = tw_data w"
  by (simp_all add: tick_collect_def cascades_def cascade_def Let_def fold_add_fields)

lemma tick_collect_pending:
  assumes "tw_inv due {} w" "tw_work w = []"
  shows "tw_pending (tick_collect w) = tw_pending w"
  using cascades_inv [OF assms] by (auto simp: cascaded_def tick_collect_def Let_def)

lemma tick_dropped:
  assumes inv: "tc_inv due s" and work: "tw_work (tc_wheel s) = []" and lt: "tw_now (tc_wheel s) + 1 < 2 ^ 61"
    and ot: "other_ok other (tc_wheel s)"
  shows "\<exists>due' s'. timed_tick other s = Inr s' \<and> tc_inv due' s' \<and> tw_work (tc_wheel s') = []
     \<and> tw_now (tc_wheel s') = tw_now (tc_wheel s) + 1 \<and> other_ok other (tc_wheel s')
     \<and> dropped {a. due a = tw_now (tc_wheel s)} due s due' s'"
proof -
  let ?w = "tc_wheel s" and ?v = "tick_collect (tc_wheel s)"
  let ?s = "s\<lparr>tc_wheel := ?v\<rparr>"
  have i: "tw_inv due {} ?w" using tc_invD(1) [OF inv] work by simp
  note c = tick_collect_inv [OF i work lt]
  note p = tick_collect_pending [OF i work] tick_collect_fields [of ?w]
  have e: "tw_expires ?v = tw_expires ?w" using c by blast
  have "cache_pend ?v = cache_pend ?w" by (simp add: cache_pend_def wheel_pend_def p e fun_eq_iff)
  then have ab: "tc_abs ?s = tc_abs s" by (simp add: tc_abs_def)
  have ct: "cache_timer ?v a \<longleftrightarrow> cache_timer ?w a" for a by (simp add: cache_timer_def p)
  have ok: "tw_ok due ?v" using c by blast
  have i1: "tc_inv due ?s" using inv ok ct unfolding tc_inv_def ab by (simp add: p e)
  have d1: "dropped {} due s due ?s" using ct by (simp add: dropped_def timed_find_def p split: option.split)
  have o1: "other_ok other (tc_wheel ?s)"
    using ot c call_ok_mono [of "tw_now ?w" _ "tw_now ?w + 1"] by (simp add: other_ok_def p)
  from run_work_dropped [OF i1 o1] obtain due' s' where
    r: "timed_run_work other ?s = Inr s'" "tc_inv due' s'" "tw_work (tc_wheel s') = []"
      "tw_jiffies (tc_wheel s') = tw_jiffies ?v" "dropped (set (tw_work ?v)) due ?s due' s'" by auto
  have "set (tw_work ?v) = {a. tw_pending ?w a \<and> due a = tw_now ?w}" using c by blast
  then have "dropped ({} \<union> set (tw_work ?v)) due s due' s'" and
    "\<And>a. cache_timer ?w a \<Longrightarrow> a \<in> {} \<union> set (tw_work ?v) \<longleftrightarrow> a \<in> {a. due a = tw_now ?w}"
    using dropped_trans [OF d1 r(5)] by (auto simp: cache_timer_def)
  from dropped_cong [OF this timed_find_timer [OF inv]]
  have d: "dropped {a. due a = tw_now ?w} due s due' s'" .
  moreover have "other_ok other (tc_wheel s')"
    using o1 r(4,5) by (simp add: other_ok_def dropped_def)
  ultimately show ?thesis using r(1-4) c by (intro exI [of _ due'] exI [of _ s']) (simp add: timed_tick_def)
qed

lemma placed_le: "placed J D n i \<Longrightarrow> J \<le> D"
proof -
  assume p: "placed J D n i"
  have "J \<le> D" if "J div lvl n < D div lvl n" using div_le_mono [of D J "lvl n"] that by linarith
  moreover have "J \<le> D" if "lvl n dvd J" "J div lvl n \<le> D div lvl n"
  proof -
    have "J = J div lvl n * lvl n" using that(1) by simp
    also have "\<dots> \<le> D div lvl n * lvl n" using that(2) by (rule mult_le_mono1)
    also have "\<dots> \<le> D" by (rule div_times_less_eq_dividend)
    finally show ?thesis .
  qed
  ultimately show ?thesis using p by (auto simp: placed_def split: if_splits)
qed

lemma due_later:
  assumes "tc_inv due s" "tw_work (tc_wheel s) = []" "cache_timer (tc_wheel s) a"
  shows "tw_now (tc_wheel s) \<le> due a"
proof -
  have "in_vecs (tw_vec (tc_wheel s)) a"
    using tw_invD(4) [OF tc_invD(1) [OF assms(1)], of a] assms(2,3) by (simp add: cache_timer_def)
  then obtain n i where "a \<in> set (tw_vec (tc_wheel s) n i)" by (auto simp: in_vecs_def)
  from tw_invD(3) [OF tc_invD(1) [OF assms(1)] this] show ?thesis by (auto simp: timer_ok_def intro: placed_le)
qed

lemma run_dropped:
  assumes "tc_inv due s" "tw_work (tc_wheel s) = []" "unat now + 1 < 2 ^ 61" "tw_now (tc_wheel s) \<le> unat now + 1"
    and "other_ok other (tc_wheel s)" and "n = unat now + 1 - tw_now (tc_wheel s)"
  shows "\<exists>due' s'. timed_run_timers other (replicate (Suc n) now) s = Some (Inr s') \<and> tc_inv due' s'
     \<and> tw_work (tc_wheel s') = [] \<and> tw_now (tc_wheel s') = unat now + 1 \<and> dropped {a. due a \<le> unat now} due s due' s'"
  using assms
proof (induction n arbitrary: due s)
  case 0
  have now: "tw_now (tc_wheel s) = unat now + 1" using "0.prems"(4,6) by simp
  have "tw_now (tc_wheel s) < 2 ^ 62" "unat now < 2 ^ 62" using "0.prems"(3,4) by simp_all
  then have t: "\<not> time_after_eq now (tw_jiffies (tc_wheel s))" using time_after_eq_nat now by fastforce
  have "a \<in> {} \<longleftrightarrow> a \<in> {a. due a \<le> unat now}" if "cache_timer (tc_wheel s) a" for a
    using due_later [OF "0.prems"(1,2) that] now by simp
  from dropped_cong [OF dropped_refl this timed_find_timer [OF "0.prems"(1)]] t "0.prems"(1,2) now show ?case by auto
next
  case (Suc n)
  let ?J = "tw_now (tc_wheel s)"
  have b: "?J < 2 ^ 62" "unat now < 2 ^ 62" "?J \<le> unat now" "?J + 1 < 2 ^ 61" using Suc.prems(3,4,6) by simp_all
  then have t: "time_after_eq now (tw_jiffies (tc_wheel s))" using time_after_eq_nat by blast
  from tick_dropped [OF Suc.prems(1,2) b(4) Suc.prems(5)] obtain due1 s1 where
    s1: "timed_tick other s = Inr s1" "tc_inv due1 s1" "tw_work (tc_wheel s1) = []" "tw_now (tc_wheel s1) = ?J + 1"
      "other_ok other (tc_wheel s1)" "dropped {a. due a = ?J} due s due1 s1" by blast
  have "tw_now (tc_wheel s1) \<le> unat now + 1" "n = unat now + 1 - tw_now (tc_wheel s1)" using Suc.prems(6) b(3) s1(4) by simp_all
  from Suc.IH [OF s1(2,3) Suc.prems(3) this(1) s1(5) this(2)] obtain due2 s2 where
    s2: "timed_run_timers other (replicate (Suc n) now) s1 = Some (Inr s2)" "tc_inv due2 s2" "tw_work (tc_wheel s2) = []"
      "tw_now (tc_wheel s2) = unat now + 1" "dropped {a. due1 a \<le> unat now} due1 s1 due2 s2" by blast
  note d = dropped_trans [OF s1(6) s2(5)]
  have e: "a \<in> {a. due a = ?J} \<union> {a. due1 a \<le> unat now} \<longleftrightarrow> a \<in> {a. due a \<le> unat now}" if "cache_timer (tc_wheel s) a" for a
    using s1(6) that b(3) by (cases "due a = ?J") (auto simp: dropped_def)
  from dropped_cong [OF d e timed_find_timer [OF Suc.prems(1)]] s2 t s1(1) show ?case by auto
qed

section \<open>A request\<close>

lemma mod_timer_due:
  assumes ok: "tw_ok due w" and e: "unat e < tw_now w + 2 ^ 32" "tw_now w \<le> unat e"
    and p: "tw_pending w t \<longrightarrow> due t = unat (tw_expires w t)" and work: "tw_work w = []"
  shows "tw_ok (due(t := unat e)) (fst (mod_timer t e w)) \<and> tw_work (fst (mod_timer t e w)) = []
    \<and> tw_jiffies (fst (mod_timer t e w)) = tw_jiffies w"
proof (cases "tw_expires w t = e \<and> tw_pending w t")
  case True
  then have "due(t := unat e) = due" using p by auto
  with True ok work show ?thesis by (simp add: mod_timer_def timer_pending_def)
next
  case False
  then have m: "mod_timer t e w = mod_timer_raw t e w" by (auto simp: mod_timer_def timer_pending_def)
  have "max (tw_now w) (unat e) = unat e" using e(2) by simp
  with mod_raw_ok [OF ok e(1), of t] work show ?thesis unfolding m by simp
qed

text \<open>A block from \<open>wys_malloc\<close>: no cache, no timer in it, and no other callback knows it.\<close>

definition fresh_block :: "(nat \<Rightarrow> u64 \<Rightarrow> timer_call list) \<Rightarrow> addr \<Rightarrow> timed_caches \<Rightarrow> bool" where
  "fresh_block other a s \<longleftrightarrow> a \<noteq> NULL_p \<and> a < 2 ^ 64 \<and> hs_store (tc_tab s) a = None \<and> \<not> tw_pending (tc_wheel s) a
     \<and> (\<forall>t. tw_function (tc_wheel s) t \<noteq> CACHE_FN \<longrightarrow>
          (\<forall>c \<in> set (other (tw_function (tc_wheel s) t) (tw_data (tc_wheel s) t)). call_target c \<noteq> a))"

text \<open>The expiry an hour after \<open>j\<close> is in the future of the wheel and does not wrap around.\<close>

definition hour_ahead :: "wheel \<Rightarrow> u64 \<Rightarrow> bool" where
  "hour_ahead w j \<longleftrightarrow> tw_now w \<le> unat (j + 3600000) \<and> unat (j + 3600000) < tw_now w + 2 ^ 32"

lemma scan_fresh: "a \<notin> set xs \<Longrightarrow> ht_scan P (st(a \<mapsto> n)) xs = ht_scan P st xs"
  by (induction xs) (auto split: option.split)

lemma find_after_link:
  assumes ok: "hs_ok byte_sum_hash wc_token t" and a: "hs_store t a = None" and k: "k \<noteq> wc_token n"
  shows "ht_scan (\<lambda>n. wc_token n = k) (hs_store (hs_link c a n t)) (hs_bucket (hs_link c a n t) b)
    = ht_scan (\<lambda>n. wc_token n = k) (hs_store t) (hs_bucket t b)"
proof -
  have f: "a \<notin> set (hs_bucket t b)" using hs_ok_fresh [OF ok a] .
  then have "ht_scan P ((hs_store t)(a \<mapsto> n)) (hs_bucket t b) = ht_scan P (hs_store t) (hs_bucket t b)" for P
    by (rule scan_fresh)
  with k show ?thesis by (cases "b = c") auto
qed

lemma create_due:
  assumes inv: "tc_inv due s" and work: "tw_work (tc_wheel s) = []" and fr: "fresh_block other a s"
    and j: "hour_ahead (tc_wheel s) j" and none: "timed_find token s = Inr None"
  shows "\<exists>s'. timed_create token j (Some a) s = (s', Some a) \<and> tc_inv (due(a := unat (j + 3600000))) s'
    \<and> tw_work (tc_wheel s') = [] \<and> tw_jiffies (tc_wheel s') = tw_jiffies (tc_wheel s) \<and> cache_timer (tc_wheel s') a
    \<and> timed_find token s' = Inr (Some a) \<and> (\<forall>k. k \<noteq> token \<longrightarrow> timed_find k s' = timed_find k s)
    \<and> tw_function (tc_wheel s') = (tw_function (tc_wheel s))(a := CACHE_FN)
    \<and> tw_data (tc_wheel s') = (tw_data (tc_wheel s))(a := of_nat a)"
proof -
  let ?w = "tc_wheel s" and ?e = "j + 3600000" and ?n = "\<lparr>wc_token = token, wc_detail_act_list = [], wc_qq_msg_list = []\<rparr>"
  have F: "a \<noteq> NULL_p" "a < 2 ^ 64" "hs_store (tc_tab s) a = None" "\<not> tw_pending ?w a" using fr by (auto simp: fresh_block_def)
  have J: "unat ?e < tw_now ?w + 2 ^ 32" "tw_now ?w \<le> unat ?e" using j by (auto simp: hour_ahead_def)
  define v where "v = setup_timer a CACHE_FN (of_nat a) ?w"
  define u where "u = v\<lparr>tw_expires := (tw_expires v)(a := ?e)\<rparr>"
  define s' where "s' = s\<lparr>tc_wheel := add_timer a u, tc_tab := hs_link (an_web_cache_t_get_hash token) a ?n (tc_tab s)\<rparr>"
  have cr: "timed_create token j (Some a) s = (s', Some a)" by (simp add: timed_create_def s'_def u_def v_def Let_def)
  have vs: "tw_pending v = tw_pending ?w" "tw_vec v = tw_vec ?w" "tw_work v = []" "tw_jiffies v = tw_jiffies ?w"
    "tw_expires v = tw_expires ?w" "tw_function v = (tw_function ?w)(a := CACHE_FN)" "tw_data v = (tw_data ?w)(a := of_nat a)"
    using F(4) work by (auto simp: v_def setup_timer_def init_timer_def fun_eq_iff)
  have ok: "tw_ok due ?w" using tc_invD(1) [OF inv] .
  have "tw_ok due v" using ok work vs unfolding tw_inv_def by (simp add: timer_ok_def)
  moreover have "\<not> in_vecs (tw_vec v) a" using ok_not_pending [OF ok F(4)] vs(2) by simp
  ultimately have "tw_ok due u" using inv_expires [of due "set (tw_work v)" v a] by (simp add: u_def)
  from mod_raw_ok [OF this, of ?e a] J vs have m: "tw_ok (due(a := unat ?e)) (add_timer a u)" "tw_work (add_timer a u) = []"
    "tw_jiffies (add_timer a u) = tw_jiffies ?w" "tw_pending (add_timer a u) = (tw_pending ?w)(a := True)"
    "tw_expires (add_timer a u) = (tw_expires ?w)(a := ?e)"
    by (simp_all add: add_timer_def u_def max_def)
  have fd: "tw_function u = (tw_function ?w)(a := CACHE_FN)" "tw_data u = (tw_data ?w)(a := of_nat a)"
    using vs by (simp_all add: u_def)
  have gn: "cache_get (tc_abs s) token = None"
    using cache_find_ok [OF tc_invD(2) [OF inv], of token] none by (simp add: find_refines)
  have "tc_abs s' = fst (an_web_cache_t_create token j (Some a) (tc_abs s))"
    using create_refines [of token j "Some a" s] cr by (metis fst_conv fst_map_prod)
  with cache_create_ok [OF tc_invD(2) [OF inv] F(1) _ gn, of j] F(3) have ci: "cache_inv (tc_abs s')" by auto
  have ct: "cache_timer (tc_wheel s') b \<longleftrightarrow> b = a \<or> cache_timer ?w b" for b
    using F(4) by (auto simp: s'_def cache_timer_def m(4) fd)
  have "tc_inv (due(a := unat ?e)) s'"
    using m(1) ci ct tc_invD(3,4) [OF inv] F(2)
    by (auto simp: tc_inv_def s'_def m(5) fd unat_of_nat take_bit_nat_eq_self)
  moreover have "hs_ok byte_sum_hash wc_token (tc_tab s)" using tc_invD(2) [OF inv] by (simp add: cache_inv_def)
  note find_after_link [OF this F(3)]
  moreover have "timed_find token s' = Inr (Some a)" by (simp add: timed_find_def s'_def hs_sel)
  ultimately show ?thesis
    using cr m(2,3) ct fd by (intro exI [of _ s']) (simp add: s'_def timed_find_def)
qed

lemma refresh_due:
  assumes inv: "tc_inv due s" and work: "tw_work (tc_wheel s) = []" and p: "cache_timer (tc_wheel s) p"
    and j: "hour_ahead (tc_wheel s) j"
    and s': "s' = s\<lparr>tc_wheel := fst (mod_timer p (j + 3600000) (tc_wheel s))\<rparr>"
  shows "tc_inv (due(p := unat (j + 3600000))) s' \<and> tw_work (tc_wheel s') = [] \<and> tw_jiffies (tc_wheel s') = tw_jiffies (tc_wheel s)
    \<and> (\<forall>k. timed_find k s' = timed_find k s) \<and> tw_function (tc_wheel s') = tw_function (tc_wheel s)
    \<and> tw_data (tc_wheel s') = tw_data (tc_wheel s)"
proof -
  let ?w = "tc_wheel s" and ?e = "j + 3600000"
  have J: "unat ?e < tw_now ?w + 2 ^ 32" "tw_now ?w \<le> unat ?e" using j by (auto simp: hour_ahead_def)
  have fn: "tw_function ?w p = CACHE_FN" using p by (simp add: cache_timer_def)
  have wh: "tc_wheel s' = fst (mod_timer p ?e ?w)" by (simp add: s')
  have "tw_pending ?w p \<longrightarrow> due p = unat (tw_expires ?w p)" using tc_invD(4) [OF inv p] by simp
  note m = mod_timer_due [OF tc_invD(1) [OF inv] J this work]
  have m: "tw_ok (due(p := unat ?e)) (tc_wheel s')" "tw_work (tc_wheel s') = []" "tw_jiffies (tc_wheel s') = tw_jiffies ?w"
    using m unfolding wh by blast+
  have pe: "wheel_pend (tc_wheel s') = (wheel_pend ?w)(p \<mapsto> ?e)" by (simp add: s' mt.set_law)
  have pq: "tw_pending (tc_wheel s') a = (a = p \<or> tw_pending ?w a)"
    "tw_pending (tc_wheel s') a \<Longrightarrow> tw_expires (tc_wheel s') a = (if a = p then ?e else tw_expires ?w a)" for a
    using fun_cong [OF pe, of a] by (auto simp: wheel_pend_def split: if_splits)
  have "tc_abs s' = (tc_abs s)\<lparr>cs_timers := (cs_timers (tc_abs s))(p \<mapsto> ?e)\<rparr>"
    using cache_pend_mod [OF fn, of ?e] by (simp add: tc_abs_def s')
  moreover have "p \<in> cache_linked (tc_abs s)" using tc_invD(5) [OF inv] p by simp
  ultimately have ci: "cache_inv (tc_abs s')" using cache_refresh [OF tc_invD(2) [OF inv]] by simp
  have ct: "cache_timer (tc_wheel s') a \<longleftrightarrow> cache_timer ?w a" for a
    using p pq(1) by (auto simp: cache_timer_def s')
  have "tc_inv (due(p := unat ?e)) s'"
    unfolding tc_inv_def
  proof (intro conjI allI impI)
    fix a assume a: "cache_timer (tc_wheel s') a"
    then show "unat (tw_data (tc_wheel s') a) = a" using ct tc_invD(3) [OF inv] by (simp add: s')
    from a ct tc_invD(4) [OF inv] pq(2) [of a]
    show "(due(p := unat ?e)) a = unat (tw_expires (tc_wheel s') a)" by (simp add: cache_timer_def)
  qed (use m(1) ci in simp_all)
  then show ?thesis using m by (simp add: s' timed_find_def)
qed

lemma request_due:
  assumes inv: "tc_inv due s" and work: "tw_work (tc_wheel s) = []" and fr: "fresh_block other a s"
    and j: "hour_ahead (tc_wheel s) j1" "hour_ahead (tc_wheel s) j2" and o: "other_ok other (tc_wheel s)"
  shows "\<exists>due' s' p. timed_request token j1 j2 (Some a) s = Inr (s', Some p) \<and> tc_inv due' s' \<and> tw_work (tc_wheel s') = []
    \<and> tw_jiffies (tc_wheel s') = tw_jiffies (tc_wheel s) \<and> timed_find token s' = Inr (Some p) \<and> due' p = unat (j2 + 3600000)
    \<and> other_ok other (tc_wheel s')
    \<and> (\<forall>k. k \<noteq> token \<longrightarrow> timed_find k s' = timed_find k s) \<and> (\<forall>q. q \<noteq> p \<longrightarrow> due' q = due q)"
proof -
  obtain r where r: "timed_find token s = Inr r"
    using cache_find_ok [OF tc_invD(2) [OF inv], of token] by (auto simp: find_refines)
  show ?thesis
  proof (cases r)
    case None
    from create_due [OF inv work fr j(1) r [unfolded None]] obtain s1 where
      s1: "timed_create token j1 (Some a) s = (s1, Some a)" "tc_inv (due(a := unat (j1 + 3600000))) s1"
        "tw_work (tc_wheel s1) = []" "tw_jiffies (tc_wheel s1) = tw_jiffies (tc_wheel s)" "cache_timer (tc_wheel s1) a"
        "timed_find token s1 = Inr (Some a)" "\<forall>k. k \<noteq> token \<longrightarrow> timed_find k s1 = timed_find k s"
        "tw_function (tc_wheel s1) = (tw_function (tc_wheel s))(a := CACHE_FN)"
        "tw_data (tc_wheel s1) = (tw_data (tc_wheel s))(a := of_nat a)" by blast
    have j2: "hour_ahead (tc_wheel s1) j2" using j(2) by (simp add: hour_ahead_def s1(4))
    note m = refresh_due [OF s1(2,3,5) j2 refl]
    have "other_ok other (tc_wheel s1)" using o fr by (auto simp: other_ok_def fresh_block_def s1(4,8,9))
    with m s1 r None show ?thesis
      by (intro exI [of _ "due(a := unat (j1 + 3600000), a := unat (j2 + 3600000))"] exI [of _ "s1\<lparr>tc_wheel := fst (mod_timer a (j2 + 3600000) (tc_wheel s1))\<rparr>"] exI [of _ a])
        (simp add: timed_request_def other_ok_def)
  next
    case (Some p)
    have p: "cache_timer (tc_wheel s) p" using timed_find_timer [OF inv] r Some by simp
    note m = refresh_due [OF inv work p j(2) refl]
    with o r Some show ?thesis
      by (intro exI [of _ "due(p := unat (j2 + 3600000))"] exI [of _ "s\<lparr>tc_wheel := fst (mod_timer p (j2 + 3600000) (tc_wheel s))\<rparr>"] exI [of _ p])
        (simp add: timed_request_def other_ok_def)
  qed
qed

section \<open>The life of a page cache\<close>

text \<open>
  C5: a page cache lives one hour from the last request. A request finds or creates the cache of its token and
  makes its timer due one hour after the reading of the clock. When the wheel has then caught up with a clock that stands at
  \<open>now\<close>, without a fault and with whatever the callbacks of other timers do, a lookup of the token finds the cache if and
  only if that hour is not over at \<open>now\<close>; the caches of other tokens are found or gone by the tick they are due at in the
  same way. Caches and linked timers stay in correspondence throughout.
\<close>

theorem page_cache_lifetime:
  assumes "tc_inv due s" "tw_work (tc_wheel s) = []" "fresh_block other a s"
    and "hour_ahead (tc_wheel s) j1" "hour_ahead (tc_wheel s) j2" "other_ok other (tc_wheel s)"
    and "unat now + 1 < 2 ^ 61" "tw_now (tc_wheel s) \<le> unat now + 1"
  shows "\<exists>s1 p s2 due2. timed_request token j1 j2 (Some a) s = Inr (s1, Some p) \<and> timed_find token s1 = Inr (Some p)
    \<and> timed_run_timers other (replicate (unat now + 2 - tw_now (tc_wheel s)) now) s1 = Some (Inr s2)
    \<and> tc_inv due2 s2 \<and> tw_now (tc_wheel s2) = unat now + 1
    \<and> timed_find token s2 = Inr (if unat now < unat (j2 + 3600000) then Some p else None)
    \<and> (\<forall>k r. k \<noteq> token \<and> timed_find k s = Inr r \<longrightarrow>
         timed_find k s2 = Inr (case r of None \<Rightarrow> None | Some q \<Rightarrow> if unat now < due q then Some q else None))"
proof -
  from request_due [OF assms(1-6), of token] obtain due1 s1 p where
    s1: "timed_request token j1 j2 (Some a) s = Inr (s1, Some p)" "tc_inv due1 s1" "tw_work (tc_wheel s1) = []"
      "tw_jiffies (tc_wheel s1) = tw_jiffies (tc_wheel s)" "timed_find token s1 = Inr (Some p)" "due1 p = unat (j2 + 3600000)"
      "other_ok other (tc_wheel s1)" "\<forall>k. k \<noteq> token \<longrightarrow> timed_find k s1 = timed_find k s" "\<forall>q. q \<noteq> p \<longrightarrow> due1 q = due q"
    by blast
  have n: "unat now + 2 - tw_now (tc_wheel s) = Suc (unat now + 1 - tw_now (tc_wheel s1))" using assms(8) s1(4) by simp
  from run_dropped [OF s1(2,3) assms(7) _ s1(7) refl] assms(8) s1(4) obtain due2 s2 where
    s2: "timed_run_timers other (replicate (unat now + 2 - tw_now (tc_wheel s)) now) s1 = Some (Inr s2)" "tc_inv due2 s2"
      "tw_now (tc_wheel s2) = unat now + 1" "dropped {a. due1 a \<le> unat now} due1 s1 due2 s2"
    unfolding n by auto
  have f: "timed_find k s2 = Inr (case r of None \<Rightarrow> None | Some q \<Rightarrow> if unat now < due1 q then Some q else None)"
    if "timed_find k s1 = Inr r" for k r
    using s2(4) that by (auto simp: dropped_def not_le split: option.splits)
  have "timed_find k s2 = Inr (case r of None \<Rightarrow> None | Some q \<Rightarrow> if unat now < due q then Some q else None)"
    if k: "k \<noteq> token" "timed_find k s = Inr r" for k r
  proof (cases r)
    case (Some q)
    have "q \<noteq> p" using find_token [OF s1(2,5)] find_token [OF s1(2), of k q] s1(8) k Some by auto
    with f [of k r] s1(8,9) k Some show ?thesis by simp
  qed (use f [of k r] s1(8) k in simp)
  with s1 s2 f [OF s1(5)] show ?thesis by auto
qed

definition no_timed_caches :: timed_caches where
  "no_timed_caches = \<lparr>tc_tab = hs_empty, tc_wk = cs_wk no_caches, tc_wheel = fresh_wheel\<rparr>"

lemma no_timed_caches_inv: "tc_inv (\<lambda>_. 0) no_timed_caches"
proof -
  have "tc_abs no_timed_caches = no_caches"
    by (auto simp: no_timed_caches_def tc_abs_def no_caches_def cache_pend_def wheel_pend_def fresh_wheel_def)
  then show ?thesis
    using fresh_wheel_ok by (simp add: tc_inv_def no_timed_caches_def cache_timer_def fresh_wheel_def)
qed

theorem page_cache_lifetime_witness:
  "\<exists>s1 p s2. timed_request 77 0 0 (Some 64) no_timed_caches = Inr (s1, Some p)
    \<and> timed_run_timers (\<lambda>_ _. []) (replicate 3600002 3600000) s1 = Some (Inr s2) \<and> timed_find 77 s2 = Inr None"
proof -
  have w: "tc_wheel no_timed_caches = fresh_wheel" "tw_now fresh_wheel = 0" "tw_work fresh_wheel = []"
    by (simp_all add: no_timed_caches_def fresh_wheel_def)
  have "fresh_block (\<lambda>_ _. []) 64 no_timed_caches"
    by (simp add: fresh_block_def no_timed_caches_def fresh_wheel_def)
  from page_cache_lifetime [OF no_timed_caches_inv _ this, of 0 0 3600000 77] show ?thesis
    by (auto simp: w hour_ahead_def other_ok_def)
qed

end
