(* ===== verification/Startup.thy ===== *)
theory Startup
  imports Server Db_Client Cache_Expiry Mem_Tracker Hash_Rules Hash_Users
begin

text \<open>
  Starting the server, \<^verbatim>\<open>TCP_C/main.c\<close>: the listening socket, the datagram functions, reading the address of the
  database from the configuration file, and the order of the initialisations in \<open>an_init\<close>, with
  \<open>an_hash_and_list_init\<close> of \<^verbatim>\<open>hash.c\<close> and the timer of \<^verbatim>\<open>auto_data_save.c\<close>. The results of the system calls are arguments.

  The configuration is read into a block of exactly the length of the file, without a terminator; \<open>strstr\<close> and
  \<open>strchr\<close> read it byte by byte up to the match, and leave the block when there is none.

  Shown: a file written by the rules sets the address and port it names; an address of 32 bytes or more and a file
  without the keys are accesses outside the arrays. After a successful start the list heads, most of which were zero, are
  lists, and every invariant the other theories start from holds.
\<close>

section \<open>Sockets\<close>

record listen_env =
  le_socket :: s32
  le_noblock :: bool
  le_bind :: "nat \<Rightarrow> bool"
  le_listen :: bool

definition an_sock_noblock :: "bool \<Rightarrow> s32" where
  "an_sock_noblock ok = (if ok then 0 else -1)"

text \<open>The first \<open>bind\<close> is call 0; the loop makes up to ten more.\<close>

fun bind_loop :: "(nat \<Rightarrow> bool) \<Rightarrow> nat \<Rightarrow> nat \<Rightarrow> bool" where
  "bind_loop bind trycnt 0 = False"
| "bind_loop bind trycnt (Suc n) = (bind (Suc trycnt) \<or> bind_loop bind (Suc trycnt) n)"

definition an_tcp_sock_init :: "listen_env \<Rightarrow> s32 \<times> s32" where
  "an_tcp_sock_init le =
     (let fd = le_socket le in
      if fd = -1 then (-1, fd)
      else if an_sock_noblock (le_noblock le) \<noteq> 0 then (-1, fd)
      else if \<not> le_bind le 0 \<and> \<not> bind_loop (le_bind le) 0 10 then (-1, fd)
      else if \<not> le_listen le then (-1, fd)
      else (0, fd))"

definition an_udp_sock_init :: "listen_env \<Rightarrow> s32 \<times> s32" where
  "an_udp_sock_init le =
     (let fd = le_socket le in
      if fd = -1 then (-1, fd)
      else if an_sock_noblock (le_noblock le) \<noteq> 0 then (-1, fd)
      else if \<not> le_bind le 0 \<and> \<not> bind_loop (le_bind le) 0 10 then (-1, fd)
      else (0, fd))"

text \<open>
  \<open>an_udp_recv\<close>: the result is the number of blocks that nobody owns afterwards. \<open>an_udp_send\<close>: the result and the
  descriptors left open.
\<close>

definition an_udp_recv :: "bool \<Rightarrow> s32 \<Rightarrow> nat" where
  "an_udp_recv mem recv_len = (if \<not> mem then 0 else if sint recv_len \<le> 0 then 0 else 1)"

definition an_udp_send :: "s32 \<Rightarrow> s32 \<Rightarrow> string option \<Rightarrow> s32 \<Rightarrow> s32 \<times> s32 list" where
  "an_udp_send fd sent buf buf_len =
     (if buf = None \<or> sint buf_len < 1 then (-1, [])
      else let len = (if sint fd < 0 then -1 else if sent \<noteq> buf_len then -1 else sent)
           in (len, if 0 < sint fd then [] else if fd = 0 then [fd] else []))"

lemma bind_loop_ex: "bind_loop bind k n \<longleftrightarrow> (\<exists>i. k < i \<and> i \<le> k + n \<and> bind i)"
proof (induction n arbitrary: k)
  case (Suc n)
  show ?case
  proof
    assume "bind_loop bind k (Suc n)"
    then obtain i where "i = Suc k \<or> Suc k < i \<and> i \<le> Suc k + n" "bind i" using Suc [of "Suc k"] by auto
    then have "k < i" "i \<le> k + Suc n" "bind i" by auto
    then show "\<exists>i. k < i \<and> i \<le> k + Suc n \<and> bind i" by blast
  next
    assume "\<exists>i. k < i \<and> i \<le> k + Suc n \<and> bind i"
    then obtain i where i: "k < i" "i \<le> k + Suc n" "bind i" by blast
    then show "bind_loop bind k (Suc n)" using Suc [of "Suc k"] by (cases "i = Suc k") auto
  qed
qed auto

lemma tcp_sock_init_iff:
  "an_tcp_sock_init le = (0, fd) \<longleftrightarrow>
     le_socket le = fd \<and> fd \<noteq> -1 \<and> le_noblock le \<and> (\<exists>i \<le> 10. le_bind le i) \<and> le_listen le"
proof -
  have "(le_bind le 0 \<or> bind_loop (le_bind le) 0 10) \<longleftrightarrow> (\<exists>i \<le> 10. le_bind le i)"
    unfolding bind_loop_ex by (metis add_0 bot_nat_0.not_eq_extremum zero_le)
  then show ?thesis by (auto simp: an_tcp_sock_init_def an_sock_noblock_def Let_def)
qed

section \<open>The configuration file\<close>

abbreviation (input) NL_c :: char where "NL_c \<equiv> CHR 0x0A"

text \<open>\<open>strstr(buf + i, p)\<close> on a block: the place of the match, no match, or a read behind the block.\<close>

definition block_find :: "string \<Rightarrow> nat \<Rightarrow> string \<Rightarrow> nat option res" where
  "block_find buf i p =
     (let t = drop i buf in
      if CHR 0x00 \<in> set t then Inr (map_option ((+) i) (strstr (takeWhile (\<lambda>c. c \<noteq> CHR 0x00) t) p))
      else case strstr t p of Some k \<Rightarrow> Inr (Some (i + k)) | None \<Rightarrow> Inl Out_Of_Bounds)"

text \<open>The value behind a key: from the byte after the colon up to the line feed.\<close>

definition conf_value :: "string \<Rightarrow> nat \<Rightarrow> string \<Rightarrow> (nat \<times> nat) option res" where
  "conf_value buf i key =
     res_bind (block_find buf i key) (\<lambda>r. case r of None \<Rightarrow> Inr None | Some tmp \<Rightarrow>
     res_bind (block_find buf tmp '':'') (\<lambda>r. case r of None \<Rightarrow> Inr None | Some tmp \<Rightarrow>
     res_bind (block_find buf (tmp + 1) [NL_c]) (\<lambda>r. case r of None \<Rightarrow> Inr None | Some tmp_end \<Rightarrow>
       Inr (Some (tmp + 1, tmp_end)))))"

text \<open>
  \<open>strncpy\<close> of the bytes from \<open>i\<close> to \<open>j\<close> into a cleared array of \<open>cap\<close> bytes; and reading such an array as a string, which
  needs a terminator in it.
\<close>

definition conf_copy :: "nat \<Rightarrow> string \<Rightarrow> nat \<Rightarrow> nat \<Rightarrow> string res" where
  "conf_copy cap buf i j =
     (if cap < j - i then Inl Out_Of_Bounds
      else Inr (takeWhile (\<lambda>c. c \<noteq> CHR 0x00) (take (j - i) (drop i buf))))"

definition array_string :: "nat \<Rightarrow> string \<Rightarrow> string res" where
  "array_string cap s = (if length s < cap then Inr s else Inl Out_Of_Bounds)"

definition an_database_init ::
  "(string \<Rightarrow> u32) \<Rightarrow> u64 \<times> u64 \<Rightarrow> string option \<Rightarrow> bool \<Rightarrow> db_state \<Rightarrow> (s32 \<times> db_state) res" where
  "an_database_init inet_addr tv conf mem s =
     (case conf of
        None \<Rightarrow> Inr (-1, s)
      | Some buf \<Rightarrow>
          if sint (of_nat (length buf) :: s32) \<le> 0 \<or> \<not> mem then Inr (-1, s)
          else
            res_bind (block_find buf 0 (''[ssdb-conf]'' @ [NL_c])) (\<lambda>r. case r of None \<Rightarrow> Inr (-1, s) | Some _ \<Rightarrow>
            res_bind (conf_value buf 12 ''ssdb_ipaddr'') (\<lambda>r. case r of None \<Rightarrow> Inr (-1, s) | Some (tmp, tmp_end) \<Rightarrow>
            res_bind (conf_copy 32 buf tmp tmp_end) (\<lambda>ip.
            res_bind (conf_value buf tmp_end ''ssdb_port'') (\<lambda>r. case r of None \<Rightarrow> Inr (-1, s) | Some (tmp, tmp_end) \<Rightarrow>
            res_bind (conf_copy 8 buf tmp tmp_end) (\<lambda>port.
            res_bind (array_string 32 ip) (\<lambda>ip.
            res_bind (array_string 8 port) (\<lambda>port.
              Inr (0, dbinit inet_addr tv ip (ucast (atoi port)) s)))))))))"

section \<open>The timer that saves the data\<close>

abbreviation (input) SAVE_FN :: nat where "SAVE_FN \<equiv> 2"

text \<open>
  A failed allocation sets the error code and then initialises the timer through the NULL pointer all the same. The timeout adds a
  task, if there is memory for it, and sets the timer ten minutes ahead.
\<close>

definition an_data_save_init :: "u64 \<Rightarrow> addr option \<Rightarrow> wheel \<Rightarrow> (s32 \<times> wheel) res" where
  "an_data_save_init jiffies mem w =
     (case mem of
        None \<Rightarrow> Inl Null_Deref
      | Some a \<Rightarrow>
          let w = setup_timer a SAVE_FN (of_nat a) w
          in Inr (0, add_timer a (w\<lparr>tw_expires := (tw_expires w)(a := jiffies + 60 * HZ)\<rparr>)))"

definition an_auto_data_save_timeout :: "bool \<Rightarrow> u64 \<Rightarrow> u64 \<Rightarrow> bool \<times> timer_call list" where
  "an_auto_data_save_timeout mem jiffies data = (mem, [Call_Mod (unat data) (jiffies + 600 * HZ)])"

definition save_handler :: "bool \<Rightarrow> u64 \<Rightarrow> nat \<Rightarrow> u64 \<Rightarrow> timer_call list" where
  "save_handler mem jiffies fn data = (if fn = SAVE_FN then snd (an_auto_data_save_timeout mem jiffies data) else [])"

section \<open>The program's state\<close>

text \<open>
  The heads of the doubly linked lists in static storage: the lists of all nodes and of the groups (\<^verbatim>\<open>hash.c\<close>), the vectors of the timer
  wheel, and the free connections of the database. Where they lie is an argument, \<open>la\<close>. \<open>pg_links\<close> holds their pointers. A head of zeroed
  storage, which the lists of all nodes avoid by a static initialiser, is no list: both its pointers are NULL. The head of a hash chain is
  a single pointer, and NULL is the empty chain.
\<close>

datatype head_var =
    Forbid_All | Group_All | Encrypt_All | User_All | Save_All | Detail_All | Qq_All | Work_All
  | Forbid_Grp nat | User_Grp nat | Encrypt_Grp nat | Detail_Grp nat | Qq_Grp nat | Work_Grp nat
  | Tv1 nat | Tv2 nat | Tv3 nat | Tv4 nat | Tv5 nat | Db_Free

definition init_array :: "(nat \<Rightarrow> addr) \<Rightarrow> nat \<Rightarrow> list_heap \<Rightarrow> list_heap" where
  "init_array v n h = fold (\<lambda>i. INIT_LIST_HEAD (v i)) [0..<n] h"

record 'w prog =
  pg_links :: list_heap
  pg_mem :: mem_state
  pg_forbid :: forbid_tab
  pg_encrypt :: encrypt_tab
  pg_groups :: group_state
  pg_users :: user_tab
  pg_details :: "an_detail_user htab \<times> (addr \<Rightarrow> an_detail_act option)"
  pg_qq :: qq_tab
  pg_work :: work_tab
  pg_server :: "'w server"
  pg_clock :: clock
  pg_caches :: timed_caches
  pg_db :: db_state

definition init_heads :: "'n htab \<Rightarrow> 'n htab" where
  "init_heads t = t\<lparr>ht_bucket := (\<lambda>b. if b < HASH_SIZE then [] else ht_bucket t b),
     ht_group := (\<lambda>g. if g < GROUP_ID_MAX then [] else ht_group t g)\<rparr>"

definition init_hash :: "'n hset \<Rightarrow> 'n hset" where
  "init_hash t = t\<lparr>hs_bucket := (\<lambda>b. if b < HASH_SIZE then [] else hs_bucket t b)\<rparr>"

definition init_group_lists :: "(head_var \<Rightarrow> addr) \<Rightarrow> list_heap \<Rightarrow> list_heap" where
  "init_group_lists la h =
     (let h = init_array (\<lambda>i. la (Forbid_Grp i)) GROUP_ID_MAX h;
          h = init_array (\<lambda>i. la (User_Grp i)) GROUP_ID_MAX h;
          h = init_array (\<lambda>i. la (Encrypt_Grp i)) GROUP_ID_MAX h;
          h = init_array (\<lambda>i. la (Detail_Grp i)) GROUP_ID_MAX h;
          h = init_array (\<lambda>i. la (Qq_Grp i)) GROUP_ID_MAX h
      in init_array (\<lambda>i. la (Work_Grp i)) GROUP_ID_MAX h)"

text \<open>The pointers of the heads, and the lists they stand for.\<close>

definition an_hash_and_list_init :: "(head_var \<Rightarrow> addr) \<Rightarrow> 'w prog \<Rightarrow> 'w prog" where
  "an_hash_and_list_init la g = g\<lparr>
     pg_links := init_group_lists la (pg_links g),
     pg_forbid := init_heads (pg_forbid g),
     pg_users := map_prod init_heads id (pg_users g),
     pg_groups := (pg_groups g)\<lparr>gs_tab := init_hash (gs_tab (pg_groups g))\<rparr>,
     pg_encrypt := init_heads (pg_encrypt g),
     pg_server := (pg_server g)\<lparr>sock_hash := init_hash (sock_hash (pg_server g))\<rparr>,
     pg_caches := (pg_caches g)\<lparr>tc_tab := init_hash (tc_tab (pg_caches g))\<rparr>,
     pg_details := map_prod init_heads id (pg_details g),
     pg_qq := map_prod init_heads id (pg_qq g),
     pg_work := init_heads (pg_work g)\<rparr>"

definition init_vectors :: "(head_var \<Rightarrow> addr) \<Rightarrow> list_heap \<Rightarrow> list_heap" where
  "init_vectors la h =
     init_array (\<lambda>j. la (Tv1 j)) 256
       (fold (\<lambda>j h. INIT_LIST_HEAD (la (Tv2 j)) (INIT_LIST_HEAD (la (Tv3 j)) (INIT_LIST_HEAD (la (Tv4 j))
          (INIT_LIST_HEAD (la (Tv5 j)) h)))) [0..<64] h)"

definition an_timer_init :: "(head_var \<Rightarrow> addr) \<Rightarrow> u64 \<Rightarrow> u64 \<times> u64 \<Rightarrow> 'w prog \<Rightarrow> 'w prog" where
  "an_timer_init la tv_sec tv g =
     (let (c, j) = jiffies_get (fst tv) (snd tv) (jiffies_init tv_sec (pg_clock g))
      in g\<lparr>pg_links := init_vectors la (pg_links g), pg_clock := c,
           pg_caches := (pg_caches g)\<lparr>tc_wheel := init_timers_cpu j (tc_wheel (pg_caches g))\<rparr>\<rparr>)"

text \<open>What the calls of \<open>an_init\<close> get from outside, \<open>wk_init\<close> included.\<close>

record start_env =
  se_listen :: listen_env
  se_sec :: u64
  se_tv :: "u64 \<times> u64"
  se_save_tv :: "u64 \<times> u64"
  se_save_mem :: "addr option"
  se_conf :: "string option"
  se_conf_mem :: bool
  se_inet :: "string \<Rightarrow> u32"
  se_db_tv :: "u64 \<times> u64"
  se_wk :: s32

definition an_init :: "(head_var \<Rightarrow> addr) \<Rightarrow> start_env \<Rightarrow> 'w prog \<Rightarrow> (s32 \<times> 'w prog) res" where
  "an_init la se g =
     (let g = g\<lparr>pg_mem := wys_mem_init (pg_mem g)\<rparr>;
          g = an_hash_and_list_init la g;
          (ret, fd) = an_tcp_sock_init (se_listen se) in
      if ret \<noteq> 0 then Inr (-1, g)
      else
        let g = g\<lparr>pg_server := an_poll_init fd (pg_server g)\<rparr>;
            g = an_timer_init la (se_sec se) (se_tv se) g;
            (c, j) = jiffies_get (fst (se_save_tv se)) (snd (se_save_tv se)) (pg_clock g);
            g = g\<lparr>pg_clock := c\<rparr> in
        res_bind (an_data_save_init j (se_save_mem se) (tc_wheel (pg_caches g))) (\<lambda>(ret, w).
          let g = g\<lparr>pg_caches := (pg_caches g)\<lparr>tc_wheel := w\<rparr>\<rparr> in
          if ret \<noteq> 0 then Inr (-1, g)
          else
            res_bind (an_database_init (se_inet se) (se_db_tv se) (se_conf se) (se_conf_mem se) (pg_db g)) (\<lambda>(ret, db).
              let g = g\<lparr>pg_db := db, pg_links := (if ret = 0 then INIT_LIST_HEAD (la Db_Free) (pg_links g) else pg_links g)\<rparr> in
              if ret \<noteq> 0 then Inr (-1, g)
              else if se_wk se \<noteq> 0 then Inr (-1, g)
              else Inr (0, g))))"

text \<open>
  The static storage of the program when it is started: zero, but for the heads with an initialiser. A group list whose head is
  zero is no list at all; the model's list for it, \<open>junk\<close>, is arbitrary.
\<close>

definition static_links :: "(head_var \<Rightarrow> addr) \<Rightarrow> list_heap" where
  "static_links la = fold (\<lambda>v. INIT_LIST_HEAD (la v))
     [Forbid_All, Group_All, Encrypt_All, User_All, Save_All, Detail_All, Qq_All, Work_All] \<lparr>nxt = (\<lambda>_. NULL_p), prv = (\<lambda>_. NULL_p)\<rparr>"

definition zero_tab :: "(nat \<Rightarrow> addr list) \<Rightarrow> 'n htab" where
  "zero_tab junk = ht_empty\<lparr>ht_group := (\<lambda>g. if g < GROUP_ID_MAX then junk g else [])\<rparr>"

definition zero_prog :: "(head_var \<Rightarrow> addr) \<Rightarrow> (nat \<Rightarrow> addr list) \<Rightarrow> 'w \<Rightarrow> 'w prog" where
  "zero_prog la junk w = \<lparr>pg_links = static_links la, pg_mem = mem_empty, pg_forbid = zero_tab junk, pg_encrypt = zero_tab junk,
     pg_groups = no_groups, pg_users = (zero_tab junk, \<lparr>ss_acts = (\<lambda>_. None), ss_groups = []\<rparr>), pg_details = (zero_tab junk, \<lambda>_. None),
     pg_qq = (zero_tab junk, \<lparr>qs_objs = (\<lambda>_. None), qs_msgs = (\<lambda>_. None)\<rparr>), pg_work = zero_tab junk,
     pg_server = \<lparr>conn_array = [], an_curfds = 0, sock_hash = hs_empty, closed_fds = [], sent_on = (\<lambda>_. []), others = w\<rparr>,
     pg_clock = \<lparr>ll_start_second = 0, ll_jiffies_second = 0\<rparr>, pg_caches = no_timed_caches, pg_db = no_conns\<rparr>"

text \<open>All heads, and what it means that they are lists.\<close>

definition head_vars :: "head_var list" where
  "head_vars = [Forbid_All, Group_All, Encrypt_All, User_All, Save_All, Detail_All, Qq_All, Work_All]
     @ concat (map (\<lambda>i. [Forbid_Grp i, User_Grp i, Encrypt_Grp i, Detail_Grp i, Qq_Grp i, Work_Grp i, Tv1 i]) [0..<256])
     @ concat (map (\<lambda>i. [Tv2 i, Tv3 i, Tv4 i, Tv5 i]) [0..<64]) @ [Db_Free]"

definition heads_ready :: "(head_var \<Rightarrow> addr) \<Rightarrow> list_heap \<Rightarrow> bool" where
  "heads_ready la h \<longleftrightarrow> (\<forall>v \<in> set head_vars. dlist h (la v) [])"

section \<open>Reading the configuration\<close>

lemma strstr_here: "strstr (p @ t) p = Some 0"
proof (cases "p @ t")
  case (Cons c cs)
  then have "is_prefix p (c # cs)" unfolding is_prefix_iff by metis
  with Cons show ?thesis by simp
qed simp

lemma block_find_here:
  assumes "CHR 0x00 \<notin> set buf" "drop i buf = p @ t"
  shows "block_find buf i p = Inr (Some i)"
proof -
  have "CHR 0x00 \<notin> set (drop i buf)" using assms(1) by (meson in_set_dropD)
  moreover have "strstr (p @ t) p = Some 0" by (rule strstr_here)
  ultimately show ?thesis using assms(2) by (simp add: block_find_def)
qed

lemma strstr_chr: "c \<notin> set pre \<Longrightarrow> strstr (pre @ c # t) [c] = Some (length pre)"
  by (induction pre) auto

lemma block_find_chr:
  assumes "CHR 0x00 \<notin> set buf" "drop i buf = pre @ c # t" "c \<notin> set pre"
  shows "block_find buf i [c] = Inr (Some (i + length pre))"
proof -
  have "CHR 0x00 \<notin> set (drop i buf)" using assms(1) by (meson in_set_dropD)
  with assms(2) strstr_chr [OF assms(3)] show ?thesis by (simp add: block_find_def)
qed

lemma block_find_line:
  assumes "CHR 0x00 \<notin> set buf" "drop i buf = c # p @ t" "p \<noteq> []" "hd p \<noteq> c"
  shows "block_find buf i p = Inr (Some (i + 1))"
proof -
  have n: "CHR 0x00 \<notin> set (drop i buf)" using assms(1) by (meson in_set_dropD)
  have "\<not> is_prefix p (c # p @ t)" using assms(3,4) by (cases p) auto
  moreover have "strstr (p @ t) p = Some 0" by (rule strstr_here)
  ultimately have "strstr (c # p @ t) p = Some 1" by simp
  with n assms(2) show ?thesis by (simp add: block_find_def)
qed

lemma conf_value_from:
  assumes buf: "CHR 0x00 \<notin> set buf" and key: "block_find buf i key = Inr (Some k)"
    and d: "drop k buf = key @ CHR '':'' # v @ NL_c # t" and c: "CHR '':'' \<notin> set key" "NL_c \<notin> set v"
  shows "conf_value buf i key = Inr (Some (k + length key + 1, k + length key + 1 + length v))"
proof -
  have "drop (k + length key + 1) buf = drop (length key + 1) (drop k buf)" by (simp add: add.commute add.left_commute)
  also have "\<dots> = v @ NL_c # t" by (simp add: d)
  finally have "block_find buf (k + length key + 1) [NL_c] = Inr (Some (k + length key + 1 + length v))"
    using block_find_chr [OF buf _ c(2)] by blast
  with key block_find_chr [OF buf d c(1)] show ?thesis by (simp add: conf_value_def)
qed

lemma conf_copy_ok:
  assumes "CHR 0x00 \<notin> set buf" "drop i buf = v @ t" "j = i + length v" "length v \<le> cap"
  shows "conf_copy cap buf i j = Inr v"
proof -
  have "CHR 0x00 \<notin> set (drop i buf)" using assms(1) by (meson in_set_dropD)
  then have "CHR 0x00 \<notin> set v" using assms(2) by simp
  then have "takeWhile (\<lambda>c. c \<noteq> CHR 0x00) v = v" by (auto simp: takeWhile_eq_all_conv)
  with assms show ?thesis by (simp add: conf_copy_def)
qed

text \<open>A configuration file: the section, the two keys, and whatever follows.\<close>

definition conf_head :: string where
  "conf_head = ''[ssdb-conf]'' @ [NL_c]"

definition conf_file :: "string \<Rightarrow> string \<Rightarrow> string \<Rightarrow> string" where
  "conf_file ip port rest = conf_head @ ''ssdb_ipaddr'' @ CHR '':'' # ip @ NL_c # ''ssdb_port'' @ CHR '':'' # port @ NL_c # rest"

lemma conf_head_len: "length conf_head = 12"
  by (simp add: conf_head_def)

lemma conf_file_values:
  assumes f: "buf = conf_file ip port rest" and z: "CHR 0x00 \<notin> set buf" and n: "NL_c \<notin> set ip" "NL_c \<notin> set port"
  shows "conf_value buf 12 ''ssdb_ipaddr'' = Inr (Some (24, 24 + length ip))"
    and "conf_value buf (24 + length ip) ''ssdb_port'' = Inr (Some (35 + length ip, 35 + length ip + length port))"
    and "drop 24 buf = ip @ NL_c # ''ssdb_port'' @ CHR '':'' # port @ NL_c # rest"
    and "drop (35 + length ip) buf = port @ NL_c # rest"
    and "block_find buf 0 (''[ssdb-conf]'' @ [NL_c]) = Inr (Some 0)"
proof -
  let ?t = "NL_c # ''ssdb_port'' @ CHR '':'' # port @ NL_c # rest"
  have d12: "drop 12 buf = ''ssdb_ipaddr'' @ CHR '':'' # ip @ ?t"
    unfolding f conf_file_def conf_head_def by simp
  show d24: "drop 24 buf = ip @ ?t" unfolding f conf_file_def conf_head_def by simp
  have "drop (24 + length ip) buf = drop (length ip) (drop 24 buf)" by (simp add: add.commute)
  then have dk: "drop (24 + length ip) buf = ?t" unfolding d24 by simp
  have "drop (Suc (24 + length ip)) buf = drop 1 (drop (24 + length ip) buf)" by simp
  then have dk1: "drop (24 + length ip + 1) buf = ''ssdb_port'' @ CHR '':'' # port @ NL_c # rest" unfolding dk by simp
  have "drop (35 + length ip) buf = drop 11 (drop (24 + length ip) buf)" by (simp add: add.commute)
  then show "drop (35 + length ip) buf = port @ NL_c # rest" unfolding dk by simp
  show "block_find buf 0 (''[ssdb-conf]'' @ [NL_c]) = Inr (Some 0)"
    by (rule block_find_here [OF z]) (simp add: f conf_file_def conf_head_def)
  from conf_value_from [OF z block_find_here [OF z d12] d12 _ n(1)]
  show "conf_value buf 12 ''ssdb_ipaddr'' = Inr (Some (24, 24 + length ip))" by simp
  have "block_find buf (24 + length ip) ''ssdb_port'' = Inr (Some (24 + length ip + 1))"
    by (rule block_find_line [OF z dk]) simp_all
  from conf_value_from [OF z this dk1 _ n(2)]
  show "conf_value buf (24 + length ip) ''ssdb_port'' = Inr (Some (35 + length ip, 35 + length ip + length port))"
    by (simp add: add.commute)
qed

lemma port_word: "n < 65536 \<Longrightarrow> ucast (atoi (dec_string n)) = (of_nat n :: u16)"
proof -
  assume n: "n < 65536"
  then have "sint (atoi (dec_string n)) = int n" using atoi_dec_rest [of n "[]"] by (simp add: cat_def is_digit_c_def uchar_def)
  then have "sint (atoi (dec_string n)) = sint (of_nat n :: s32)" using n sint_of_nat32 [of n] by simp
  then have "atoi (dec_string n) = of_nat n" by (rule signed_word_eqI)
  then show ?thesis using n by (simp add: unsigned_of_nat take_bit_nat_eq_self)
qed

lemma database_conf_read:
  assumes "CHR 0x00 \<notin> set ip" "NL_c \<notin> set ip" "CHR 0x00 \<notin> set rest" "n < 65536"
    and "length (conf_file ip (dec_string n) rest) < 2 ^ 31"
  shows "an_database_init inet tv (Some (conf_file ip (dec_string n) rest)) True s
      = (if length ip < 32 then Inr (0, dbinit inet tv ip (of_nat n) s) else Inl Out_Of_Bounds)"
proof -
  let ?b = "conf_file ip (dec_string n) rest"
  have dg: "\<forall>c \<in> set (dec_string n). is_digit_c c" using dec_string_all_digits by (simp add: list_all_iff)
  have dn: "CHR 0x00 \<notin> set (dec_string n)" "NL_c \<notin> set (dec_string n)" using dg by (auto simp: is_digit_c_def uchar_def)
  have z: "CHR 0x00 \<notin> set ?b" using assms(1,3) dn(1) by (simp add: conf_file_def conf_head_def)
  note v = conf_file_values [OF refl z assms(2) dn(2)]
  have len: "0 < sint (of_nat (length ?b) :: s32)" 
    unfolding sint_of_nat32 [OF assms(5)] by (simp add: conf_file_def)
  have l8: "length (dec_string n) < 8" using length_dec_string [of n 5] assms(4) by simp
  have ip: "conf_copy 32 ?b 24 (24 + length ip) = (if length ip \<le> 32 then Inr ip else Inl Out_Of_Bounds)"
    using conf_copy_ok [OF z v(3) refl, of 32] by (auto simp: conf_copy_def)
  have po: "conf_copy 8 ?b (35 + length ip) (35 + length ip + length (dec_string n)) = Inr (dec_string n)"
    using conf_copy_ok [OF z v(4) refl, of 8] l8 by simp
  show ?thesis
    using len v(1,2,5) ip po l8 port_word [OF assms(4)]
    by (cases "length ip < 32"; cases "length ip = 32") (simp_all add: an_database_init_def array_string_def)
qed

section \<open>The state after the start\<close>

lemma dlist_INIT: "dlist (INIT_LIST_HEAD p h) q [] \<longleftrightarrow> q = p \<or> dlist h q []"
  by (auto simp: dlist_def INIT_LIST_HEAD_def)

lemma dlist_init_array: "dlist (init_array v n h) q [] \<longleftrightarrow> (\<exists>i < n. q = v i) \<or> dlist h q []"
  by (induction n) (auto simp: init_array_def dlist_INIT less_Suc_eq)

lemma dlist_init_vectors:
  "dlist (init_vectors la h) q [] \<longleftrightarrow> (\<exists>i < 256. q = la (Tv1 i)) \<or> (\<exists>i < 64. q \<in> {la (Tv2 i), la (Tv3 i), la (Tv4 i), la (Tv5 i)}) \<or> dlist h q []"
proof -
  have "dlist (fold (\<lambda>j h. INIT_LIST_HEAD (la (Tv2 j)) (INIT_LIST_HEAD (la (Tv3 j)) (INIT_LIST_HEAD (la (Tv4 j))
          (INIT_LIST_HEAD (la (Tv5 j)) h)))) [0..<n] h) q []
      \<longleftrightarrow> (\<exists>i < n. q \<in> {la (Tv2 i), la (Tv3 i), la (Tv4 i), la (Tv5 i)}) \<or> dlist h q []" for n
    by (induction n) (auto simp: dlist_INIT less_Suc_eq)
  then show ?thesis unfolding init_vectors_def dlist_init_array by blast
qed

lemma links_ready: "heads_ready la (INIT_LIST_HEAD (la Db_Free) (init_vectors la (init_group_lists la (static_links la))))"
  by (auto simp: heads_ready_def head_vars_def dlist_INIT dlist_init_vectors dlist_init_array init_group_lists_def static_links_def)

lemma init_empty [simp]: "init_heads (zero_tab junk) = ht_empty" "init_hash hs_empty = hs_empty"
  by (simp_all add: init_heads_def ht_empty_def zero_tab_def init_hash_def hs_empty_def fun_eq_iff)

lemma zero_tab_empty [simp]: "zero_tab (\<lambda>_. []) = ht_empty"
  by (simp add: zero_tab_def ht_empty_def)

text \<open>The storage with its lists made.\<close>

definition clean_prog :: "(head_var \<Rightarrow> addr) \<Rightarrow> 'w \<Rightarrow> 'w prog" where
  "clean_prog la w = (zero_prog la (\<lambda>_. []) w)\<lparr>pg_links := init_group_lists la (static_links la)\<rparr>"

lemma hash_init_zero: "an_hash_and_list_init la (zero_prog la junk w) = clean_prog la w"
  by (simp add: an_hash_and_list_init_def zero_prog_def clean_prog_def no_groups_def no_timed_caches_def)

lemma mem_init_zero: "wys_mem_init mem_empty = mem_empty"
  by (simp add: wys_mem_init_def mem_empty_def fun_eq_iff)

lemma dbinit_pool: "pool_ok (dbinit inet tv ip port no_conns)" "busy (dbinit inet tv ip port no_conns) = {}"
  by (simp_all add: dbinit_def no_conns_def pool_ok_def busy_def)

lemma database_init_pool:
  assumes "an_database_init inet tv conf mem no_conns = Inr (ret, db)"
  shows "pool_ok db \<and> busy db = {}"
  using assms quiet_ok(2,3) dbinit_pool [of inet tv]
  by (auto simp: an_database_init_def split: option.splits if_splits prod.splits)

text \<open>A reading of the clock in the first seconds of the program.\<close>

lemma jiffies_small:
  assumes "jiffies_get sec usec c = (c', j)" "unat usec < 1000000" "unat (ll_jiffies_second c) \<le> k" "k \<le> 100"
  shows "unat j < (k + 3) * 1000 \<and> unat (ll_jiffies_second c') \<le> k + 2"
proof -
  have d: "unat (ll_jiffies_second c' - ll_jiffies_second c) \<le> 2" and j: "j = usec div 1000 + ll_jiffies_second c' * 1000"
    using clock_steps [of sec usec c] assms(1) by auto
  have "unat (ll_jiffies_second c') \<le> unat (ll_jiffies_second c' - ll_jiffies_second c) + unat (ll_jiffies_second c)"
    using unat_plus_if' [of "ll_jiffies_second c' - ll_jiffies_second c" "ll_jiffies_second c"] by (simp split: if_splits)
  with d assms(3) have s: "unat (ll_jiffies_second c') \<le> k + 2" by simp
  then have m: "unat (ll_jiffies_second c' * 1000) = unat (ll_jiffies_second c') * 1000"
    using assms(4) by (simp add: unat_word_ariths)
  have u: "unat (usec div 1000) < 1000" using assms(2) by (simp add: unat_div_distrib) 
  have "unat j = unat (usec div 1000) + unat (ll_jiffies_second c') * 1000"
    unfolding j using m u s assms(4) by (simp add: unat_word_ariths)
  with u s show ?thesis by simp
qed

definition started :: "(head_var \<Rightarrow> addr) \<Rightarrow> s32 \<Rightarrow> clock \<Rightarrow> wheel \<Rightarrow> db_state \<Rightarrow> 'w prog \<Rightarrow> 'w prog" where
  "started la fd c wh db g = g\<lparr>pg_links := INIT_LIST_HEAD (la Db_Free) (init_vectors la (pg_links g)), pg_server := an_poll_init fd (pg_server g), pg_clock := c,
     pg_caches := no_timed_caches\<lparr>tc_wheel := wh\<rparr>, pg_db := db\<rparr>"

lemma started_sel:
  "pg_links (started la fd c wh db g) = INIT_LIST_HEAD (la Db_Free) (init_vectors la (pg_links g))"
  "pg_mem (started la fd c wh db g) = pg_mem g" "pg_forbid (started la fd c wh db g) = pg_forbid g"
  "pg_encrypt (started la fd c wh db g) = pg_encrypt g" "pg_groups (started la fd c wh db g) = pg_groups g"
  "pg_users (started la fd c wh db g) = pg_users g" "pg_details (started la fd c wh db g) = pg_details g"
  "pg_qq (started la fd c wh db g) = pg_qq g" "pg_work (started la fd c wh db g) = pg_work g"
  "pg_server (started la fd c wh db g) = an_poll_init fd (pg_server g)"
  "pg_caches (started la fd c wh db g) = no_timed_caches\<lparr>tc_wheel := wh\<rparr>" "pg_db (started la fd c wh db g) = db"
  by (simp_all add: started_def)

lemma an_init_cases:
  assumes "an_init la se (zero_prog la junk w) = Inr (0, g)"
  obtains fd w1 db c1 j1 c2 j2 where "an_tcp_sock_init (se_listen se) = (0, fd)"
    "jiffies_get (fst (se_tv se)) (snd (se_tv se)) (jiffies_init (se_sec se) (pg_clock (clean_prog la w))) = (c1, j1)"
    "jiffies_get (fst (se_save_tv se)) (snd (se_save_tv se)) c1 = (c2, j2)"
    "an_data_save_init j2 (se_save_mem se) (init_timers_cpu j1 fresh_wheel) = Inr (0, w1)"
    "an_database_init (se_inet se) (se_db_tv se) (se_conf se) (se_conf_mem se) no_conns = Inr (0, db)"
    "g = started la fd c2 w1 db (clean_prog la w)"
proof -
  let ?z = "clean_prog la w" and ?start = "zero_prog la junk w"
  have z: "an_hash_and_list_init la (?start\<lparr>pg_mem := wys_mem_init (pg_mem ?start)\<rparr>) = ?z"
    using hash_init_zero [of la junk w] by (simp add: zero_prog_def mem_init_zero)
  have sel: "tc_wheel (pg_caches ?z) = fresh_wheel" "pg_db ?z = no_conns" "pg_caches ?z = no_timed_caches"
    "tc_wheel no_timed_caches = fresh_wheel"
    by (simp_all add: clean_prog_def zero_prog_def no_timed_caches_def)
  obtain ret fd where t: "an_tcp_sock_init (se_listen se) = (ret, fd)" by fastforce
  obtain c1 j1 where j1: "jiffies_get (fst (se_tv se)) (snd (se_tv se)) (jiffies_init (se_sec se) (pg_clock ?z)) = (c1, j1)"
    by fastforce
  obtain c2 j2 where j2: "jiffies_get (fst (se_save_tv se)) (snd (se_save_tv se)) c1 = (c2, j2)" by fastforce
  from assms obtain w1 db where "ret = 0" "an_data_save_init j2 (se_save_mem se) (init_timers_cpu j1 fresh_wheel) = Inr (0, w1)"
    "an_database_init (se_inet se) (se_db_tv se) (se_conf se) (se_conf_mem se) no_conns = Inr (0, db)"
    "g = started la fd c2 w1 db ?z"
    unfolding an_init_def Let_def z t prod.case
    by (auto simp: an_timer_init_def j1 j2 sel started_def split: if_splits)
  with t j1 j2 that show thesis by blast
qed

lemma empty_tables_ok:
  "Mem_Tracker.mem_ok (pg_mem (clean_prog la w))" "forbid_inv (pg_forbid (clean_prog la w))" "encrypt_inv (pg_encrypt (clean_prog la w))"
  "groups_inv (pg_groups (clean_prog la w))" "ut.owners_ok (pg_users (clean_prog la w))" "dt.owners_ok (pg_details (clean_prog la w))"
  "qt.owners_ok (pg_qq (clean_prog la w))" "ht_vals (pg_work (clean_prog la w)) = []"
  by (simp_all add: clean_prog_def zero_prog_def forbid_inv_def encrypt_inv_def forbid_excl_def ht_uniq_def ut.owners_ok_def dt.owners_ok_def
      qt.owners_ok_def)

lemma save_timer:
  assumes j: "unat j < 3000" "unat k < 5000" and a: "a \<noteq> NULL_p" "a < 2 ^ 64"
    and w: "an_data_save_init k (Some a) (init_timers_cpu j fresh_wheel) = Inr (r, w)"
  shows "tc_inv (\<lambda>_. unat (k + 60000)) (no_timed_caches\<lparr>tc_wheel := w\<rparr>) \<and> tw_work w = []
    \<and> (\<forall>m i. unat i < 2 ^ 31 \<longrightarrow> other_ok (save_handler m i) w) \<and> tw_pending w = (\<lambda>b. b = a) \<and> tw_expires w a = k + 60000"
proof -
  define v where "v = setup_timer a SAVE_FN (of_nat a) (init_timers_cpu j fresh_wheel)"
  have v: "tw_pending v = (\<lambda>_. False)" "tw_vec v = (\<lambda>_ _. [])" "tw_work v = []" "tw_jiffies v = j"
    "tw_function v = (\<lambda>_. 0)(a := SAVE_FN)" "tw_data v = (\<lambda>_. 0)(a := of_nat a)"
    by (auto simp: v_def setup_timer_def init_timer_def init_timers_cpu_def fresh_wheel_def)
  let ?u = "v\<lparr>tw_expires := (tw_expires v)(a := k + 60 * HZ)\<rparr>"
  have e: "k + 60 * HZ = k + 60000" "unat (k + 60000) = unat k + 60000" using j(2) by (simp_all add: unat_word_ariths)
  have "tw_ok (\<lambda>_. unat (k + 60000)) ?u" using v j(1) by (simp add: tw_inv_def once_def in_vecs_def)
  moreover have "unat (k + 60000) < tw_now ?u + 2 ^ 32" using e(2) j(2) by simp
  ultimately have m: "tw_inv ((\<lambda>_. unat (k + 60000))(a := max (tw_now ?u) (unat (k + 60000)))) (set (tw_work ?u) - {a}) (add_timer a ?u)"
    "tw_work (add_timer a ?u) = []" "tw_pending (add_timer a ?u) = (tw_pending ?u)(a := True)"
    "tw_expires (add_timer a ?u) a = k + 60000" "tw_jiffies (add_timer a ?u) = j"
    using mod_raw_ok [of _ ?u "k + 60000" a] v e(1) by (simp_all add: add_timer_def)
  have mx: "(\<lambda>_. unat (k + 60000))(a := max (tw_now ?u) (unat (k + 60000))) = (\<lambda>_. unat (k + 60000))"
    using v(4) j(1) e(2) by (auto simp: fun_eq_iff)
  have w': "w = add_timer a ?u" using w by (simp add: an_data_save_init_def v_def Let_def)
  have fw: "tw_function w = (\<lambda>_. 0)(a := SAVE_FN)" "tw_data w = (\<lambda>_. 0)(a := of_nat a)" using v by (simp_all add: w')
  have nc: "\<not> cache_timer w b" for b by (simp add: cache_timer_def fw)
  have "cache_pend w b = cache_pend fresh_wheel b" for b
    using nc [of b] by (auto simp: cache_timer_def cache_pend_def wheel_pend_def fresh_wheel_def)
  then have "cache_pend w = cache_pend fresh_wheel" by (rule ext)
  then have "tc_abs (no_timed_caches\<lparr>tc_wheel := w\<rparr>) = tc_abs no_timed_caches" by (simp add: tc_abs_def no_timed_caches_def)
  then have "tc_inv (\<lambda>_. unat (k + 60000)) (no_timed_caches\<lparr>tc_wheel := w\<rparr>)"
    using m(1,2) v(3) nc tc_invD(2) [OF no_timed_caches_inv] unfolding tc_inv_def mx by (simp add: w')
  moreover have "other_ok (save_handler mem i) w" if i: "unat i < 2 ^ 31" for mem i
  proof -
    have "unat (i + 600000) = unat i + 600000" using i by (simp add: unat_word_ariths)
    with i a(2) show ?thesis
      by (simp add: other_ok_def save_handler_def an_auto_data_save_timeout_def fw unat_of_nat take_bit_nat_eq_self)
  qed
  moreover have "(\<lambda>_. False)(a := True) = (\<lambda>b. b = a)" by (simp add: fun_eq_iff)
  ultimately show ?thesis using m v(1) by (simp add: w')
qed

text \<open>
  C40: reading the address of the database. A file with the section and both keys in order sets exactly the address and
  the port it names, whatever follows. An address of 32 bytes or more is copied or read outside its array of 32 bytes; and a
  file with the section but without the key of the address is read behind its block, which has no terminator.
\<close>

theorem database_conf:
  assumes "CHR 0x00 \<notin> set ip" "NL_c \<notin> set ip" "CHR 0x00 \<notin> set rest" "n < 65536"
    and "length (conf_file ip (dec_string n) rest) < 2 ^ 31"
    and "CHR 0x00 \<notin> set other" "length (conf_head @ other) < 2 ^ 31" "\<forall>u v. other \<noteq> u @ ''ssdb_ipaddr'' @ v"
  shows "an_database_init inet tv (Some (conf_file ip (dec_string n) rest)) True s
      = (if length ip < 32 then Inr (0, dbinit inet tv ip (of_nat n) s) else Inl Out_Of_Bounds)
    \<and> an_database_init inet tv (Some (conf_head @ other)) True s = Inl Out_Of_Bounds"
proof
  show "an_database_init inet tv (Some (conf_file ip (dec_string n) rest)) True s
      = (if length ip < 32 then Inr (0, dbinit inet tv ip (of_nat n) s) else Inl Out_Of_Bounds)"
    by (rule database_conf_read [OF assms(1-5)])
next
  let ?b = "conf_head @ other"
  have z: "CHR 0x00 \<notin> set ?b" using assms(6) by (simp add: conf_head_def)
  have len: "0 < sint (of_nat (length ?b) :: s32)" 
    unfolding sint_of_nat32 [OF assms(7)] by (simp add: conf_head_def)
  have h: "block_find ?b 0 (''[ssdb-conf]'' @ [NL_c]) = Inr (Some 0)"
    by (rule block_find_here [OF z]) (simp add: conf_head_def)
  have "strstr other ''ssdb_ipaddr'' = None" using strstr_Some assms(8) by (metis option.exhaust)
  moreover have "drop 12 ?b = other" using conf_head_len by simp
  ultimately have "conf_value ?b 12 ''ssdb_ipaddr'' = Inl Out_Of_Bounds"
    using assms(6) by (simp add: conf_value_def block_find_def)
  with len h show "an_database_init inet tv (Some ?b) True s = Inl Out_Of_Bounds" by (simp add: an_database_init_def)
qed


definition local_conf :: string where
  "local_conf = conf_file ''127.0.0.1'' (dec_string 8888) []"

lemma local_conf_len: "length local_conf < 2 ^ 31"
proof -
  have "length (dec_string 8888) \<le> 4" using length_dec_string [of 8888 3] by simp
  then show ?thesis by (simp add: local_conf_def conf_file_def conf_head_def)
qed

theorem database_conf_witness:
  "an_database_init (\<lambda>_. 7) (0, 0) (Some local_conf) True no_conns = Inr (0, dbinit (\<lambda>_. 7) (0, 0) ''127.0.0.1'' 8888 no_conns)"
proof -
  note local_conf_len
  with database_conf [of "''127.0.0.1''" "[]" 8888 "[]" "\<lambda>_. 7" "(0, 0)" no_conns] show ?thesis
    by (simp add: local_conf_def conf_head_def)
qed

text \<open>
  C14: the state after the start, from storage that is zero but for the static initialisers, wherever the list heads lie. When \<open>an_init\<close> returns 0, the listening socket was made, bound at one of eleven attempts and
  listens, and everything the rest of the program relies on holds: the head of every list (of all nodes, of the
  groups, of the timer wheel, of the free connections) links to itself, tracker, rule tables, groups, user tables and work rules are
  consistent and empty, the poll array holds the listening descriptor and no connection, the wheel is consistent with the timer of
  the periodic saving pending in a minute and no cache, the callback of that timer keeps off the caches, and the pool of the database is
  consistent with nothing in use.
\<close>

theorem start_establishes_invariants:
  assumes "an_init la se (zero_prog la junk w) = Inr (0, g)" "0 \<le> sint (le_socket (se_listen se))"
    and "unat (snd (se_tv se)) < 1000000" "unat (snd (se_save_tv se)) < 1000000"
    and "\<forall>a. se_save_mem se = Some a \<longrightarrow> a \<noteq> NULL_p \<and> a < 2 ^ 64"
  shows "(\<exists>i \<le> 10. le_bind (se_listen se) i) \<and> heads_ready la (pg_links g) \<and> Mem_Tracker.mem_ok (pg_mem g)
    \<and> forbid_inv (pg_forbid g) \<and> encrypt_inv (pg_encrypt g) \<and> groups_inv (pg_groups g) \<and> ut.owners_ok (pg_users g)
    \<and> dt.owners_ok (pg_details g) \<and> qt.owners_ok (pg_qq g) \<and> ht_vals (pg_work g) = []
    \<and> srv_ok (pg_server g) \<and> fd_at (pg_server g) 0 = le_socket (se_listen se) \<and> an_curfds (pg_server g) = 1
    \<and> others (pg_server g) = w
    \<and> (\<exists>due. tc_inv due (pg_caches g)) \<and> cache_linked (tc_abs (pg_caches g)) = {} \<and> tw_work (tc_wheel (pg_caches g)) = []
    \<and> (\<exists>t. tw_pending (tc_wheel (pg_caches g)) = (\<lambda>b. b = t) \<and> unat (tw_expires (tc_wheel (pg_caches g)) t) < 65000)
    \<and> (\<forall>m i. unat i < 2 ^ 31 \<longrightarrow> other_ok (save_handler m i) (tc_wheel (pg_caches g)))
    \<and> pool_ok (pg_db g) \<and> busy (pg_db g) = {}"
proof -
  let ?z = "clean_prog la w"
  obtain fd w1 db c1 j1 c2 j2 where t: "an_tcp_sock_init (se_listen se) = (0, fd)"
    and j1: "jiffies_get (fst (se_tv se)) (snd (se_tv se)) (jiffies_init (se_sec se) (pg_clock ?z)) = (c1, j1)"
    and j2: "jiffies_get (fst (se_save_tv se)) (snd (se_save_tv se)) c1 = (c2, j2)"
    and w1: "an_data_save_init j2 (se_save_mem se) (init_timers_cpu j1 fresh_wheel) = Inr (0, w1)"
    and db: "an_database_init (se_inet se) (se_db_tv se) (se_conf se) (se_conf_mem se) no_conns = Inr (0, db)"
    and g: "g = started la fd c2 w1 db ?z"
    using an_init_cases [OF assms(1)] .
  from w1 obtain a where a: "se_save_mem se = Some a" by (auto simp: an_data_save_init_def split: option.splits)
  have "unat (ll_jiffies_second (jiffies_init (se_sec se) (pg_clock ?z))) \<le> 0" by (simp add: jiffies_init_def clean_prog_def zero_prog_def)
  from jiffies_small [OF j1 assms(3) this] have s1: "unat j1 < 3000" "unat (ll_jiffies_second c1) \<le> 2" by simp_all
  from jiffies_small [OF j2 assms(4) s1(2)] have s2: "unat j2 < 5000" by simp
  have aa: "a \<noteq> NULL_p" "a < 2 ^ 64" using assms(5) a by simp_all
  note sv = save_timer [OF s1(1) s2 aa w1 [unfolded a]]
  have "unat (j2 + 60000) < 65000" using s2 by (simp add: unat_word_ariths)
  with sv have ex: "\<exists>t. tw_pending w1 = (\<lambda>b. b = t) \<and> unat (tw_expires w1 t) < 65000" by (intro exI [of _ a]) simp
  have ln: "le_socket (se_listen se) = fd" "\<exists>i \<le> 10. le_bind (se_listen se) i" using t by (simp_all add: tcp_sock_init_iff)
  have sr: "srv_ok (an_poll_init fd (pg_server ?z))"
    using assms(2) ln(1) by (intro poll_init_ok) (simp_all add: clean_prog_def zero_prog_def)
  have cl: "cache_linked (tc_abs (no_timed_caches\<lparr>tc_wheel := w1\<rparr>)) = {}"
    by (simp add: cache_linked_def no_timed_caches_def hs_empty_def)
  show ?thesis
    unfolding g started_sel using ln sr cl ex sv database_init_pool [OF db] empty_tables_ok
    by (intro conjI) (auto simp: links_ready an_poll_init_def clean_prog_def zero_prog_def)
qed

definition good_start :: start_env where
  "good_start = \<lparr>se_listen = \<lparr>le_socket = 3, le_noblock = True, le_bind = (\<lambda>i. i = 4), le_listen = True\<rparr>, se_sec = 1000,
     se_tv = (1000, 0), se_save_tv = (1001, 5000), se_save_mem = Some 64, se_conf = Some local_conf, se_conf_mem = True,
     se_inet = (\<lambda>_. 7), se_db_tv = (1001, 0), se_wk = 0\<rparr>"

lemma local_conf_read:
  "an_database_init inet tv (Some local_conf) True s = Inr (0, dbinit inet tv ''127.0.0.1'' 8888 s)"
  using database_conf_read [of "''127.0.0.1''" "[]" 8888 inet tv s] local_conf_len by (simp add: local_conf_def)

text \<open>Heads of 16 bytes, one behind the other.\<close>

fun some_layout :: "head_var \<Rightarrow> addr" where
  "some_layout Forbid_All = 4096" | "some_layout Group_All = 4112" | "some_layout Encrypt_All = 4128" | "some_layout User_All = 4144"
| "some_layout Save_All = 4160" | "some_layout Detail_All = 4176" | "some_layout Qq_All = 4192" | "some_layout Work_All = 4208"
| "some_layout Db_Free = 4224"
| "some_layout (Forbid_Grp i) = 8192 + 16 * i" | "some_layout (User_Grp i) = 12288 + 16 * i" | "some_layout (Encrypt_Grp i) = 16384 + 16 * i"
| "some_layout (Detail_Grp i) = 20480 + 16 * i" | "some_layout (Qq_Grp i) = 24576 + 16 * i" | "some_layout (Work_Grp i) = 28672 + 16 * i"
| "some_layout (Tv1 i) = 32768 + 16 * i" | "some_layout (Tv2 i) = 36864 + 16 * i" | "some_layout (Tv3 i) = 40960 + 16 * i"
| "some_layout (Tv4 i) = 45056 + 16 * i" | "some_layout (Tv5 i) = 49152 + 16 * i"

theorem start_establishes_invariants_witness:
  "\<exists>g :: unit prog. an_init some_layout good_start (zero_prog some_layout (\<lambda>_. [9]) ()) = Inr (0, g)
     \<and> heads_ready some_layout (pg_links g) \<and> forbid_inv (pg_forbid g) \<and> srv_ok (pg_server g) \<and> pool_ok (pg_db g)"
proof -
  have t: "an_tcp_sock_init (se_listen good_start) = (0, 3)"
    by (auto simp: tcp_sock_init_iff good_start_def intro: exI [of _ 4])
  have "\<exists>g :: unit prog. an_init some_layout good_start (zero_prog some_layout (\<lambda>_. [9]) ()) = Inr (0, g)"
    unfolding an_init_def Let_def t prod.case case_prod_beta
    using local_conf_read
    by (simp add: good_start_def an_data_save_init_def Let_def an_hash_and_list_init_def an_timer_init_def zero_prog_def case_prod_beta)
  then obtain g :: "unit prog" where g: "an_init some_layout good_start (zero_prog some_layout (\<lambda>_. [9]) ()) = Inr (0, g)" by blast
  from start_establishes_invariants [OF g] show ?thesis
    using g by (auto simp: good_start_def)
qed

end
