(* ===== verification/Spec2Isabelle.thy ===== *)
theory Spec2Isabelle
  imports Hash_Rules Hash_Users Timer_Wheel Mem_Tracker Thread_Pool List_Sort Data_Purge Startup
begin

text \<open>
  \<^bold>\<open>A verification development for the analyzer server (\<open>TCP_C/\<close>).\<close>

  \<^bold>\<open>The program.\<close> The repository's own program is a server in C. \<^verbatim>\<open>main.c\<close> accepts connections, polls them,
  and cuts what it receives into requests, each one JSON object. \<^verbatim>\<open>allocator.c\<close> reads a request with
  \<^verbatim>\<open>cJSON.c\<close>, turns it into a task and looks up or creates the page cache of the administrator who sent it
  (\<^verbatim>\<open>hash.c\<close>), whose timeout is a timer of the wheel in \<^verbatim>\<open>timer.c\<close>. The tables of \<^verbatim>\<open>hash.c\<close> hold rules,
  work rules, groups, sockets, statistics, detail records and chats; their nodes are chained with the
  intrusive lists of \<^verbatim>\<open>list.h\<close> and allocated through the tracker of \<^verbatim>\<open>mem.c\<close>. Tasks are run by the pool of
  \<^verbatim>\<open>thread.c\<close>. Data are kept in an SSDB database through the client \<^verbatim>\<open>db.c\<close>. \<^verbatim>\<open>public.c\<close> has the helpers.

  \<^bold>\<open>Theories and the code they model.\<close>

  \<^item> \<^verbatim>\<open>Prelude\<close>: machine integers as words of their width, faults of C (NULL dereference, access out of bounds,
    use after free, failed assertion, overflow of a signed counter) as the left side of a result, lemmas on lists, maps and words.
  \<^item> \<^verbatim>\<open>Kernel_List\<close> (\<^verbatim>\<open>list.h\<close>): \<open>list_head\<close> and \<open>hlist\<close> operations as updates of next, prev and pprev pointers.
    The relations \<open>dlist\<close> and \<open>hchain\<close> say which list of nodes the pointers hold; every operation refines
    the operation on that list.
  \<^item> \<^verbatim>\<open>List_Sort\<close> (\<^verbatim>\<open>hash.c\<close>: \<open>list_quick_sort\<close> and its helpers, \<open>sort_list_to_new_list\<close>): sorting by relinking
    nodes.
  \<^item> \<^verbatim>\<open>Public_Util\<close> (\<^verbatim>\<open>public.c\<close>): splitting, searching, number and time helpers, on bytes.
  \<^item> \<^verbatim>\<open>Hash_Table\<close>: the shape all tables share, a heap of nodes with chains and lists of addresses, and its invariant.
    \<^verbatim>\<open>Hash_Rules\<close>, \<^verbatim>\<open>Hash_Ids\<close>, \<^verbatim>\<open>Web_Cache\<close>, \<^verbatim>\<open>Hash_Work\<close>, \<^verbatim>\<open>Hash_Users\<close> (\<^verbatim>\<open>hash.c\<close>): the tables, one group of
    definitions per table in the order of the source.
  \<^item> \<^verbatim>\<open>Timer_Wheel\<close> (\<^verbatim>\<open>timer.c\<close>): the five levels of buckets, \<open>internal_add_timer\<close>, \<open>cascade\<close>, \<open>__run_timers\<close>,
    with callbacks as the timer calls they make.
  \<^item> \<^verbatim>\<open>Mem_Tracker\<close> (\<^verbatim>\<open>mem.c\<close>): \<open>_malloc\<close>, \<open>_realloc\<close>, \<open>_free\<close> and the listing, over the heap they track.
  \<^item> \<^verbatim>\<open>Thread_Pool\<close> (\<^verbatim>\<open>thread.c\<close>): every worker, the callers of \<open>pool_add_task\<close> and the caller of \<open>pool_destroy\<close> as an
    inductive step relation between the points where a lock is taken or given up.
  \<^item> \<^verbatim>\<open>Packet_Split\<close>, \<^verbatim>\<open>Connections\<close> (\<^verbatim>\<open>main.c\<close>): the receive buffer, and the poll array with accepting, receiving,
    sending, closing and one pass of \<open>an_poll\<close>.
  \<^item> \<^verbatim>\<open>CJson\<close> (\<^verbatim>\<open>cJSON.c\<close>): parser and printer on the bytes of the text, and the operations on a tree.
  \<^item> \<^verbatim>\<open>Allocator\<close> (\<^verbatim>\<open>allocator.c\<close>): \<open>al_allocate_task\<close> with everything it calls.
  \<^item> \<^verbatim>\<open>Server\<close>: the event loop with the allocator behind it.
  \<^item> \<^verbatim>\<open>Cache_Expiry\<close> (\<^verbatim>\<open>hash.c\<close>, \<^verbatim>\<open>timer.c\<close>, \<^verbatim>\<open>allocator.c\<close>): the page caches with their timers linked into the wheel, the
    timeout as the callback of the wheel, and the request that creates or prolongs a cache.
  \<^item> \<^verbatim>\<open>Data_Purge\<close> (\<^verbatim>\<open>auto_data_save.c\<close>: the functions \<open>ww_del_...\<close>): purging old records, with the database as a parameter.
  \<^item> \<^verbatim>\<open>Startup\<close> (\<^verbatim>\<open>main.c\<close>: \<open>an_init\<close> and what it calls; \<^verbatim>\<open>hash.c\<close>: \<open>an_hash_and_list_init\<close>; \<^verbatim>\<open>auto_data_save.c\<close>: the
    saving timer): the state of the whole program as one record, and the start.
  \<^item> \<^verbatim>\<open>Db_Wire\<close>, \<^verbatim>\<open>Db_Client\<close> (\<^verbatim>\<open>db.c\<close>): the messages of the database, and the connection pool with all operations.

  \<^bold>\<open>How code becomes definitions.\<close> A C string is a list of characters without NUL; a buffer is the list of its
  bytes, with its size, and every access outside it is a fault. A structure is a record, an address a natural
  number (0 is NULL). What the operating system and the C library return (\<open>malloc\<close>, \<open>recv\<close>, \<open>send\<close>, \<open>accept\<close>, the
  time) is an argument, so that a theorem holds for every outcome. Sizes of types are those of a 64-bit Linux.

  \<^bold>\<open>Interfaces.\<close>

  \<^item> \<open>unlinkable\<close> (\<^verbatim>\<open>Kernel_List\<close>): what the users of a list need of taking out a node; interpreted on \<open>list_del\<close> and
    \<open>list_del_init\<close>.
  \<^item> \<open>compare_fun\<close> (\<^verbatim>\<open>List_Sort\<close>): what the sorting routines need of the function they are given; interpreted on
    \<open>list_commen_compare_fun\<close> for every member and type of it.
  \<^item> \<open>keyed_table\<close> (\<^verbatim>\<open>Hash_Table\<close>): lookup after deletion and insertion; interpreted on the rule tables, the sockets and
    the groups. \<open>owner_table\<close> (\<^verbatim>\<open>Hash_Users\<close>): deleting the users of a group with what they own; interpreted on the three
    tables of users.
  \<^item> \<open>timer_store\<close> (\<^verbatim>\<open>Cache_Expiry\<close>): what the caches need of timers; interpreted on \<open>mod_timer\<close> and on \<open>add_timer\<close>, each with
    \<open>del_timer\<close>.
  \<^item> \<open>task_sink\<close> (\<^verbatim>\<open>Connections\<close>): what the event loop needs of the receiver of requests; interpreted on the allocator
    in \<^verbatim>\<open>Server\<close>.

  \<^bold>\<open>What is shown.\<close>

  \<^item> From bytes to tasks: on a connection whose receive buffer has room and a NUL behind the bytes, the pieces of a request are
    kept until it is complete, and then it becomes exactly one task with the fields of the request (\<^verbatim>\<open>Server\<close>, \<^verbatim>\<open>Allocator\<close>); the first
    bytes of a connection are read past the end of their block. What the two kinds of requests with lists do, their faults included, is
    stated apart (\<^verbatim>\<open>Allocator\<close>). Every pass of the event loop keeps array, high-water mark and socket table
    consistent.
  \<^item> Data structures: every operation keeps the invariant of its structure and does what the abstract list, table or
    set does (\<^verbatim>\<open>Kernel_List\<close>, \<^verbatim>\<open>List_Sort\<close>, the tables, \<^verbatim>\<open>Mem_Tracker\<close>). A tick fires only timers that
    are due, and all of them that no callback of the same tick changes (\<^verbatim>\<open>Timer_Wheel\<close>).
  \<^item> Life of a page cache: the wheel refines the map of timers the tables are proved against, and a cache is found until one
    hour after its last request and not longer (\<^verbatim>\<open>Cache_Expiry\<close>). A successful start makes lists of the zeroed list heads and establishes the
    invariants everything else starts from (\<^verbatim>\<open>Startup\<close>).
  \<^item> Purging: of the records of a user only those more than a second older than a given time are deleted, and all of them when no two are a
    second apart; for detail records the code deletes too much (\<^verbatim>\<open>Data_Purge\<close>).
  \<^item> Texts: what \<open>cJSON_Print\<close> writes is read back as the same tree, the database requests are read back as sent,
    escapes are decoded as a reference definition says.
  \<^item> Concurrency: in every interleaving each task is run exactly once and in order, and none is stranded
    (\<^verbatim>\<open>Thread_Pool\<close>).
  \<^item> Faults: the inputs on which the code leaves its buffers, reads freed memory, dereferences NULL, hangs or loses
    data are stated as theorems too, next to the theorems that say when it does not.

  \<^bold>\<open>Loops.\<close> Loops that end by their structure are recursive functions. The parser of \<^verbatim>\<open>CJson\<close> takes fuel, three times the
  length of the text and three; the theorem on its safety shows that this is enough for every text. The loops over pointers in
  \<^verbatim>\<open>List_Sort\<close> are partial functions into \<open>option\<close>, shown to return on
  well-linked lists. The loop over the groups in \<^verbatim>\<open>Allocator\<close> ends at the latest when its signed counter overflows, which is a fault. \<open>__run_timers\<close> takes the readings of the clock,
  as the code reads it in every round. The purges of \<^verbatim>\<open>Data_Purge\<close> are partial functions as well, shown to return on
  a database that keeps its documented promises (\<open>ssdb_laws\<close>). The exchange of \<^verbatim>\<open>Db_Client\<close> has the four attempts of \<open>trycnt\<close>.

  \<^bold>\<open>Not modelled.\<close>

  \<^item> The workers: \<^verbatim>\<open>worker.c\<close> holds only a copy of its header. \<open>wk_add_task\<close> and the loading functions are arguments.
  \<^item> \<^verbatim>\<open>auto_data_save.c\<close>, the timer and the purges apart: it copies structures between tables and database byte by byte, in the layout of the
    compiler, and calls the missing worker module.
  \<^item> The signal handlers, which print a text and exit, and the loop of \<open>main\<close>, which repeats \<open>an_poll\<close> and \<open>run_timers\<close>: one
    pass of the former is in \<^verbatim>\<open>Connections\<close> and \<^verbatim>\<open>Server\<close>, the latter in \<^verbatim>\<open>Timer_Wheel\<close> and \<^verbatim>\<open>Cache_Expiry\<close>.
  \<^item> The locks, outside \<^verbatim>\<open>Thread_Pool\<close>: every operation of a table, the wheel, the tracker or the database pool is one step.
  \<^item> In \<^verbatim>\<open>cJSON.c\<close> the addresses of the items (\<open>cJSON_Delete\<close>, references) and the rounding of doubles: a number is a decimal
    mantissa and exponent. In \<^verbatim>\<open>list.h\<close> the macros no file uses.
  \<^item> \<^verbatim>\<open>TCP_SERVER/src\<close>: a shell around an embedded Lua interpreter; its timer and memory files are those of \<^verbatim>\<open>TCP_C\<close>. The gateway
    tool, the single-file exercises in the root directory, and the third-party releases in the repository.
\<close>

end
